(* ===== verification/Prelude.thy ===== *)
theory Prelude
  imports Main "HOL-Library.Word"
begin

text \<open>
  Shared vocabulary of the development: machine integer types, the outcome of a kernel
  call, the rules that reason about sequences of calls, and generic lemmas on lists that
  several components need.

  A kernel call takes the kernel state and ends in one of three ways: it returns a value
  and a new state, it calls \<^verbatim>\<open>panic\<close> with a message, or it gives up the CPU inside
  \<^verbatim>\<open>sleep\<close> (then the state is the one the scheduler sees).  C's statement sequence is
  \<open>bnd\<close>: what follows a call runs only when the call returned.
\<close>

unbundle bit_operations_syntax

type_synonym u8 = "8 word"
type_synonym u16 = "16 word"
type_synonym u32 = "32 word"

named_theorems run_simps \<open>equations that run an operation whose guards are decided\<close>
named_theorems keep_simps \<open>what an operation leaves unchanged\<close>

subsection \<open>Outcomes of kernel calls\<close>

datatype ('a, 's) outcome = Ret 'a 's | Panic string | Sleep 's

primrec bnd :: "('a, 's) outcome \<Rightarrow> ('a \<Rightarrow> 's \<Rightarrow> ('b, 's) outcome) \<Rightarrow> ('b, 's) outcome" where
  "bnd (Ret x s) k = k x s"
| "bnd (Panic m) k = Panic m"
| "bnd (Sleep s) k = Sleep s"

text \<open>\<open>returns m Q\<close> (total correctness): the call returns, and its result satisfies \<open>Q\<close>.
  \<open>ensures m Q\<close> (partial correctness): if the call returns, its result satisfies \<open>Q\<close>.\<close>

definition returns :: "('a, 's) outcome \<Rightarrow> ('a \<Rightarrow> 's \<Rightarrow> bool) \<Rightarrow> bool" where
  "returns m Q = (case m of Ret x s \<Rightarrow> Q x s | _ \<Rightarrow> False)"

definition ensures :: "('a, 's) outcome \<Rightarrow> ('a \<Rightarrow> 's \<Rightarrow> bool) \<Rightarrow> bool" where
  "ensures m Q = (case m of Ret x s \<Rightarrow> Q x s | _ \<Rightarrow> True)"

lemma returns_Ret [simp]: "returns (Ret x s) Q = Q x s"
  and returns_Panic [simp]: "returns (Panic m) Q = False"
  and returns_Sleep [simp]: "returns (Sleep s) Q = False"
  by (simp_all add: returns_def)

lemma ensures_Ret [simp]: "ensures (Ret x s) Q = Q x s"
  and ensures_Panic [simp]: "ensures (Panic m) Q"
  and ensures_Sleep [simp]: "ensures (Sleep s) Q"
  by (simp_all add: ensures_def)

lemma returnsE:
  assumes "returns m Q"
  obtains x s where "m = Ret x s" and "Q x s"
  using assms by (cases m) auto

lemma returnsI: "m = Ret x s \<Longrightarrow> Q x s \<Longrightarrow> returns m Q"
  by simp

lemma returns_bnd:
  "returns m R \<Longrightarrow> (\<And>x s. R x s \<Longrightarrow> returns (k x s) Q) \<Longrightarrow> returns (bnd m k) Q"
  by (cases m) auto

lemma ensures_bnd:
  "ensures m R \<Longrightarrow> (\<And>x s. R x s \<Longrightarrow> ensures (k x s) Q) \<Longrightarrow> ensures (bnd m k) Q"
  by (cases m) auto

lemma returns_mono: "returns m R \<Longrightarrow> (\<And>x s. R x s \<Longrightarrow> Q x s) \<Longrightarrow> returns m Q"
  by (cases m) auto

lemma ensures_mono: "ensures m R \<Longrightarrow> (\<And>x s. R x s \<Longrightarrow> Q x s) \<Longrightarrow> ensures m Q"
  by (cases m) auto

lemma returns_conj: "returns m P \<Longrightarrow> returns m Q \<Longrightarrow> returns m (\<lambda>x s. P x s \<and> Q x s)"
  by (cases m) auto

lemma returns_ensures: "returns m Q \<Longrightarrow> ensures m Q"
  by (cases m) auto

lemma ensuresD: "ensures m Q \<Longrightarrow> m = Ret x s \<Longrightarrow> Q x s"
  by simp

lemma bnd_RetE:
  assumes "bnd m k = Ret y t"
  obtains x s where "m = Ret x s" and "k x s = Ret y t"
  using assms by (cases m) auto

lemma returns_bnd_cong:
  "returns m R \<Longrightarrow> (\<And>x s. R x s \<Longrightarrow> k x s = h x s) \<Longrightarrow> returns (bnd m h) Q \<Longrightarrow> returns (bnd m k) Q"
  by (cases m) auto

lemma bnd_assoc: "bnd (bnd m k) h = bnd m (\<lambda>x s. bnd (k x s) h)"
  by (cases m) auto

subsection \<open>Tables scanned from index 0\<close>

text \<open>The kernel's tables (processes, files, inodes, buffers) are arrays scanned in index
  order for the first entry with a property: \<open>find_index\<close> is that loop.\<close>

fun find_from :: "('a \<Rightarrow> bool) \<Rightarrow> 'a list \<Rightarrow> nat \<Rightarrow> nat option" where
  "find_from P [] i = None"
| "find_from P (x # xs) i = (if P x then Some i else find_from P xs (Suc i))"

definition find_index :: "('a \<Rightarrow> bool) \<Rightarrow> 'a list \<Rightarrow> nat option" where
  "find_index P xs = find_from P xs 0"

lemma find_from_Some:
  "find_from P xs i = Some j \<longleftrightarrow>
     (i \<le> j \<and> j < i + length xs \<and> P (xs ! (j - i)) \<and> (\<forall>k < j - i. \<not> P (xs ! k)))"
proof (induction P xs i rule: find_from.induct)
  case (1 P i)
  then show ?case by simp
next
  case (2 P x xs i)
  show ?case
  proof (cases "P x")
    case True
    then show ?thesis
      by (auto simp: nth_Cons' split: if_splits intro!: antisym)
  next
    case False
    show ?thesis
    proof (cases "i < j")
      case True
      then have eq: "j - i = Suc (j - Suc i)" by simp
      show ?thesis
        using 2[OF False] \<open>\<not> P x\<close> True
        by (simp add: eq All_less_Suc2)
    next
      case False
      then show ?thesis using 2[OF \<open>\<not> P x\<close>] \<open>\<not> P x\<close>
        by (auto simp: le_less)
    qed
  qed
qed

lemma find_from_None: "find_from P xs i = None \<longleftrightarrow> (\<forall>x \<in> set xs. \<not> P x)"
  by (induction P xs i rule: find_from.induct) auto

lemma find_index_Some:
  "find_index P xs = Some j \<longleftrightarrow> (j < length xs \<and> P (xs ! j) \<and> (\<forall>k < j. \<not> P (xs ! k)))"
  by (simp add: find_index_def find_from_Some)

lemma find_index_None: "find_index P xs = None \<longleftrightarrow> (\<forall>x \<in> set xs. \<not> P x)"
  by (simp add: find_index_def find_from_None)

lemma find_index_SomeD:
  assumes "find_index P xs = Some j"
  shows "j < length xs" and "P (xs ! j)" and "\<And>k. k < j \<Longrightarrow> \<not> P (xs ! k)"
  using assms by (auto simp: find_index_Some)

lemma map_nth_upd:
  "i < length xs \<Longrightarrow> f (xs ! i) = f x \<Longrightarrow> map f (xs[i := x]) = map f xs"
  by (simp add: map_update list_update_same_conv)

lemma nth_list_update_if:
  "i < length xs \<Longrightarrow> xs[i := x] ! j = (if i = j then x else xs ! j)"
  by simp

lemma unat_of_nat_small: "n < 2 ^ LENGTH('a) \<Longrightarrow> unat (of_nat n :: 'a::len word) = n"
  by (simp add: unat_of_nat)

lemma len32: "LENGTH(32) = 32"
  by simp

lemma fun_upd_back: "\<not> h l \<Longrightarrow> h(l := False) = h"
  by (rule ext) simp

subsection \<open>Loops over a list\<close>

fun for_each :: "('x \<Rightarrow> 's \<Rightarrow> (unit, 's) outcome) \<Rightarrow> 'x list \<Rightarrow> 's \<Rightarrow> (unit, 's) outcome" where
  "for_each f [] s = Ret () s"
| "for_each f (x # xs) s = bnd (f x s) (\<lambda>_ s. for_each f xs s)"

lemma for_each_cong [fundef_cong]:
  "xs = ys \<Longrightarrow> s = t \<Longrightarrow> (\<And>x u. x \<in> set ys \<Longrightarrow> f x u = g x u) \<Longrightarrow> for_each f xs s = for_each g ys t"
proof (induction xs arbitrary: ys s t)
  case (Cons x xs)
  have "for_each f xs = for_each g xs" by (rule ext, rule Cons.IH[OF refl refl]) (use Cons.prems in auto)
  then show ?case using Cons.prems by auto
qed simp

lemma for_each_map: "for_each f (map h xs) s = for_each (\<lambda>x. f (h x)) xs s"
proof (induction xs arbitrary: s)
  case (Cons x xs)
  then show ?case by (cases "f (h x) s") auto
qed simp

text \<open>Division by a base makes a number smaller: the loops that take digits off end.\<close>

lemma word_div_less: "2 \<le> b \<Longrightarrow> x div b \<noteq> 0 \<Longrightarrow> unat (x div b) < unat (x :: 32 word)"
proof -
  assume b: "2 \<le> b" and d: "x div b \<noteq> 0"
  have x: "unat x \<noteq> 0" using d by (metis div_0 unat_eq_zero unsigned_0 word_div_def unat_0_iff)
  have "1 < unat b" using b by (simp add: word_le_nat_alt)
  then show ?thesis using x by (simp add: unat_div_distrib)
qed

text \<open>A word below half the range is the same number with and without sign.\<close>

lemma sint_small:
  assumes "unat (n :: u32) < 2 ^ 31"
  shows "sint n = int (unat n)"
proof -
  have "n < 2147483648" using assms by (simp add: word_less_nat_alt)
  then have "uint n < 2 ^ 31" by (simp add: word_less_def)
  then have "signed_take_bit 31 (uint n) = uint n"
    by (intro signed_take_bit_int_eq_self) (use uint_ge_0[of n] in linarith)+
  then show ?thesis by (simp add: sint_uint)
qed

end
