(* ===== verification/MMU.thy ===== *)
theory MMU
  imports Prelude
begin

text \<open>
  \<^verbatim>\<open>mmu.h\<close>, \<^verbatim>\<open>memlayout.h\<close> and the sizes of \<^verbatim>\<open>param.h\<close>: the address arithmetic of the
  two-level page table, as C macros over 32-bit unsigned integers.  The lemmas give the
  macros their meaning: an address is its three fields, rounding is rounding in the
  natural numbers where it does not overflow, and a page-table entry is its frame address
  and its flags.
\<close>

subsection \<open>Constants\<close>

definition PGSIZE :: u32 where "PGSIZE = 4096"
definition NPDENTRIES :: nat where "NPDENTRIES = 1024"
definition NPTENTRIES :: nat where "NPTENTRIES = 1024"

definition PTE_P :: u32 where "PTE_P = 0x001"
definition PTE_W :: u32 where "PTE_W = 0x002"
definition PTE_U :: u32 where "PTE_U = 0x004"

definition EXTMEM :: u32 where "EXTMEM = 0x100000"
definition PHYSTOP :: u32 where "PHYSTOP = 0xE000000"
definition DEVSPACE :: u32 where "DEVSPACE = 0xFE000000"
definition KERNBASE :: u32 where "KERNBASE = 0x80000000"
definition KERNLINK :: u32 where "KERNLINK = KERNBASE + EXTMEM"

definition V2P :: "u32 \<Rightarrow> u32" where "V2P a = a - KERNBASE"
definition P2V :: "u32 \<Rightarrow> u32" where "P2V a = a + KERNBASE"

definition NPROC :: nat where "NPROC = 64"
definition KSTACKSIZE :: u32 where "KSTACKSIZE = 4096"
definition NOFILE :: nat where "NOFILE = 16"
definition NFILE :: nat where "NFILE = 100"
definition NINODE :: nat where "NINODE = 50"
definition NDEV :: nat where "NDEV = 10"
definition ROOTDEV :: nat where "ROOTDEV = 1"
definition MAXARG :: nat where "MAXARG = 32"
definition MAXOPBLOCKS :: nat where "MAXOPBLOCKS = 10"
definition LOGSIZE :: nat where "LOGSIZE = MAXOPBLOCKS * 3"
definition NBUF :: nat where "NBUF = MAXOPBLOCKS * 3"
definition FSSIZE :: nat where "FSSIZE = 1000"
definition DEFAULT_PRIORITY :: int where "DEFAULT_PRIORITY = 10"
definition PRIORITY_GRANULARITY :: int where "PRIORITY_GRANULARITY = 10"
definition MAX_PRIORITY :: int where "MAX_PRIORITY = 1000"

subsection \<open>Address macros\<close>

definition PDX :: "u32 \<Rightarrow> u32" where
  "PDX va = drop_bit 22 va AND 0x3FF"

definition PTX :: "u32 \<Rightarrow> u32" where
  "PTX va = drop_bit 12 va AND 0x3FF"

definition PGADDR :: "u32 \<Rightarrow> u32 \<Rightarrow> u32 \<Rightarrow> u32" where
  "PGADDR d t off = push_bit 22 d OR push_bit 12 t OR off"

definition PGROUNDUP :: "u32 \<Rightarrow> u32" where
  "PGROUNDUP sz = (sz + PGSIZE - 1) AND NOT (PGSIZE - 1)"

definition PGROUNDDOWN :: "u32 \<Rightarrow> u32" where
  "PGROUNDDOWN a = a AND NOT (PGSIZE - 1)"

definition PTE_ADDR :: "u32 \<Rightarrow> u32" where
  "PTE_ADDR pte = pte AND NOT 0xFFF"

definition PTE_FLAGS :: "u32 \<Rightarrow> u32" where
  "PTE_FLAGS pte = pte AND 0xFFF"

lemma mask12: "(0xFFF :: u32) = mask 12" "PGSIZE - 1 = mask 12" "(4095 :: u32) = mask 12"
  and mask10: "(0x3FF :: u32) = mask 10"
  by (simp_all add: mask_eq_exp_minus_1 PGSIZE_def)

lemmas mmu_bits = PDX_def PTX_def PGADDR_def PGROUNDDOWN_def PTE_ADDR_def PTE_FLAGS_def
  mask10 mask12

lemma unat_and_le: "unat (x AND m) \<le> unat (m :: 'a::len word)"
  using word_and_le1 word_le_nat_alt by blast

lemma unat_PDX_less: "unat (PDX va) < 1024"
  using unat_and_le[of "drop_bit 22 va" "0x3FF"] by (simp add: PDX_def)

lemma unat_PTX_less: "unat (PTX va) < 1024"
  using unat_and_le[of "drop_bit 12 va" "0x3FF"] by (simp add: PTX_def)

lemma bit_small:
  fixes x :: "'a::len word"
  assumes "x < 2 ^ n" and "bit x k" and "n < LENGTH('a)"
  shows "k < n"
proof -
  have "take_bit n x = x" using assms(1) by (simp add: take_bit_eq_mask less_mask_eq)
  then show ?thesis using assms(2) by (metis bit_take_bit_iff)
qed

lemma PGADDR_of_parts: "PGADDR (PDX va) (PTX va) (va AND 0xFFF) = va"
  unfolding mmu_bits
proof (rule bit_word_eqI)
  fix n assume n: "n < LENGTH(32)"
  then consider "n < 12" | "12 \<le> n \<and> n < 22" | "22 \<le> n \<and> n < 32" by fastforce
  then show "bit (push_bit 22 (drop_bit 22 va AND mask 10) OR push_bit 12 (drop_bit 12 va AND mask 10)
      OR va AND mask 12) n = bit va n"
    by cases (auto simp: bit_simps)
qed

lemma PDX_PGADDR:
  assumes "t < 1024" and "off < 4096"
  shows "PDX (PGADDR d t off) = d AND 0x3FF"
  unfolding mmu_bits
proof (rule bit_word_eqI)
  fix n assume "n < LENGTH(32)"
  with assms show "bit (drop_bit 22 (push_bit 22 d OR push_bit 12 t OR off) AND mask 10) n =
      bit (d AND mask 10) n"
    using bit_small[of t 10 "10 + n"] bit_small[of off 12 "22 + n"]
    by (auto simp: bit_simps)
qed

lemma PTX_PGADDR:
  assumes "t < 1024" and "off < 4096"
  shows "PTX (PGADDR d t off) = t"
  unfolding mmu_bits
proof (rule bit_word_eqI)
  fix n assume "n < LENGTH(32)"
  with assms show "bit (drop_bit 12 (push_bit 22 d OR push_bit 12 t OR off) AND mask 10) n = bit t n"
    using bit_small[of t 10 n] bit_small[of off 12 "12 + n"]
    by (auto simp: bit_simps)
qed

lemma PTE_parts: "PTE_ADDR p OR PTE_FLAGS p = p"
  unfolding mmu_bits by (rule bit_word_eqI) (auto simp: bit_simps)

subsection \<open>Rounding\<close>

lemma and_not_mask_unat:
  fixes x :: "'a::len word"
  assumes "n < LENGTH('a)"
  shows "unat (x AND NOT (mask n)) = 2 ^ n * (unat x div 2 ^ n)"
proof -
  have "x AND NOT (mask n) = push_bit n (drop_bit n x)"
    by (rule bit_word_eqI) (auto simp: bit_simps)
  moreover have "unat (drop_bit n x) = unat x div 2 ^ n"
    by (simp add: unat_drop_bit_eq drop_bit_eq_div flip: drop_bit_eq_div)
  moreover have "2 ^ n * (unat x div 2 ^ n) < 2 ^ LENGTH('a)"
    by (rule le_less_trans[OF _ unsigned_less[of x]]) simp
  moreover have "unat (push_bit n v) = (unat v * 2 ^ n) mod 2 ^ LENGTH('a)" for v :: "'a word"
    by (subst unsigned_push_bit_eq) (simp only: push_bit_eq_mult take_bit_eq_mod)
  ultimately show ?thesis
    by (simp add: mult.commute del: push_bit_eq_mult)
qed

lemma unat_PGROUNDDOWN: "unat (PGROUNDDOWN a) = 4096 * (unat a div 4096)"
  using and_not_mask_unat[of 12 a] by (simp add: PGROUNDDOWN_def mask12)

lemma unat_PGROUNDUP:
  assumes "unat sz + 4095 < 2 ^ 32"
  shows "unat (PGROUNDUP sz) = 4096 * ((unat sz + 4095) div 4096)"
proof -
  have "PGROUNDUP sz = (sz + 4095) AND NOT (mask 12)"
    by (simp add: PGROUNDUP_def PGSIZE_def mask12 add_diff_eq[symmetric])
  moreover have "unat (sz + 4095) = unat sz + 4095"
    using assms by (simp add: unat_word_ariths)
  ultimately show ?thesis using and_not_mask_unat[of 12 "sz + 4095"] by simp
qed

text \<open>Near the top of the address space the sum overflows and rounding up gives 0.\<close>

lemma PGROUNDUP_overflow: "PGROUNDUP 0xFFFFF001 = 0"
  by (simp add: PGROUNDUP_def PGSIZE_def)

lemma PGROUNDDOWN_le: "PGROUNDDOWN a \<le> a"
  by (simp add: word_le_nat_alt unat_PGROUNDDOWN)

lemma PGROUNDDOWN_aligned: "PGROUNDDOWN a AND 0xFFF = 0"
  unfolding mmu_bits by (rule bit_word_eqI) (auto simp: bit_simps)

lemma PGROUNDDOWN_id: "a AND 0xFFF = 0 \<Longrightarrow> PGROUNDDOWN a = a"
proof -
  assume a: "a AND 0xFFF = 0"
  have "(a AND NOT (mask 12)) OR (a AND mask 12) = a"
    by (rule bit_word_eqI) (auto simp: bit_simps)
  with a show ?thesis by (simp add: PGROUNDDOWN_def mask12)
qed

lemma aligned_iff: "(a :: u32) AND 0xFFF = 0 \<longleftrightarrow> unat a mod 4096 = 0"
proof -
  have "a AND 0xFFF = take_bit 12 a"
    by (simp add: mask12 take_bit_eq_mask)
  moreover have "unat (take_bit 12 a) = unat a mod 4096"
    by (simp add: take_bit_eq_mod unat_mod)
  ultimately show ?thesis
    by (metis unat_eq_zero)
qed

subsection \<open>Page-table entries\<close>

lemma PTE_ADDR_of:
  assumes "pa AND 0xFFF = 0" and "perm < 4096"
  shows "PTE_ADDR (pa OR perm OR PTE_P) = pa"
    and "PTE_FLAGS (pa OR perm OR PTE_P) = perm OR PTE_P"
proof -
  have pa: "\<not> bit pa n" if "n < 12" for n
  proof -
    have "bit (pa AND mask 12) n = bit pa n" using that by (simp add: bit_simps)
    then show ?thesis using assms(1) by (simp add: mask12)
  qed
  have pm: "n < 12" if "bit (perm OR PTE_P) n" for n
    using that bit_small[of perm 12 n] assms(2)
    by (auto simp: bit_simps PTE_P_def)
  show "PTE_ADDR (pa OR perm OR PTE_P) = pa"
    unfolding mmu_bits
    by (rule bit_word_eqI) (use pa pm in \<open>auto simp: bit_simps\<close>)
  show "PTE_FLAGS (pa OR perm OR PTE_P) = perm OR PTE_P"
    unfolding mmu_bits
    by (rule bit_word_eqI) (use pa pm in \<open>auto simp: bit_simps\<close>)
qed

lemma P2V_V2P [simp]: "P2V (V2P a) = a"
  and V2P_P2V [simp]: "V2P (P2V a) = a"
  by (simp_all add: P2V_def V2P_def)

end
