(* ===== verification/Cstring.thy ===== *)
theory Cstring
  imports MMU
begin

text \<open>
  \<^verbatim>\<open>string.c\<close> and the two \<^verbatim>\<open>rep stos\<close> wrappers of \<^verbatim>\<open>x86.h\<close>.

  Physical memory is a map from 32-bit addresses to bytes; a 32-bit word is stored in
  little-endian order.  The \<^verbatim>\<open>mem*\<close> routines work on this memory, with the source's
  pointer comparisons and 32-bit wrap-around.  The \<^verbatim>\<open>str*\<close> routines work on the bytes
  that start at the pointer, as a list: reading at the end of the list reads the
  terminating NUL.

  The lemmas show that the word-at-a-time fill of \<^verbatim>\<open>memset\<close> is the byte fill, that
  \<^verbatim>\<open>memmove\<close> copies correctly when the regions overlap, and what the string routines
  compute.
\<close>

subsection \<open>Memory\<close>

type_synonym memory = "u32 \<Rightarrow> u8"

definition load32 :: "memory \<Rightarrow> u32 \<Rightarrow> u32" where
  "load32 m a = ucast (m a) OR push_bit 8 (ucast (m (a + 1)))
     OR push_bit 16 (ucast (m (a + 2))) OR push_bit 24 (ucast (m (a + 3)))"

definition store32 :: "memory \<Rightarrow> u32 \<Rightarrow> u32 \<Rightarrow> memory" where
  "store32 m a v = m(a := ucast v, a + 1 := ucast (drop_bit 8 v),
     a + 2 := ucast (drop_bit 16 v), a + 3 := ucast (drop_bit 24 v))"

lemma load32_store32 [simp]: "load32 (store32 m a v) a = v"
proof -
  have "load32 (store32 m a v) a = ucast (ucast v :: u8) OR push_bit 8 (ucast (ucast (drop_bit 8 v) :: u8))
     OR push_bit 16 (ucast (ucast (drop_bit 16 v) :: u8)) OR push_bit 24 (ucast (ucast (drop_bit 24 v) :: u8))"
    by (simp add: load32_def store32_def)
  also have "\<dots> = v"
  proof (rule bit_word_eqI)
    fix n assume "n < LENGTH(32)"
    then consider "n < 8" | "8 \<le> n \<and> n < 16" | "16 \<le> n \<and> n < 24" | "24 \<le> n \<and> n < 32" by fastforce
    then show "bit (ucast (ucast v :: u8) OR push_bit 8 (ucast (ucast (drop_bit 8 v) :: u8))
       OR push_bit 16 (ucast (ucast (drop_bit 16 v) :: u8))
       OR push_bit 24 (ucast (ucast (drop_bit 24 v) :: u8)) :: u32) n = bit v n"
      by cases (auto simp: bit_simps)
  qed
  finally show ?thesis .
qed

definition word_at :: "u32 \<Rightarrow> u32 set" where
  "word_at a = {a, a + 1, a + 2, a + 3}"

lemma load32_cong: "(\<And>x. x \<in> word_at a \<Longrightarrow> m x = m' x) \<Longrightarrow> load32 m a = load32 m' a"
  by (simp add: load32_def word_at_def)

lemma load32_store32_other: "word_at a \<inter> word_at b = {} \<Longrightarrow> load32 (store32 m b v) a = load32 m a"
  by (rule load32_cong) (auto simp: store32_def word_at_def)

lemma store32_other: "x \<notin> word_at a \<Longrightarrow> store32 m a v x = m x"
  by (simp add: store32_def word_at_def)

subsection \<open>memset\<close>

fun stosb :: "memory \<Rightarrow> u32 \<Rightarrow> u8 \<Rightarrow> nat \<Rightarrow> memory" where
  "stosb m a b 0 = m"
| "stosb m a b (Suc n) = stosb (m(a := b)) (a + 1) b n"

fun stosl :: "memory \<Rightarrow> u32 \<Rightarrow> u32 \<Rightarrow> nat \<Rightarrow> memory" where
  "stosl m a w 0 = m"
| "stosl m a w (Suc n) = stosl (store32 m a w) (a + 4) w n"

definition fill4 :: "u32 \<Rightarrow> u32" where
  "fill4 c = push_bit 24 c OR push_bit 16 c OR push_bit 8 c OR c"

definition memset :: "memory \<Rightarrow> u32 \<Rightarrow> u32 \<Rightarrow> u32 \<Rightarrow> memory" where
  "memset m dst c n =
     (if dst mod 4 = 0 \<and> n mod 4 = 0 then stosl m dst (fill4 (c AND 0xFF)) (unat (n div 4))
      else stosb m dst (ucast c) (unat n))"

lemma stosb_eq:
  "n \<le> 2 ^ 32 \<Longrightarrow> stosb m dst b n = (\<lambda>a. if unat (a - dst) < n then b else m a)"
proof (induction n arbitrary: m dst)
  case 0
  then show ?case by simp
next
  case (Suc n)
  have "(if unat (a - (dst + 1)) < n then b else (m(dst := b)) a) =
      (if unat (a - dst) < Suc n then b else m a)" for a
  proof (cases "a = dst")
    case True
    then show ?thesis by simp
  next
    case False
    then have "a - dst \<noteq> 0" by simp
    then have "unat (a - dst - 1) = unat (a - dst) - 1" and "unat (a - dst) \<noteq> 0"
      by (simp add: unat_minus_one, simp add: unat_eq_0)
    then have "unat (a - (dst + 1)) < n \<longleftrightarrow> unat (a - dst) < Suc n"
      by (simp add: diff_diff_eq) linarith
    then show ?thesis using False by simp
  qed
  then show ?case using Suc by simp
qed

lemma fill4_byte:
  assumes "k \<in> {0, 8, 16, 24}"
  shows "ucast (drop_bit k (fill4 (c AND 0xFF))) = (ucast c :: u8)"
proof -
  have m: "(0xFF :: u32) = mask 8" by (simp add: mask_eq_exp_minus_1)
  from assms consider "k = 0" | "k = 8" | "k = 16" | "k = 24" by blast
  then show ?thesis
    by cases (simp only: fill4_def m, rule bit_word_eqI, simp add: bit_simps, fastforce?)+
qed

lemma store32_fill: "store32 m a (fill4 (c AND 0xFF)) = stosb m a (ucast c) 4"
  using fill4_byte[of 0 c] fill4_byte[of 8 c] fill4_byte[of 16 c] fill4_byte[of 24 c]
  by (simp add: store32_def numeral_eq_Suc add.assoc)

lemma stosb_add: "stosb m a b (k + n) = stosb (stosb m a b k) (a + of_nat k) b n"
  by (induction k arbitrary: m a) (simp_all add: algebra_simps)

lemma stosl_eq: "stosl m a (fill4 (c AND 0xFF)) n = stosb m a (ucast c) (4 * n)"
proof (induction n arbitrary: m a)
  case 0
  then show ?case by simp
next
  case (Suc n)
  have "4 * Suc n = 4 + 4 * n" by simp
  then show ?case
    using stosb_add[of m a "ucast c" 4 "4 * n"] by (simp only: Suc store32_fill stosl.simps of_nat_numeral)
qed

theorem memset_eq: "memset m dst c n = (\<lambda>a. if a - dst < n then ucast c else m a)"
proof -
  have "4 * unat (n div 4) = unat n" if "n mod 4 = 0"
  proof -
    have "unat (n mod 4) = 0" using that by simp
    then have "unat n mod 4 = 0" by (simp add: unat_mod)
    then show ?thesis by (simp add: unat_div) presburger
  qed
  then have "memset m dst c n = stosb m dst (ucast c) (unat n)"
    by (simp add: memset_def stosl_eq)
  moreover have "unat n \<le> 2 ^ 32" using unsigned_less[of n, where ?'a = nat] by simp
  ultimately show ?thesis by (simp add: stosb_eq word_less_nat_alt)
qed

subsection \<open>memcmp and memmove\<close>

fun memcmp :: "memory \<Rightarrow> u32 \<Rightarrow> u32 \<Rightarrow> nat \<Rightarrow> int" where
  "memcmp m s1 s2 0 = 0"
| "memcmp m s1 s2 (Suc n) =
     (if m s1 \<noteq> m s2 then uint (m s1) - uint (m s2) else memcmp m (s1 + 1) (s2 + 1) n)"

fun copy_down :: "memory \<Rightarrow> u32 \<Rightarrow> u32 \<Rightarrow> nat \<Rightarrow> memory" where
  "copy_down m d s 0 = m"
| "copy_down m d s (Suc n) =
     (let s = s - 1; d = d - 1 in copy_down (m(d := m s)) d s n)"

fun copy_up :: "memory \<Rightarrow> u32 \<Rightarrow> u32 \<Rightarrow> nat \<Rightarrow> memory" where
  "copy_up m d s 0 = m"
| "copy_up m d s (Suc n) = copy_up (m(d := m s)) (d + 1) (s + 1) n"

definition memmove :: "memory \<Rightarrow> u32 \<Rightarrow> u32 \<Rightarrow> u32 \<Rightarrow> memory" where
  "memmove m dst src n =
     (if src < dst \<and> src + n > dst then copy_down m (dst + n) (src + n) (unat n)
      else copy_up m dst src (unat n))"

definition memcpy :: "memory \<Rightarrow> u32 \<Rightarrow> u32 \<Rightarrow> u32 \<Rightarrow> memory" where
  "memcpy m dst src n = memmove m dst src n"

lemma memcmp_zero:
  "memcmp m s1 s2 n = 0 \<longleftrightarrow> (\<forall>i < n. m (s1 + of_nat i) = m (s2 + of_nat i))"
proof (induction m s1 s2 n rule: memcmp.induct)
  case (2 m s1 s2 n)
  have "(\<forall>i < Suc n. m (s1 + of_nat i) = m (s2 + of_nat i)) \<longleftrightarrow>
      m s1 = m s2 \<and> (\<forall>i < n. m (s1 + 1 + of_nat i) = m (s2 + 1 + of_nat i))"
    by (simp add: All_less_Suc2 add.assoc)
  with 2 show ?case by (simp add: word_uint_eq_iff)
qed simp

text \<open>The offset of an address from the destination, as a number: regions do not wrap.\<close>

lemma copy_up_eq:
  assumes "d \<le> s \<or> s + n \<le> d" and "s + n \<le> 2 ^ 32" and "d + n \<le> 2 ^ 32"
  shows "copy_up m (of_nat d) (of_nat s) n =
    (\<lambda>a. if d \<le> unat a \<and> unat a < d + n then m (of_nat (s + (unat a - d))) else m a)"
  using assms
proof (induction n arbitrary: m d s)
  case 0
  then show ?case by (auto simp: fun_eq_iff)
next
  case (Suc n)
  have d: "unat (of_nat d :: u32) = d" and s: "unat (of_nat s :: u32) = s"
    using Suc.prems by (simp_all add: unat_of_nat_small)
  let ?m = "m(of_nat d := m (of_nat s))"
  have IH: "copy_up ?m (of_nat (Suc d)) (of_nat (Suc s)) n =
    (\<lambda>a. if Suc d \<le> unat a \<and> unat a < Suc d + n then ?m (of_nat (Suc s + (unat a - Suc d))) else ?m a)"
    by (rule Suc.IH) (use Suc.prems in auto)
  have "(if Suc d \<le> unat a \<and> unat a < Suc d + n then ?m (of_nat (Suc s + (unat a - Suc d))) else ?m a) =
     (if d \<le> unat a \<and> unat a < d + Suc n then m (of_nat (s + (unat a - d))) else m a)" for a :: u32
  proof (cases "Suc d \<le> unat a \<and> unat a < Suc d + n")
    case True
    then have eq: "Suc s + (unat a - Suc d) = s + (unat a - d)" by arith
    have "s + (unat a - d) < 2 ^ 32"
      using True Suc.prems by arith
    then have "unat (of_nat (s + (unat a - d)) :: u32) = s + (unat a - d)"
      by (intro unat_of_nat_small) simp
    moreover have "s + (unat a - d) \<noteq> d" using True Suc.prems by linarith
    ultimately have "of_nat (s + (unat a - d)) \<noteq> (of_nat d :: u32)" using d by metis
    then have upd: "?m (of_nat (s + (unat a - d))) = m (of_nat (s + (unat a - d)))"
      by (rule fun_upd_other)
    have "(Suc d \<le> unat a \<and> unat a < Suc d + n) = True" "(d \<le> unat a \<and> unat a < d + Suc n) = True"
      using True by auto
    then show ?thesis by (simp only: eq upd if_True)
  next
    case False
    then show ?thesis
      by (cases "a = of_nat d") (use d Suc.prems in \<open>auto simp: word_unat_eq_iff\<close>)
  qed
  then show ?case using IH by (simp add: add.commute)
qed

lemma copy_down_eq:
  assumes "s \<le> d" and "s + n \<le> 2 ^ 32" and "d + n \<le> 2 ^ 32"
  shows "copy_down m (of_nat (d + n)) (of_nat (s + n)) n =
    (\<lambda>a. if d \<le> unat a \<and> unat a < d + n then m (of_nat (s + (unat a - d))) else m a)"
  using assms
proof (induction n arbitrary: m)
  case 0
  then show ?case by (auto simp: fun_eq_iff)
next
  case (Suc n)
  have d: "unat (of_nat (d + n) :: u32) = d + n"
    using Suc.prems by (intro unat_of_nat_small) simp
  let ?m = "m(of_nat (d + n) := m (of_nat (s + n)))"
  have IH: "copy_down ?m (of_nat (d + n)) (of_nat (s + n)) n =
    (\<lambda>a. if d \<le> unat a \<and> unat a < d + n then ?m (of_nat (s + (unat a - d))) else ?m a)"
    by (rule Suc.IH) (use Suc.prems in auto)
  have "(if d \<le> unat a \<and> unat a < d + n then ?m (of_nat (s + (unat a - d))) else ?m a) =
     (if d \<le> unat a \<and> unat a < d + Suc n then m (of_nat (s + (unat a - d))) else m a)" for a :: u32
  proof (cases "d \<le> unat a \<and> unat a < d + n")
    case True
    have "s + (unat a - d) < 2 ^ 32"
      using True Suc.prems by arith
    then have "unat (of_nat (s + (unat a - d)) :: u32) = s + (unat a - d)"
      by (intro unat_of_nat_small) simp
    moreover have "s + (unat a - d) \<noteq> d + n" using True Suc.prems by linarith
    ultimately have "of_nat (s + (unat a - d)) \<noteq> (of_nat (d + n) :: u32)" using d by metis
    then have upd: "?m (of_nat (s + (unat a - d))) = m (of_nat (s + (unat a - d)))"
      by (rule fun_upd_other)
    have "(d \<le> unat a \<and> unat a < d + n) = True" "(d \<le> unat a \<and> unat a < d + Suc n) = True"
      using True by auto
    then show ?thesis by (simp only: upd if_True)
  next
    case False
    show ?thesis
    proof (cases "unat a = d + n")
      case True
      then have "a = of_nat (d + n)" using d by (simp add: word_unat_eq_iff)
      then show ?thesis using True by simp
    next
      case F2: False
      then have "a \<noteq> of_nat (d + n)" using d by metis
      then show ?thesis using False F2 by auto
    qed
  qed
  then show ?case using IH by (simp add: Let_def add_diff_eq[symmetric])
qed

theorem memmove_eq:
  assumes "unat src + unat n < 2 ^ 32" and "unat dst + unat n < 2 ^ 32"
  shows "memmove m dst src n = (\<lambda>a. if a - dst < n then m (src + (a - dst)) else m a)"
proof -
  let ?r = "\<lambda>a. if unat dst \<le> unat a \<and> unat a < unat dst + unat n
      then m (of_nat (unat src + (unat a - unat dst))) else m a"
  have src_n: "unat (src + n) = unat src + unat n"
    using assms(1) by (simp add: unat_word_ariths)
  have "memmove m dst src n = ?r"
  proof (cases "src < dst \<and> src + n > dst")
    case True
    then have "copy_down m (of_nat (unat dst + unat n)) (of_nat (unat src + unat n)) (unat n) = ?r"
      by (intro copy_down_eq) (use assms True in \<open>auto simp: word_less_nat_alt\<close>)
    then show ?thesis using True by (simp add: memmove_def)
  next
    case False
    then have "copy_up m (of_nat (unat dst)) (of_nat (unat src)) (unat n) = ?r"
      by (intro copy_up_eq) (use assms False src_n in \<open>auto simp: word_less_nat_alt not_less\<close>)
    then show ?thesis using False by (simp add: memmove_def del: not_less) blast
  qed
  moreover have "?r a = (if a - dst < n then m (src + (a - dst)) else m a)" for a
  proof -
    have iff: "a - dst < n \<longleftrightarrow> unat dst \<le> unat a \<and> unat a < unat dst + unat n"
    proof (cases "unat dst \<le> unat a")
      case True
      then have "unat (a - dst) = unat a - unat dst" by (simp add: unat_sub word_le_nat_alt)
      then show ?thesis using True by (simp add: word_less_nat_alt) linarith
    next
      case False
      then have "unat (a - dst) = 2 ^ 32 + unat a - unat dst"
        by (simp add: unat_sub_if')
      then show ?thesis using False assms by (simp add: word_less_nat_alt)
    qed
    have "of_nat (unat src + (unat a - unat dst)) = src + (a - dst)" if "unat dst \<le> unat a"
      using that by (simp add: of_nat_diff)
    then show ?thesis using iff by metis
  qed
  ultimately show ?thesis by auto
qed

subsection \<open>Strings\<close>

text \<open>The byte at the pointer, and the pointer moved on by one.\<close>

definition deref :: "u8 list \<Rightarrow> u8" where
  "deref p = (case p of [] \<Rightarrow> 0 | c # _ \<Rightarrow> c)"

lemma deref_simps [simp]: "deref [] = 0" "deref (c # p) = c"
  by (simp_all add: deref_def)

fun strncmp :: "u8 list \<Rightarrow> u8 list \<Rightarrow> nat \<Rightarrow> int" where
  "strncmp p q n =
     (if n > 0 \<and> deref p \<noteq> 0 \<and> deref p = deref q then strncmp (tl p) (tl q) (n - 1)
      else if n = 0 then 0
      else uint (deref p) - uint (deref q))"

declare strncmp.simps [simp del]

text \<open>\<open>strncpy\<close> and \<open>safestrcpy\<close> give the bytes they write at the destination; the rest of
  the destination array keeps its bytes.\<close>

fun strncpy_bytes :: "u8 list \<Rightarrow> nat \<Rightarrow> u8 list" where
  "strncpy_bytes t 0 = []"
| "strncpy_bytes t (Suc n) =
     (if deref t \<noteq> 0 then deref t # strncpy_bytes (tl t) n else 0 # replicate n 0)"

definition strncpy :: "u8 list \<Rightarrow> u8 list \<Rightarrow> nat \<Rightarrow> u8 list" where
  "strncpy s t n = (let w = strncpy_bytes t n in w @ drop (length w) s)"

fun safestrcpy_bytes :: "u8 list \<Rightarrow> nat \<Rightarrow> u8 list" where
  "safestrcpy_bytes t 0 = []"
| "safestrcpy_bytes t (Suc 0) = [0]"
| "safestrcpy_bytes t (Suc (Suc n)) =
     (if deref t \<noteq> 0 then deref t # safestrcpy_bytes (tl t) (Suc n) else [0, 0])"

definition safestrcpy :: "u8 list \<Rightarrow> u8 list \<Rightarrow> nat \<Rightarrow> u8 list" where
  "safestrcpy s t n = (let w = safestrcpy_bytes t n in w @ drop (length w) s)"

fun strlen :: "u8 list \<Rightarrow> nat" where
  "strlen [] = 0"
| "strlen (c # s) = (if c \<noteq> 0 then Suc (strlen s) else 0)"

text \<open>The string in a byte array: everything before the first NUL.\<close>

definition cstr :: "u8 list \<Rightarrow> u8 list" where
  "cstr xs = takeWhile (\<lambda>c. c \<noteq> 0) xs"

lemma cstr_simps [simp]:
  "cstr [] = []" "cstr (c # xs) = (if c = 0 then [] else c # cstr xs)"
  by (simp_all add: cstr_def)

lemma strlen_eq: "strlen s = length (cstr s)"
  by (induction s) auto

lemma strncmp_simps [simp]:
  "strncmp p q 0 = 0"
  "strncmp p q (Suc n) =
     (if deref p \<noteq> 0 \<and> deref p = deref q then strncmp (tl p) (tl q) n
      else uint (deref p) - uint (deref q))"
  by (subst strncmp.simps, simp)+

lemma uint_eq_uint: "uint a = uint b \<longleftrightarrow> a = b"
  by (simp add: word_uint_eq_iff)

lemma strncmp_zero: "strncmp p q n = 0 \<longleftrightarrow> cstr (take n p) = cstr (take n q)"
proof (induction n arbitrary: p q)
  case (Suc n)
  then show ?case by (cases p; cases q) (auto simp: uint_eq_uint uint_0_iff)
qed simp

lemma length_strncpy_bytes [simp]: "length (strncpy_bytes t n) = n"
  by (induction t n rule: strncpy_bytes.induct) auto

lemma length_strncpy: "n \<le> length s \<Longrightarrow> length (strncpy s t n) = length s"
  by (simp add: strncpy_def)

lemma cstr_strncpy_bytes: "cstr (strncpy_bytes t n) = cstr (take n t)"
proof (induction t n rule: strncpy_bytes.induct)
  case (2 t n)
  then show ?case by (cases t) (auto simp: cstr_def)
qed simp

lemma length_safestrcpy_bytes: "length (safestrcpy_bytes t n) \<le> n"
  by (induction t n rule: safestrcpy_bytes.induct) auto

lemma safestrcpy_bytes_nul: "0 < n \<Longrightarrow> last (safestrcpy_bytes t n) = 0 \<and> safestrcpy_bytes t n \<noteq> []"
  by (induction t n rule: safestrcpy_bytes.induct) auto

lemma cstr_safestrcpy_bytes: "cstr (safestrcpy_bytes t n) = cstr (take (n - 1) t)"
proof (induction t n rule: safestrcpy_bytes.induct)
  case (3 t n)
  then show ?case by (cases t) auto
qed simp_all

lemma cstr_append_nul: "0 \<in> set xs \<Longrightarrow> cstr (xs @ ys) = cstr xs"
  by (induction xs) auto

text \<open>\<open>safestrcpy\<close> into an array of at least \<open>n\<close> bytes writes inside the array, and the
  array then holds the first \<open>n - 1\<close> characters of the source.\<close>

theorem safestrcpy_spec:
  assumes "0 < n" and "n \<le> length s"
  shows "length (safestrcpy s t n) = length s"
    and "cstr (safestrcpy s t n) = cstr (take (n - 1) t)"
proof -
  show "length (safestrcpy s t n) = length s"
    using assms length_safestrcpy_bytes[of t n] by (simp add: safestrcpy_def Let_def)
  have "0 \<in> set (safestrcpy_bytes t n)"
    using safestrcpy_bytes_nul[OF assms(1), of t] by (metis last_in_set)
  then show "cstr (safestrcpy s t n) = cstr (take (n - 1) t)"
    by (simp add: safestrcpy_def Let_def cstr_append_nul cstr_safestrcpy_bytes)
qed

subsection \<open>Properties\<close>

text \<open>C34: \<open>memmove\<close> copies \<open>n\<close> bytes as if through a buffer, also when source and
  destination overlap, and changes no other byte, provided neither region runs past the end of
  the address space.\<close>

theorem memmove_overlap:
  assumes "unat src + unat n < 2 ^ 32" and "unat dst + unat n < 2 ^ 32"
  shows "memmove m dst src n a = (if a - dst < n then m (src + (a - dst)) else m a)"
  by (simp add: memmove_eq[OF assms])

theorem memmove_overlap_witness:
  "memmove (\<lambda>a. ucast a) 102 100 4 105 = 103"
  using memmove_overlap[of 100 4 102 "\<lambda>a. ucast a" 105] by simp

text \<open>C35: \<open>safestrcpy\<close> never writes past the \<open>n\<close> bytes of its destination, and always leaves
  there a NUL-terminated string: the first \<open>n - 1\<close> characters of the source.\<close>

theorem safestrcpy_safe:
  assumes "0 < n" and "n \<le> length s"
  shows "length (safestrcpy s t n) = length s \<and> drop n (safestrcpy s t n) = drop n s \<and>
    0 \<in> set (take n (safestrcpy s t n)) \<and> cstr (safestrcpy s t n) = cstr (take (n - 1) t)"
proof (intro conjI)
  let ?w = "safestrcpy_bytes t n"
  have le: "length ?w \<le> n" by (rule length_safestrcpy_bytes)
  then have d: "drop n (?w @ drop (length ?w) s) = drop n s" by simp
  then show "drop n (safestrcpy s t n) = drop n s" unfolding safestrcpy_def Let_def .
  have "0 \<in> set ?w" using safestrcpy_bytes_nul[OF assms(1), of t] by (metis last_in_set)
  then show "0 \<in> set (take n (safestrcpy s t n))" using le by (simp add: safestrcpy_def Let_def)
qed (use safestrcpy_spec[OF assms] in auto)

theorem safestrcpy_safe_witness:
  "cstr (safestrcpy [1, 1, 1, 1] [65, 66, 67, 68, 69] 3) = [65, 66]"
  using safestrcpy_safe[of 3 "[1, 1, 1, 1]" "[65, 66, 67, 68, 69]"] by simp

end
