(* ===== verification/Sched.thy ===== *)
theory Sched
  imports Cstring
begin

text \<open>
  The process table and the scheduler: \<^verbatim>\<open>proc.h\<close> and the part of \<^verbatim>\<open>proc.c\<close> that decides
  which process runs (\<open>sleep\<close>, \<open>wakeup\<close>, \<open>sched\<close>, \<open>yield\<close>, \<open>scheduler\<close>, \<open>kill\<close>) or
  only reads the table, with \<open>switchuvm\<close> and \<open>switchkvm\<close> of \<^verbatim>\<open>vm.c\<close>.

  The state is one CPU's view of the kernel.  \<open>held\<close> lists the spinlocks this CPU holds,
  newest first, so its length is the \<^verbatim>\<open>ncli\<close> nesting count; theory Spinlock relates it
  to the lock words, the interrupt flag and several CPUs.  A process is named by its
  index in \<^verbatim>\<open>ptable\<close>; a sleep channel, in C the address of some object, by a
  constructor of \<open>chan\<close>.  The trap frame of a process, on its kernel stack in the C code, is the field
  \<open>tf\<close> of its entry; its saved context is the address \<open>ctx\<close>.
\<close>

subsection \<open>State\<close>

datatype slid = SlBuf nat | SlInode nat

datatype lock =
    LkPtable | LkTicks | LkKmem | LkCons | LkBcache | LkIde | LkLog | LkIcache | LkFtable
  | LkPipe u32 | LkSleep slid

datatype chan =
    ChProc nat | ChTicks | ChLog | ChBuf nat | ChCons | ChSleep slid
  | ChPipeRead u32 | ChPipeWrite u32

datatype procstate = UNUSED | EMBRYO | SLEEPING | RUNNABLE | RUNNING | ZOMBIE

record trapframe =
  tf_edi :: u32
  tf_esi :: u32
  tf_ebp :: u32
  tf_oesp :: u32
  tf_ebx :: u32
  tf_edx :: u32
  tf_ecx :: u32
  tf_eax :: u32
  tf_gs :: u16
  tf_fs :: u16
  tf_es :: u16
  tf_ds :: u16
  tf_trapno :: u32
  tf_err :: u32
  tf_eip :: u32
  tf_cs :: u16
  tf_eflags :: u32
  tf_esp :: u32
  tf_ss :: u16

record proc =
  sz :: u32
  pgdir :: u32
  kstack :: u32
  state :: procstate
  pid :: int
  parent :: "nat option"
  tf :: trapframe
  ctx :: u32
  chan :: "chan option"
  killed :: bool
  ofile :: "nat option list"
  cwd :: "nat option"
  name :: "u8 list"
  contextswitch :: int
  priority :: int
  executionAddress :: u32

record kst =
  held :: "lock list"
  procs :: "proc list"
  nextpid :: int
  cur :: "nat option"
  initproc :: "nat option"
  ticks :: u32
  kpgdir :: u32
  cr3 :: u32
  esp0 :: u32

subsection \<open>Spinlocks as this CPU sees them\<close>

definition acquire :: "lock \<Rightarrow> 'z kst_scheme \<Rightarrow> (unit, 'z kst_scheme) outcome" where
  "acquire l s = (if l \<in> set (held s) then Panic ''acquire'' else Ret () (s\<lparr>held := l # held s\<rparr>))"

definition release :: "lock \<Rightarrow> 'z kst_scheme \<Rightarrow> (unit, 'z kst_scheme) outcome" where
  "release l s = (if l \<in> set (held s) then Ret () (s\<lparr>held := remove1 l (held s)\<rparr>) else Panic ''release'')"

lemma acquire_free [run_simps]: "l \<notin> set (held s) \<Longrightarrow> acquire l s = Ret () (s\<lparr>held := l # held s\<rparr>)"
  by (simp add: acquire_def)

lemma release_head [run_simps]: "held s = l # hs \<Longrightarrow> release l s = Ret () (s\<lparr>held := hs\<rparr>)"
  by (simp add: release_def)

text \<open>A critical section: take the lock, run the body, drop the lock.\<close>

lemma critical_section:
  assumes "l \<notin> set (held s)" and "k () (s\<lparr>held := l # held s\<rparr>) = Ret x t" and "held t = l # held s"
  shows "bnd (bnd (acquire l s) k) (\<lambda>x t. bnd (release l t) (\<lambda>_ t. Ret x t)) = Ret x (t\<lparr>held := held s\<rparr>)"
  using assms by (simp add: acquire_free release_head)

subsection \<open>Processes\<close>

definition upd_proc :: "nat \<Rightarrow> (proc \<Rightarrow> proc) \<Rightarrow> 'z kst_scheme \<Rightarrow> 'z kst_scheme" where
  "upd_proc i f s = s\<lparr>procs := (procs s)[i := f (procs s ! i)]\<rparr>"

text \<open>\<open>myproc()\<close>; the kernel calls that use it run on behalf of a process.\<close>

definition myproc :: "'z kst_scheme \<Rightarrow> nat" where
  "myproc s = the (cur s)"

definition switchkvm :: "'z kst_scheme \<Rightarrow> 'z kst_scheme" where
  "switchkvm s = s\<lparr>cr3 := V2P (kpgdir s)\<rparr>"

definition switchuvm :: "nat \<Rightarrow> 'z kst_scheme \<Rightarrow> (unit, 'z kst_scheme) outcome" where
  "switchuvm i s =
     (let p = procs s ! i in
      if kstack p = 0 then Panic ''switchuvm: no kstack''
      else if pgdir p = 0 then Panic ''switchuvm: no pgdir''
      else Ret () (s\<lparr>esp0 := kstack p + KSTACKSIZE, cr3 := V2P (pgdir p)\<rparr>))"

definition wake :: "chan \<Rightarrow> proc \<Rightarrow> proc" where
  "wake ch p = (if state p = SLEEPING \<and> chan p = Some ch then p\<lparr>state := RUNNABLE\<rparr> else p)"

definition wakeup1 :: "chan \<Rightarrow> 'z kst_scheme \<Rightarrow> 'z kst_scheme" where
  "wakeup1 ch s = s\<lparr>procs := map (wake ch) (procs s)\<rparr>"

definition wakeup :: "chan \<Rightarrow> 'z kst_scheme \<Rightarrow> (unit, 'z kst_scheme) outcome" where
  "wakeup ch s =
     bnd (acquire LkPtable s) (\<lambda>_ s.
     release LkPtable (wakeup1 ch s))"

text \<open>\<open>sched\<close> hands the CPU to the scheduler.  The state of the outcome \<open>Sleep\<close> is the one
  the scheduler finds; the process goes on from there when it is scheduled again.\<close>

definition sched :: "'z kst_scheme \<Rightarrow> (unit, 'z kst_scheme) outcome" where
  "sched s =
     (if LkPtable \<notin> set (held s) then Panic ''sched ptable.lock''
      else if length (held s) \<noteq> 1 then Panic ''sched locks''
      else if state (procs s ! myproc s) = RUNNING then Panic ''sched running''
      else Sleep s)"

definition yield :: "'z kst_scheme \<Rightarrow> (unit, 'z kst_scheme) outcome" where
  "yield s =
     bnd (acquire LkPtable s) (\<lambda>_ s.
     bnd (sched (upd_proc (myproc s) (\<lambda>p. p\<lparr>state := RUNNABLE\<rparr>) s)) (\<lambda>_ s.
     release LkPtable s))"

definition sleep :: "chan \<Rightarrow> lock option \<Rightarrow> 'z kst_scheme \<Rightarrow> (unit, 'z kst_scheme) outcome" where
  "sleep ch lk s =
     (case cur s of
        None \<Rightarrow> Panic ''sleep''
      | Some p \<Rightarrow>
        (case lk of
           None \<Rightarrow> Panic ''sleep without lk''
         | Some l \<Rightarrow>
             bnd (if l \<noteq> LkPtable then bnd (acquire LkPtable s) (\<lambda>_ s. release l s) else Ret () s) (\<lambda>_ s.
             sched (upd_proc p (\<lambda>q. q\<lparr>chan := Some ch, state := SLEEPING\<rparr>) s))))"

text \<open>The rest of \<open>sleep\<close>, run when the process is scheduled again.\<close>

definition sleep_return :: "lock \<Rightarrow> 'z kst_scheme \<Rightarrow> (unit, 'z kst_scheme) outcome" where
  "sleep_return l s =
     (let s = upd_proc (myproc s) (\<lambda>q. q\<lparr>chan := None\<rparr>) s in
      if l \<noteq> LkPtable then bnd (release LkPtable s) (\<lambda>_ s. acquire l s) else Ret () s)"

definition kill :: "int \<Rightarrow> 'z kst_scheme \<Rightarrow> (int, 'z kst_scheme) outcome" where
  "kill p s =
     bnd (acquire LkPtable s) (\<lambda>_ s.
     case find_index (\<lambda>q. pid q = p) (procs s) of
       Some i \<Rightarrow>
         let s = upd_proc i (\<lambda>q. q\<lparr>killed := True\<rparr>) s;
             s = (if state (procs s ! i) = SLEEPING then upd_proc i (\<lambda>q. q\<lparr>state := RUNNABLE\<rparr>) s else s)
         in bnd (release LkPtable s) (\<lambda>_ s. Ret 0 s)
     | None \<Rightarrow> bnd (release LkPtable s) (\<lambda>_ s. Ret (-1) s))"

subsection \<open>Reading the table; priorities\<close>

definition sys_getNumProc :: "'z kst_scheme \<Rightarrow> (int, 'z kst_scheme) outcome" where
  "sys_getNumProc s =
     bnd (acquire LkPtable s) (\<lambda>_ s.
     let cnt = int (length (filter (\<lambda>p. state p \<noteq> UNUSED) (procs s)))
     in bnd (release LkPtable s) (\<lambda>_ s. Ret cnt s))"

definition sys_getMaxPid :: "'z kst_scheme \<Rightarrow> (int, 'z kst_scheme) outcome" where
  "sys_getMaxPid s =
     bnd (acquire LkPtable s) (\<lambda>_ s.
     let maxPid = foldl (\<lambda>m p. if pid p > m then pid p else m) 0 (procs s)
     in bnd (release LkPtable s) (\<lambda>_ s. Ret maxPid s))"

definition sys_getprio :: "'z kst_scheme \<Rightarrow> (int, 'z kst_scheme) outcome" where
  "sys_getprio s = Ret (priority (procs s ! myproc s)) s"

subsection \<open>The scheduler\<close>

text \<open>
  \<open>run i\<close> stands for what process \<open>i\<close> does between the two \<^verbatim>\<open>swtch\<close> calls, from the
  scheduler's to its own: arbitrary code, so a parameter.  It comes back with
  \<^verbatim>\<open>ptable.lock\<close> held.  \<open>sched_slot\<close> is the body of the loop over the table,
  \<open>sched_pass\<close> that loop, and \<open>sched_round\<close> the loop over the thresholds; \<open>scheduler\<close>
  repeats rounds for ever, here \<open>n\<close> of them.
\<close>

definition sched_slot ::
  "(nat \<Rightarrow> 'z kst_scheme \<Rightarrow> 'z kst_scheme) \<Rightarrow> int \<Rightarrow> nat \<Rightarrow> 'z kst_scheme \<Rightarrow> (unit, 'z kst_scheme) outcome"
where
  "sched_slot run threshold i s =
     (if state (procs s ! i) \<noteq> RUNNABLE \<or> priority (procs s ! i) < threshold then Ret () s
      else
        bnd (switchuvm i (s\<lparr>cur := Some i\<rparr>)) (\<lambda>_ s.
        let s = upd_proc i (\<lambda>p. p\<lparr>state := RUNNING, contextswitch := contextswitch p + 1\<rparr>) s;
            s = run i s
        in Ret () ((switchkvm s)\<lparr>cur := None\<rparr>)))"

fun sched_pass ::
  "(nat \<Rightarrow> 'z kst_scheme \<Rightarrow> 'z kst_scheme) \<Rightarrow> int \<Rightarrow> nat list \<Rightarrow> 'z kst_scheme \<Rightarrow> (unit, 'z kst_scheme) outcome"
where
  "sched_pass run threshold [] s = Ret () s"
| "sched_pass run threshold (i # is) s =
     bnd (sched_slot run threshold i s) (\<lambda>_ s. sched_pass run threshold is s)"

function sched_round ::
  "(nat \<Rightarrow> 'z kst_scheme \<Rightarrow> 'z kst_scheme) \<Rightarrow> int \<Rightarrow> 'z kst_scheme \<Rightarrow> (unit, 'z kst_scheme) outcome"
where
  "sched_round run threshold s =
     (if threshold < MAX_PRIORITY then
        bnd (acquire LkPtable s) (\<lambda>_ s.
        bnd (sched_pass run threshold [0..<NPROC] s) (\<lambda>_ s.
        bnd (release LkPtable s) (\<lambda>_ s.
        sched_round run (threshold + PRIORITY_GRANULARITY) s)))
      else Ret () s)"
  by pat_completeness auto
termination
  by (relation "measure (\<lambda>(run, threshold, s). nat (MAX_PRIORITY - threshold))")
     (auto simp: PRIORITY_GRANULARITY_def)

declare sched_round.simps [simp del]

fun scheduler ::
  "(nat \<Rightarrow> 'z kst_scheme \<Rightarrow> 'z kst_scheme) \<Rightarrow> nat \<Rightarrow> 'z kst_scheme \<Rightarrow> (unit, 'z kst_scheme) outcome"
where
  "scheduler run 0 s = Ret () s"
| "scheduler run (Suc n) s =
     bnd (sched_round run 0 s) (\<lambda>_ s. scheduler run n s)"

subsection \<open>Sleeping and waking\<close>

lemma upd_proc_simps [simp]:
  "length (procs (upd_proc i f s)) = length (procs s)"
  "held (upd_proc i f s) = held s" "cur (upd_proc i f s) = cur s"
  "nextpid (upd_proc i f s) = nextpid s" "initproc (upd_proc i f s) = initproc s"
  "myproc (upd_proc i f s) = myproc s" "kst.more (upd_proc i f s) = kst.more s"
  "ticks (upd_proc i f s) = ticks s"
  by (simp_all add: upd_proc_def myproc_def)

lemma procs_upd_proc: "procs (upd_proc i f s) = (procs s)[i := f (procs s ! i)]"
  by (simp add: upd_proc_def)

lemma wakeup_run [run_simps]: "LkPtable \<notin> set (held s) \<Longrightarrow> wakeup ch s = Ret () (wakeup1 ch s)"
  by (simp add: wakeup_def acquire_free release_head wakeup1_def)

lemma wakeup1_simps [simp]:
  "held (wakeup1 ch s) = held s" "cur (wakeup1 ch s) = cur s"
  "length (procs (wakeup1 ch s)) = length (procs s)" "myproc (wakeup1 ch s) = myproc s"
  "nextpid (wakeup1 ch s) = nextpid s" "initproc (wakeup1 ch s) = initproc s"
  "kst.more (wakeup1 ch s) = kst.more s" "ticks (wakeup1 ch s) = ticks s"
  by (simp_all add: wakeup1_def myproc_def)

lemma wake_simps [simp]:
  "pid (wake ch p) = pid p" "parent (wake ch p) = parent p" "killed (wake ch p) = killed p"
  "state (wake ch p) = UNUSED \<longleftrightarrow> state p = UNUSED" "state (wake ch p) = ZOMBIE \<longleftrightarrow> state p = ZOMBIE"
  "name (wake ch p) = name p" "sz (wake ch p) = sz p" "ofile (wake ch p) = ofile p"
  "pgdir (wake ch p) = pgdir p" "kstack (wake ch p) = kstack p" "cwd (wake ch p) = cwd p"
  "chan (wake ch p) = chan p"
  by (simp_all add: wake_def)

text \<open>\<open>sleep\<close> under a lock \<open>l\<close>: when the CPU is given up, \<open>l\<close> is free, the process is
  SLEEPING on the channel, and only \<^verbatim>\<open>ptable.lock\<close> is held.\<close>

lemma sleep_run:
  assumes "cur s = Some p" and "p < length (procs s)" and "held s = [l]"
  shows "sleep ch (Some l) s = Sleep
    (upd_proc p (\<lambda>q. q\<lparr>chan := Some ch, state := SLEEPING\<rparr>) (s\<lparr>held := [LkPtable]\<rparr>))"
  using assms by (simp add: sleep_def sched_def acquire_def release_def upd_proc_def myproc_def)

lemma sleep_return_run:
  assumes "cur s = Some p" and "p < length (procs s)" and "held s = [LkPtable]"
  shows "sleep_return l s = Ret () (upd_proc p (\<lambda>q. q\<lparr>chan := None\<rparr>) (s\<lparr>held := [l]\<rparr>))"
  using assms by (simp add: sleep_return_def acquire_def release_def upd_proc_def myproc_def Let_def)

subsection \<open>One round of the scheduler\<close>

text \<open>What a pass does to a process that gives the CPU back RUNNABLE each time.\<close>

definition bump :: "int \<Rightarrow> proc \<Rightarrow> proc" where
  "bump threshold p =
     (if state p = RUNNABLE \<and> threshold \<le> priority p
      then p\<lparr>contextswitch := contextswitch p + 1\<rparr> else p)"

definition gives_back :: "(nat \<Rightarrow> 'z kst_scheme \<Rightarrow> 'z kst_scheme) \<Rightarrow> bool" where
  "gives_back run = (\<forall>i s. held (run i s) = held s \<and>
     procs (run i s) = (procs s)[i := (procs s ! i)\<lparr>state := RUNNABLE\<rparr>])"

definition mapped :: "'z kst_scheme \<Rightarrow> bool" where
  "mapped s = (\<forall>p \<in> set (procs s). state p = RUNNABLE \<longrightarrow> kstack p \<noteq> 0 \<and> pgdir p \<noteq> 0)"

lemma bump_simps [simp]:
  "state (bump th p) = state p" "priority (bump th p) = priority p"
  "kstack (bump th p) = kstack p" "pgdir (bump th p) = pgdir p"
  by (simp_all add: bump_def)

lemma state_self: "state p = st \<Longrightarrow> p\<lparr>contextswitch := c, state := st\<rparr> = p\<lparr>contextswitch := c\<rparr>"
  by (cases p) simp

lemma sched_slot_run:
  assumes "gives_back run" and "mapped s" and "i < length (procs s)"
  shows "\<exists>t. sched_slot run th i s = Ret () t \<and> held t = held s \<and>
           procs t = (procs s)[i := bump th (procs s ! i)]"
proof (cases "state (procs s ! i) \<noteq> RUNNABLE \<or> priority (procs s ! i) < th")
  case True
  then have "bump th (procs s ! i) = procs s ! i" by (auto simp: bump_def)
  with True show ?thesis by (auto simp: sched_slot_def)
next
  case False
  then have "kstack (procs s ! i) \<noteq> 0 \<and> pgdir (procs s ! i) \<noteq> 0"
    using assms(2,3) by (auto simp: mapped_def)
  with False show ?thesis
    using assms(1,3)
    by (auto simp: sched_slot_def switchuvm_def upd_proc_def gives_back_def switchkvm_def bump_def Let_def
          state_self)
qed

lemma sched_pass_run:
  assumes "gives_back run" and "mapped s" and "distinct is" and "set is \<subseteq> {..<length (procs s)}"
  shows "\<exists>t. sched_pass run th is s = Ret () t \<and> held t = held s \<and> length (procs t) = length (procs s) \<and>
     (\<forall>j < length (procs s). procs t ! j = (if j \<in> set is then bump th (procs s ! j) else procs s ! j))"
  using assms(2-)
proof (induction "is" arbitrary: s)
  case Nil
  then show ?case by simp
next
  case (Cons i "is")
  obtain s1 where s1: "sched_slot run th i s = Ret () s1" "held s1 = held s"
      "procs s1 = (procs s)[i := bump th (procs s ! i)]"
    using sched_slot_run[OF assms(1) Cons.prems(1), of i th] Cons.prems(3) by auto
  have "mapped s1"
    using Cons.prems(1,3) unfolding mapped_def s1(3)
    by (auto dest!: in_set_conv_nth[THEN iffD1]) (auto simp: nth_list_update split: if_splits)
  then obtain t where t: "sched_pass run th is s1 = Ret () t" "held t = held s1"
      "length (procs t) = length (procs s1)"
      "\<forall>j < length (procs s1). procs t ! j = (if j \<in> set is then bump th (procs s1 ! j) else procs s1 ! j)"
    using Cons.IH[of s1] Cons.prems s1(3) by auto
  have "procs t ! j = (if j \<in> set (i # is) then bump th (procs s ! j) else procs s ! j)"
    if "j < length (procs s)" for j
    using t(4) that s1(3) Cons.prems(2) by (cases "j = i") auto
  then show ?case using s1 t by (auto simp del: list.set)
qed

text \<open>How many of the thresholds from \<open>th\<close> on a priority reaches.\<close>

function slots :: "int \<Rightarrow> int \<Rightarrow> int" where
  "slots th pr =
     (if th < MAX_PRIORITY then (if th \<le> pr then 1 else 0) + slots (th + PRIORITY_GRANULARITY) pr else 0)"
  by pat_completeness auto
termination
  by (relation "measure (\<lambda>(th, pr). nat (MAX_PRIORITY - th))") (auto simp: PRIORITY_GRANULARITY_def)

declare slots.simps [simp del]

lemma slots_closed:
  "k \<le> 100 \<Longrightarrow> slots (10 * int k) pr = max 0 (min 100 (pr div 10 + 1) - int k)"
proof (induction "100 - k" arbitrary: k)
  case 0
  then show ?case by (simp add: slots.simps MAX_PRIORITY_def)
next
  case (Suc m)
  have IH: "slots (10 * int (Suc k)) pr = max 0 (min 100 (pr div 10 + 1) - int (Suc k))"
    using Suc.hyps(2) by (intro Suc.hyps(1)) auto
  have "slots (10 * int k) pr = (if 10 * int k \<le> pr then 1 else 0) + slots (10 * int (Suc k)) pr"
  proof -
    have "k < 100" using Suc.hyps(2) by simp
    then show ?thesis
    by (subst slots.simps) (simp add: MAX_PRIORITY_def PRIORITY_GRANULARITY_def algebra_simps)
  qed
  then show ?case using IH Suc.hyps(2) by (auto simp: max_def min_def)
qed

lemma slots_0: "slots 0 pr = (if pr < 0 then 0 else min 100 (pr div 10 + 1))"
  using slots_closed[of 0 pr] by (auto simp: max_def min_def)

lemma mapped_bump:
  assumes "length ps = length qs" and "\<forall>j < length qs. ps ! j = bump th (qs ! j)"
    and "mapped s" and "procs s = qs" and "procs t = ps"
  shows "mapped t"
  unfolding mapped_def
proof
  fix p assume "p \<in> set (procs t)"
  then obtain j where "j < length qs" "p = bump th (qs ! j)"
    using assms by (auto simp: in_set_conv_nth)
  then show "state p = RUNNABLE \<longrightarrow> kstack p \<noteq> 0 \<and> pgdir p \<noteq> 0"
    using assms(3,4) by (simp add: mapped_def)
qed

lemma sched_round_run:
  assumes "gives_back run" and "mapped s" and "length (procs s) = NPROC" and "held s = []"
  shows "\<exists>t. sched_round run th s = Ret () t \<and> held t = [] \<and> mapped t \<and> length (procs t) = NPROC \<and>
     (\<forall>j < NPROC. state (procs t ! j) = state (procs s ! j) \<and> priority (procs t ! j) = priority (procs s ! j) \<and>
        contextswitch (procs t ! j) = contextswitch (procs s ! j) +
          (if state (procs s ! j) = RUNNABLE then slots th (priority (procs s ! j)) else 0))"
  using assms
proof (induction run th s rule: sched_round.induct)
  case (1 run th s)
  show ?case
  proof (cases "th < MAX_PRIORITY")
    case False
    then show ?thesis using 1 by (simp add: sched_round.simps[of run th s] slots.simps[of th])
  next
    case True
    let ?s = "s\<lparr>held := [LkPtable]\<rparr>"
    obtain t where t: "sched_pass run th [0..<NPROC] ?s = Ret () t" "held t = [LkPtable]"
        "length (procs t) = NPROC" "\<forall>j < NPROC. procs t ! j = bump th (procs s ! j)"
      using sched_pass_run[of run ?s "[0..<NPROC]" th] 1(2-) by (auto simp: mapped_def atLeast0LessThan)
    let ?t = "t\<lparr>held := []\<rparr>"
    have "mapped ?t"
      by (rule mapped_bump[where ps = "procs t" and qs = "procs s"]) (use t 1 in auto)
    then obtain u where u: "sched_round run (th + PRIORITY_GRANULARITY) ?t = Ret () u" "held u = []"
        "mapped u" "length (procs u) = NPROC"
        "\<forall>j < NPROC. state (procs u ! j) = state (procs t ! j) \<and> priority (procs u ! j) = priority (procs t ! j) \<and>
           contextswitch (procs u ! j) = contextswitch (procs t ! j) +
             (if state (procs t ! j) = RUNNABLE then slots (th + PRIORITY_GRANULARITY) (priority (procs t ! j)) else 0)"
      using "1.IH"[OF True, of ?t] \<open>mapped ?t\<close> 1(2) t(1-3) by auto
    have "sched_round run th s = Ret () u"
      using True 1(2-) t(1,2) u(1) by (simp add: sched_round.simps[of run th s] acquire_def release_def)
    moreover have "contextswitch (procs u ! j) = contextswitch (procs s ! j) +
          (if state (procs s ! j) = RUNNABLE then slots th (priority (procs s ! j)) else 0)" if "j < NPROC" for j
      using u(5) t(4) that True by (auto simp: bump_def slots.simps[of th])
    ultimately show ?thesis using u t(4) by auto
  qed
qed

subsection \<open>Properties\<close>

lemma scheduler_run:
  assumes "gives_back run" and "mapped s" and "length (procs s) = NPROC" and "held s = []"
  shows "\<exists>t. scheduler run n s = Ret () t \<and> held t = [] \<and> mapped t \<and> length (procs t) = NPROC \<and>
     (\<forall>j < NPROC. state (procs t ! j) = state (procs s ! j) \<and> priority (procs t ! j) = priority (procs s ! j) \<and>
        contextswitch (procs t ! j) = contextswitch (procs s ! j) +
          int n * (if state (procs s ! j) = RUNNABLE then slots 0 (priority (procs s ! j)) else 0))"
  using assms
proof (induction n arbitrary: s)
  case 0
  then show ?case by simp
next
  case (Suc n)
  obtain t where t: "sched_round run 0 s = Ret () t" "held t = []" "mapped t" "length (procs t) = NPROC"
     "\<forall>j < NPROC. state (procs t ! j) = state (procs s ! j) \<and> priority (procs t ! j) = priority (procs s ! j) \<and>
        contextswitch (procs t ! j) = contextswitch (procs s ! j) +
          (if state (procs s ! j) = RUNNABLE then slots 0 (priority (procs s ! j)) else 0)"
    using sched_round_run[OF Suc.prems, of 0] by blast
  obtain u where u: "scheduler run n t = Ret () u" "held u = []" "mapped u" "length (procs u) = NPROC"
     "\<forall>j < NPROC. state (procs u ! j) = state (procs t ! j) \<and> priority (procs u ! j) = priority (procs t ! j) \<and>
        contextswitch (procs u ! j) = contextswitch (procs t ! j) +
          int n * (if state (procs t ! j) = RUNNABLE then slots 0 (priority (procs t ! j)) else 0)"
    using Suc.IH[OF Suc.prems(1) t(3,4,2)] by blast
  show ?case
    using u t(1,5) by (auto simp: algebra_simps)
qed

text \<open>A table entry for examples.\<close>

definition demo_tf :: trapframe where
  "demo_tf = \<lparr>tf_edi = 0, tf_esi = 0, tf_ebp = 0, tf_oesp = 0, tf_ebx = 0, tf_edx = 0, tf_ecx = 0, tf_eax = 0, tf_gs = 0,
     tf_fs = 0, tf_es = 0, tf_ds = 0, tf_trapno = 0, tf_err = 0, tf_eip = 0, tf_cs = 0, tf_eflags = 0, tf_esp = 0, tf_ss = 0\<rparr>"

definition demo_proc :: "procstate \<Rightarrow> int \<Rightarrow> int \<Rightarrow> proc" where
  "demo_proc st p prio = \<lparr>sz = 0x1000, pgdir = 0x80400000, kstack = 0x80401000, state = st, pid = p,
     parent = None, tf = demo_tf, ctx = 0, chan = None, killed = False, ofile = replicate NOFILE None, cwd = None,
     name = [], contextswitch = 0, priority = prio, executionAddress = 0\<rparr>"

definition demo_kst :: "proc list \<Rightarrow> nat option \<Rightarrow> kst" where
  "demo_kst ps c = \<lparr>held = [], procs = ps, nextpid = 1, cur = c, initproc = None, ticks = 0,
     kpgdir = 0x80402000, cr3 = 0, esp0 = 0\<rparr>"

lemmas demo_simps = demo_tf_def demo_proc_def demo_kst_def


definition demo_run :: "nat \<Rightarrow> kst \<Rightarrow> kst" where
  "demo_run i s = upd_proc i (\<lambda>p. p\<lparr>state := RUNNABLE\<rparr>) s"




text \<open>\<open>kill\<close> marks the first table entry with the pid and makes it RUNNABLE when it sleeps,
  changes no other entry, and reports -1 without a change when no entry has the pid.\<close>

lemma kill_effect:
  assumes "LkPtable \<notin> set (held s)"
  shows "returns (kill k s) (\<lambda>r t. held t = held s \<and>
     (case find_index (\<lambda>q. pid q = k) (procs s) of
        None \<Rightarrow> r = -1 \<and> procs t = procs s
      | Some i \<Rightarrow> r = 0 \<and> killed (procs t ! i) \<and>
          state (procs t ! i) = (if state (procs s ! i) = SLEEPING then RUNNABLE else state (procs s ! i)) \<and>
          pid (procs t ! i) = k \<and>
          (\<forall>j. j \<noteq> i \<longrightarrow> procs t ! j = procs s ! j)))"
proof (cases "find_index (\<lambda>q. pid q = k) (procs s)")
  case None
  then show ?thesis using assms by (simp add: kill_def acquire_def release_def)
next
  case (Some i)
  note D = find_index_SomeD[OF Some]
  then show ?thesis using assms Some
    by (simp add: kill_def acquire_def release_def upd_proc_def Let_def)
qed

lemma kill_effect_witness:
  "returns (kill 7 (demo_kst [demo_proc RUNNABLE 3 10, demo_proc SLEEPING 7 10] None))
     (\<lambda>r t. r = 0 \<and> killed (procs t ! 1) \<and> state (procs t ! 1) = RUNNABLE)"
  by (rule returns_mono[OF kill_effect]) (auto simp: demo_simps find_index_def)

end
