(* ===== verification/Sleeplock.thy ===== *)
theory Sleeplock
  imports Sched
begin

text \<open>
  \<^verbatim>\<open>sleeplock.c\<close>: locks that put the waiting process to sleep.  The kernel embeds them in
  buffers and inodes; here they are a table indexed by the object they protect.  Each has
  an inner spinlock \<open>LkSleep i\<close>, and its waiters sleep on the channel \<open>ChSleep i\<close>.

  The locale \<open>lock_contract\<close> is what clients of a lock rely on; it is interpreted for the
  spinlocks and for the sleep-locks.
\<close>

record sleeplock =
  locked :: bool
  lpid :: int

record slst = kst +
  slk :: "slid \<Rightarrow> sleeplock"

definition mypid :: "'z kst_scheme \<Rightarrow> int" where
  "mypid s = pid (procs s ! myproc s)"

definition initsleeplock :: "slid \<Rightarrow> 'z slst_scheme \<Rightarrow> 'z slst_scheme" where
  "initsleeplock i s = s\<lparr>slk := (slk s)(i := \<lparr>locked = False, lpid = 0\<rparr>)\<rparr>"

text \<open>The \<^verbatim>\<open>while\<close> loop of \<open>acquiresleep\<close>, with the inner spinlock held: one test, then
  either the process sleeps, or it takes the lock.  A sleeper that is scheduled again
  comes out of \<open>sleep\<close> and tests again: \<open>acquiresleep_resume\<close>.\<close>

definition acquiresleep_loop :: "slid \<Rightarrow> 'z slst_scheme \<Rightarrow> (unit, 'z slst_scheme) outcome" where
  "acquiresleep_loop i s =
     (if locked (slk s i) then sleep (ChSleep i) (Some (LkSleep i)) s
      else release (LkSleep i) (s\<lparr>slk := (slk s)(i := \<lparr>locked = True, lpid = mypid s\<rparr>)\<rparr>))"

definition acquiresleep :: "slid \<Rightarrow> 'z slst_scheme \<Rightarrow> (unit, 'z slst_scheme) outcome" where
  "acquiresleep i s = bnd (acquire (LkSleep i) s) (\<lambda>_ s. acquiresleep_loop i s)"

definition acquiresleep_resume :: "slid \<Rightarrow> 'z slst_scheme \<Rightarrow> (unit, 'z slst_scheme) outcome" where
  "acquiresleep_resume i s = bnd (sleep_return (LkSleep i) s) (\<lambda>_ s. acquiresleep_loop i s)"

definition releasesleep :: "slid \<Rightarrow> 'z slst_scheme \<Rightarrow> (unit, 'z slst_scheme) outcome" where
  "releasesleep i s =
     bnd (acquire (LkSleep i) s) (\<lambda>_ s.
     bnd (wakeup (ChSleep i) (s\<lparr>slk := (slk s)(i := \<lparr>locked = False, lpid = 0\<rparr>)\<rparr>)) (\<lambda>_ s.
     release (LkSleep i) s))"

definition holdingsleep :: "slid \<Rightarrow> 'z slst_scheme \<Rightarrow> (bool, 'z slst_scheme) outcome" where
  "holdingsleep i s =
     bnd (acquire (LkSleep i) s) (\<lambda>_ s.
     let r = locked (slk s i) \<and> lpid (slk s i) = mypid s
     in bnd (release (LkSleep i) s) (\<lambda>_ s. Ret r s))"

subsection \<open>What each operation does\<close>

lemma slk_keep [simp]: "slk (wakeup1 ch s) = slk s" "slk (upd_proc j f s) = slk s"
  by (simp_all add: wakeup1_def upd_proc_def)

definition mine :: "slid \<Rightarrow> 'z slst_scheme \<Rightarrow> bool" where
  "mine i s = (locked (slk s i) \<and> lpid (slk s i) = mypid s)"

lemma acquiresleep_free [run_simps]:
  assumes "\<not> locked (slk s i)" and "LkSleep i \<notin> set (held s)"
  shows "acquiresleep i s = Ret () (s\<lparr>slk := (slk s)(i := \<lparr>locked = True, lpid = mypid s\<rparr>)\<rparr>)"
  using assms by (simp add: acquiresleep_def acquiresleep_loop_def acquire_def release_def mypid_def myproc_def)

lemma acquiresleep_busy:
  assumes "locked (slk s i)" and "cur s = Some p" and "p < length (procs s)" and "held s = []"
  shows "acquiresleep i s = Sleep
    (upd_proc p (\<lambda>q. q\<lparr>chan := Some (ChSleep i), state := SLEEPING\<rparr>) (s\<lparr>held := [LkPtable]\<rparr>))"
  using assms by (simp add: acquiresleep_def acquiresleep_loop_def acquire_def sleep_run upd_proc_def)

lemma releasesleep_run [run_simps]:
  assumes "LkSleep i \<notin> set (held s)" and "LkPtable \<notin> set (held s)"
  shows "releasesleep i s =
    Ret () (wakeup1 (ChSleep i) (s\<lparr>slk := (slk s)(i := \<lparr>locked = False, lpid = 0\<rparr>)\<rparr>))"
  using assms
  by (simp add: releasesleep_def acquire_def release_def wakeup_def wakeup1_def)

lemma holdingsleep_run [run_simps]:
  assumes "LkSleep i \<notin> set (held s)"
  shows "holdingsleep i s = Ret (mine i s) s"
  using assms by (simp add: holdingsleep_def acquire_def release_def mine_def mypid_def myproc_def Let_def)

lemma mypid_simps [simp]:
  "mypid (s\<lparr>slk := f\<rparr>) = mypid (s :: 'z slst_scheme)"
  "mypid (s\<lparr>held := h\<rparr>) = mypid s"
  by (simp_all add: mypid_def myproc_def)

lemma mypid_wakeup1 [simp]: "myproc s < length (procs s) \<Longrightarrow> mypid (wakeup1 ch s) = mypid s"
  by (simp add: mypid_def wakeup1_def myproc_def)

subsection \<open>The contract of a lock\<close>

locale lock_contract =
  fixes take drop :: "'s \<Rightarrow> (unit, 's) outcome"
    and free owned ready :: "'s \<Rightarrow> bool"
  assumes take_free: "ready s \<Longrightarrow> free s \<Longrightarrow> returns (take s) (\<lambda>_ t. owned t \<and> ready t)"
    and take_busy: "ready s \<Longrightarrow> \<not> free s \<Longrightarrow> ensures (take s) (\<lambda>_ _. False)"
    and drop_owned: "ready s \<Longrightarrow> owned s \<Longrightarrow> returns (drop s) (\<lambda>_ t. free t \<and> ready t)"
    and owned_not_free: "owned s \<Longrightarrow> \<not> free s"
begin

lemma take_only_free: "ready s \<Longrightarrow> take s = Ret x t \<Longrightarrow> free s"
  using take_busy by fastforce

lemma section_ends_free:
  assumes "ready s" and "free s"
    and body: "\<And>t. owned t \<Longrightarrow> ready t \<Longrightarrow> returns (body t) (\<lambda>_ u. owned u \<and> ready u)"
  shows "returns (bnd (take s) (\<lambda>_ t. bnd (body t) (\<lambda>_ u. drop u))) (\<lambda>_ t. free t \<and> ready t)"
  by (rule returns_bnd[OF take_free[OF assms(1,2)]], rule returns_bnd[OF body])
     (auto intro: drop_owned)

lemma no_second_take:
  assumes "ready s" and "free s"
  shows "ensures (bnd (take s) (\<lambda>_ t. take t)) (\<lambda>_ _. False)"
  by (rule ensures_bnd[OF returns_ensures[OF take_free[OF assms]]])
     (auto intro: take_busy simp: owned_not_free)

end

interpretation spin: lock_contract
  "acquire l" "release l" "\<lambda>s. l \<notin> set (held s)" "\<lambda>s. l \<in> set (held s)" "\<lambda>s. distinct (held s)"
  by unfold_locales (auto simp: acquire_def release_def)

interpretation sleepl: lock_contract
  "acquiresleep i" "releasesleep i" "\<lambda>s. \<not> locked (slk s i)" "mine i"
  "\<lambda>s. LkSleep i \<notin> set (held s) \<and> LkPtable \<notin> set (held s) \<and>
        (\<exists>p. cur s = Some p \<and> p < length (procs s))"
proof (unfold_locales, goal_cases)
  case (1 s)
  then show ?case by (auto simp: acquiresleep_free mine_def)
next
  case (2 s)
  then show ?case
    by (auto simp: acquiresleep_def acquiresleep_loop_def acquire_def sleep_def sched_def release_def)
next
  case (3 s)
  then show ?case by (auto simp: releasesleep_run)
next
  case (4 s)
  then show ?case by (simp add: mine_def)
qed

lemma sleeplock_section:
  assumes "LkSleep i \<notin> set (held s)" and "LkPtable \<notin> set (held s)"
    and "cur s = Some p" and "p < length (procs s)" and "\<not> locked (slk s i)"
    and "\<And>t. mine i t \<Longrightarrow> LkSleep i \<notin> set (held t) \<Longrightarrow> LkPtable \<notin> set (held t) \<Longrightarrow>
      \<exists>p. cur t = Some p \<and> p < length (procs t) \<Longrightarrow>
      returns (body t) (\<lambda>_ u. mine i u \<and> LkSleep i \<notin> set (held u) \<and> LkPtable \<notin> set (held u) \<and>
        (\<exists>p. cur u = Some p \<and> p < length (procs u)))"
  shows "returns (bnd (acquiresleep i s) (\<lambda>_ t. bnd (body t) (\<lambda>_ u. releasesleep i u)))
           (\<lambda>_ t. \<not> locked (slk t i))"
  by (rule returns_mono[OF sleepl.section_ends_free[where body = body]]) (use assms in auto)

text \<open>A waiter: releasing the lock makes every process that sleeps on it RUNNABLE, and a
  process that resumes while the lock is free gets it.\<close>

lemma releasesleep_wakes:
  assumes "LkSleep i \<notin> set (held s)" and "LkPtable \<notin> set (held s)" and "q < length (procs s)"
    and "state (procs s ! q) = SLEEPING" and "chan (procs s ! q) = Some (ChSleep i)"
  shows "returns (releasesleep i s) (\<lambda>_ t. state (procs t ! q) = RUNNABLE \<and> \<not> locked (slk t i))"
  using assms by (simp add: releasesleep_run wakeup1_def wake_def)

lemma releasesleep_length:
  assumes "LkSleep i \<notin> set (held s)" and "LkPtable \<notin> set (held s)"
  shows "returns (releasesleep i s) (\<lambda>_ t. length (procs t) = length (procs s))"
  using assms by (simp add: releasesleep_run)

lemma acquiresleep_resume_free:
  assumes "cur s = Some p" and "p < length (procs s)" and "held s = [LkPtable]" and "\<not> locked (slk s i)"
  shows "returns (acquiresleep_resume i s) (\<lambda>_ t. mine i t \<and> held t = [] \<and> chan (procs t ! p) = None)"
  using assms
  by (simp add: acquiresleep_resume_def sleep_return_run acquiresleep_loop_def release_def mine_def
      mypid_def myproc_def upd_proc_def)

subsection \<open>Properties\<close>

text \<open>A critical section under a sleep-lock that is free runs to its end, and the lock is free
  after it, whatever the body does to the rest of the state as long as it keeps the lock; and a
  second \<open>acquiresleep\<close> inside it would not return.\<close>

lemma sleeplock_critical_section:
  assumes "LkSleep i \<notin> set (held s)" and "LkPtable \<notin> set (held s)"
    and "cur s = Some p" and "p < length (procs s)" and "\<not> locked (slk s i)"
    and "\<And>t. mine i t \<Longrightarrow> LkSleep i \<notin> set (held t) \<Longrightarrow> LkPtable \<notin> set (held t) \<Longrightarrow>
      \<exists>p. cur t = Some p \<and> p < length (procs t) \<Longrightarrow>
      returns (body t) (\<lambda>_ u. mine i u \<and> LkSleep i \<notin> set (held u) \<and> LkPtable \<notin> set (held u) \<and>
        (\<exists>p. cur u = Some p \<and> p < length (procs u)))"
  shows "returns (bnd (acquiresleep i s) (\<lambda>_ t. bnd (body t) (\<lambda>_ u. releasesleep i u))) (\<lambda>_ t. \<not> locked (slk t i)) \<and>
    ensures (bnd (acquiresleep i s) (\<lambda>_ t. acquiresleep i t)) (\<lambda>_ _. False)"
  using sleeplock_section[OF assms] sleepl.no_second_take[of i s] assms(1-5) by auto

definition demo_slst :: slst where
  "demo_slst = kst.extend (demo_kst [demo_proc RUNNING 1 10] (Some 0)) \<lparr>slk = \<lambda>_. \<lparr>locked = False, lpid = 0\<rparr>\<rparr>"

lemma sleeplock_critical_section_witness:
  "returns (bnd (acquiresleep (SlBuf 3) demo_slst) (\<lambda>_ t. bnd (Ret () t) (\<lambda>_ u. releasesleep (SlBuf 3) u)))
     (\<lambda>_ t. \<not> locked (slk t (SlBuf 3)))"
  using sleeplock_critical_section[of "SlBuf 3" demo_slst 0 "\<lambda>t. Ret () t"]
  by (simp add: demo_slst_def demo_simps kst.defs slst.defs)

text \<open>Releasing a sleep-lock makes every process that sleeps on it RUNNABLE, and such a
  process, once scheduled while the lock is free, owns the lock and sleeps no more.\<close>

lemma sleeplock_handover:
  assumes "LkSleep i \<notin> set (held s)" and "LkPtable \<notin> set (held s)" and "q < length (procs s)"
    and "state (procs s ! q) = SLEEPING" and "chan (procs s ! q) = Some (ChSleep i)"
  shows "returns (releasesleep i s) (\<lambda>_ t. state (procs t ! q) = RUNNABLE \<and>
    returns (acquiresleep_resume i (t\<lparr>cur := Some q, held := [LkPtable]\<rparr>))
      (\<lambda>_ u. mine i u \<and> held u = [] \<and> chan (procs u ! q) = None))"
proof (rule returns_mono, rule returns_conj[OF releasesleep_wakes[OF assms] releasesleep_length[OF assms(1,2)]])
  fix x :: unit and t :: "'a slst_scheme"
  assume t: "(state (procs t ! q) = RUNNABLE \<and> \<not> locked (slk t i)) \<and> length (procs t) = length (procs s)"
  then show "state (procs t ! q) = RUNNABLE \<and> returns (acquiresleep_resume i (t\<lparr>cur := Some q, held := [LkPtable]\<rparr>))
      (\<lambda>_ u. mine i u \<and> held u = [] \<and> chan (procs u ! q) = None)"
    using assms(3) by (auto intro: acquiresleep_resume_free)
qed

lemma sleeplock_handover_witness:
  "returns (releasesleep (SlBuf 3) (demo_slst\<lparr>procs := [demo_proc RUNNING 1 10,
     (demo_proc SLEEPING 2 10)\<lparr>chan := Some (ChSleep (SlBuf 3))\<rparr>]\<rparr>))
     (\<lambda>_ t. state (procs t ! 1) = RUNNABLE)"
  by (rule returns_mono[OF sleeplock_handover[where q = 1]])
    (simp_all add: demo_slst_def demo_simps kst.defs slst.defs)

end
