(* ===== verification/Kalloc.thy ===== *)
theory Kalloc
  imports Sleeplock
begin

text \<open>
  \<^verbatim>\<open>kalloc.c\<close>: the allocator of 4096-byte physical pages.  Free pages form a linked list
  threaded through their own first words, so the model keeps the memory itself and the
  head of the list.  \<open>kend\<close> and \<open>kdata\<close> are the link-time addresses of \<^verbatim>\<open>end[]\<close> and
  \<^verbatim>\<open>data[]\<close>.

  The invariant \<open>kmem_inv s ps\<close> says that the list in memory is \<open>ps\<close>; the pool of free
  pages is the set of its elements.  The locale \<open>page_allocator\<close> is the contract the
  virtual memory code, the pipes and the process code rely on.
\<close>

record mst = slst +
  mem :: memory
  freelist :: u32
  use_lock :: bool
  kend :: u32
  kdata :: u32

lemma bnd_cong [fundef_cong]:
  "m = m' \<Longrightarrow> (\<And>x s. m' = Ret x s \<Longrightarrow> k x s = k' x s) \<Longrightarrow> bnd m k = bnd m' k'"
  by (cases m') auto

definition lock_if :: "bool \<Rightarrow> lock \<Rightarrow> 'z kst_scheme \<Rightarrow> (unit, 'z kst_scheme) outcome" where
  "lock_if b l s = (if b then acquire l s else Ret () s)"

definition unlock_if :: "bool \<Rightarrow> lock \<Rightarrow> 'z kst_scheme \<Rightarrow> (unit, 'z kst_scheme) outcome" where
  "unlock_if b l s = (if b then release l s else Ret () s)"

definition kfree :: "u32 \<Rightarrow> 'z mst_scheme \<Rightarrow> (unit, 'z mst_scheme) outcome" where
  "kfree v s =
     (if v mod PGSIZE \<noteq> 0 \<or> v < kend s \<or> V2P v \<ge> PHYSTOP then Panic ''kfree''
      else
        let s = s\<lparr>mem := memset (mem s) v 1 PGSIZE\<rparr> in
        bnd (lock_if (use_lock s) LkKmem s) (\<lambda>_ s.
        let s = s\<lparr>mem := store32 (mem s) v (freelist s), freelist := v\<rparr> in
        unlock_if (use_lock s) LkKmem s))"

definition kalloc :: "'z mst_scheme \<Rightarrow> (u32, 'z mst_scheme) outcome" where
  "kalloc s =
     bnd (lock_if (use_lock s) LkKmem s) (\<lambda>_ s.
     let r = freelist s;
         s = (if r \<noteq> 0 then s\<lparr>freelist := load32 (mem s) r\<rparr> else s)
     in bnd (unlock_if (use_lock s) LkKmem s) (\<lambda>_ s. Ret r s))"

lemma kfree_range: "kfree v s = Ret x t \<Longrightarrow> unat v < 0x8E000000"
proof -
  assume "kfree v s = Ret x t"
  then have "V2P v < PHYSTOP" by (auto simp: kfree_def split: if_splits)
  then have "unat (v - 0x80000000) < 0xE000000"
    by (simp add: V2P_def KERNBASE_def PHYSTOP_def word_less_nat_alt)
  then show ?thesis by (simp add: unat_sub_if' split: if_splits)
qed

function freerange_loop :: "u32 \<Rightarrow> u32 \<Rightarrow> 'z mst_scheme \<Rightarrow> (unit, 'z mst_scheme) outcome" where
  "freerange_loop p vend s =
     (if p + PGSIZE \<le> vend then bnd (kfree p s) (\<lambda>_ s. freerange_loop (p + PGSIZE) vend s)
      else Ret () s)"
  by pat_completeness auto
termination
proof (relation "measure (\<lambda>(p, vend, s). 2 ^ 32 - unat p)", goal_cases)
  case (2 p vend s x t)
  then have "unat p < 0x8E000000" using kfree_range by blast
  then show ?case by (simp add: PGSIZE_def unat_word_ariths)
qed simp

declare freerange_loop.simps [simp del]

definition freerange :: "u32 \<Rightarrow> u32 \<Rightarrow> 'z mst_scheme \<Rightarrow> (unit, 'z mst_scheme) outcome" where
  "freerange vstart vend s = freerange_loop (PGROUNDUP vstart) vend s"

definition kinit1 :: "u32 \<Rightarrow> u32 \<Rightarrow> 'z mst_scheme \<Rightarrow> (unit, 'z mst_scheme) outcome" where
  "kinit1 vstart vend s = freerange vstart vend (s\<lparr>use_lock := False\<rparr>)"

definition kinit2 :: "u32 \<Rightarrow> u32 \<Rightarrow> 'z mst_scheme \<Rightarrow> (unit, 'z mst_scheme) outcome" where
  "kinit2 vstart vend s =
     bnd (freerange vstart vend s) (\<lambda>_ s. Ret () (s\<lparr>use_lock := True\<rparr>))"

subsection \<open>Pages\<close>

definition aligned :: "u32 \<Rightarrow> bool" where
  "aligned a = (a mod PGSIZE = 0)"

definition page :: "u32 \<Rightarrow> u32 set" where
  "page v = {x. x - v < PGSIZE}"

lemma aligned_unat: "aligned a \<longleftrightarrow> unat a mod 4096 = 0"
  by (simp add: aligned_def PGSIZE_def word_unat_eq_iff unat_mod)

lemma aligned_and: "aligned a \<longleftrightarrow> a AND 0xFFF = 0"
  by (simp add: aligned_unat aligned_iff)

lemma page_mem:
  assumes "aligned v"
  shows "x \<in> page v \<longleftrightarrow> unat v \<le> unat x \<and> unat x < unat v + 4096"
proof -
  have v: "unat v mod 4096 = 0" "unat v < 2 ^ 32" using assms unsigned_less[of v, where ?'a = nat] by (simp_all add: aligned_unat)
  have "unat v + 4096 \<le> 2 ^ 32"
  proof -
    have "4096 dvd unat v" using v(1) by (simp add: dvd_eq_mod_eq_0)
    then show ?thesis using v(2) by (auto elim!: dvdE)
  qed
  then show ?thesis
    by (auto simp: page_def PGSIZE_def word_less_nat_alt unat_sub_if' split: if_splits)
qed

lemma page_iff: "aligned v \<Longrightarrow> x \<in> page v \<longleftrightarrow> PGROUNDDOWN x = v"
proof -
  assume v: "aligned v"
  have "PGROUNDDOWN x = v \<longleftrightarrow> 4096 * (unat x div 4096) = unat v"
    by (simp add: word_unat_eq_iff unat_PGROUNDDOWN)
  also have "\<dots> \<longleftrightarrow> unat v \<le> unat x \<and> unat x < unat v + 4096"
  proof -
    obtain k where k: "unat v = 4096 * k"
      using v by (auto simp: aligned_unat mod_eq_0_iff_dvd elim!: dvdE)
    obtain q r where x: "unat x = 4096 * q + r" "r < 4096"
      using that[of "unat x div 4096" "unat x mod 4096"] by simp
    then have "unat x div 4096 = q" by simp
    then show ?thesis unfolding k using x by auto
  qed
  finally show ?thesis using page_mem[OF v] by blast
qed

lemma pages_disjoint: "aligned v \<Longrightarrow> aligned w \<Longrightarrow> v \<noteq> w \<Longrightarrow> page v \<inter> page w = {}"
  by (auto simp: page_iff)

lemma page_self: "v \<in> page v"
  by (simp add: page_def PGSIZE_def)

text \<open>A word at an offset inside a page, four-byte aligned, lies inside the page.\<close>

lemma word_in_page:
  assumes "aligned v" and "i < 1024"
  shows "word_at (v + 4 * of_nat i) \<subseteq> page v"
proof
  fix x assume "x \<in> word_at (v + 4 * of_nat i)"
  then obtain k where k: "k < (4 :: nat)" "x = v + of_nat (4 * i + k)"
    by (auto simp: word_at_def add.assoc intro: that[of 0] that[of 1] that[of 2] that[of 3])
  have "x - v = of_nat (4 * i + k)" using k by simp
  moreover have "unat (of_nat (4 * i + k) :: u32) = 4 * i + k"
    using assms(2) k(1) by (intro unat_of_nat_small) simp
  ultimately show "x \<in> page v"
    using assms(2) k(1) by (simp add: page_def PGSIZE_def word_less_nat_alt)
qed

lemma memset_page: "memset m v c PGSIZE = (\<lambda>a. if a \<in> page v then ucast c else m a)"
  by (simp add: memset_eq page_def)

subsection \<open>The list of free pages\<close>

definition page_ok :: "'z mst_scheme \<Rightarrow> u32 \<Rightarrow> bool" where
  "page_ok s v = (aligned v \<and> kend s \<le> v \<and> V2P v < PHYSTOP)"

fun chain :: "memory \<Rightarrow> u32 \<Rightarrow> u32 list \<Rightarrow> bool" where
  "chain m r [] = (r = 0)"
| "chain m r (p # ps) = (r = p \<and> chain m (load32 m p) ps)"

definition kmem_inv :: "'z mst_scheme \<Rightarrow> u32 list \<Rightarrow> bool" where
  "kmem_inv s ps = (chain (mem s) (freelist s) ps \<and> distinct ps \<and> (\<forall>p \<in> set ps. page_ok s p))"

definition pool :: "'z mst_scheme \<Rightarrow> u32 set \<Rightarrow> bool" where
  "pool s F = ((\<exists>ps. set ps = F \<and> kmem_inv s ps) \<and> LkKmem \<notin> set (held s))"

lemma page_ok_not0: "page_ok s v \<Longrightarrow> v \<noteq> 0"
  by (auto simp: page_ok_def V2P_def KERNBASE_def PHYSTOP_def)

lemma page_ok_aligned: "page_ok s v \<Longrightarrow> aligned v"
  by (simp add: page_ok_def)

lemma chain_cong:
  "(\<And>p x. p \<in> set ps \<Longrightarrow> x \<in> word_at p \<Longrightarrow> m x = m' x) \<Longrightarrow> chain m r ps = chain m' r ps"
proof (induction ps arbitrary: r)
  case (Cons p ps)
  have "load32 m p = load32 m' p" by (rule load32_cong) (rule Cons.prems, simp_all)
  then show ?case using Cons by auto
qed simp

lemma word_at_page: "aligned p \<Longrightarrow> word_at p \<subseteq> page p"
  using word_in_page[of p 0] by simp

lemma kalloc_some:
  assumes "kmem_inv s (p # ps)" and "LkKmem \<notin> set (held s)"
  shows "\<exists>r. kalloc s = Ret p (s\<lparr>freelist := r\<rparr>) \<and> kmem_inv (s\<lparr>freelist := r\<rparr>) ps"
proof -
  have "p \<noteq> 0" using assms(1) page_ok_not0 by (auto simp: kmem_inv_def)
  with assms show ?thesis
    by (auto simp: kalloc_def lock_if_def unlock_if_def acquire_def release_def kmem_inv_def page_ok_def Let_def)
qed

lemma kalloc_none:
  assumes "kmem_inv s []" and "LkKmem \<notin> set (held s)"
  shows "kalloc s = Ret 0 s"
  using assms
  by (simp add: kalloc_def lock_if_def unlock_if_def acquire_def release_def kmem_inv_def Let_def)

definition kfree_mem :: "u32 \<Rightarrow> 'z mst_scheme \<Rightarrow> memory" where
  "kfree_mem v s = store32 (memset (mem s) v 1 PGSIZE) v (freelist s)"

lemma kfree_mem_other: "aligned v \<Longrightarrow> x \<notin> page v \<Longrightarrow> kfree_mem v s x = mem s x"
proof -
  assume "aligned v" "x \<notin> page v"
  then have "x \<notin> word_at v" using word_at_page by blast
  then show ?thesis using \<open>x \<notin> page v\<close> by (simp add: kfree_mem_def memset_page store32_other)
qed

lemma kfree_run:
  assumes "page_ok s v" and "LkKmem \<notin> set (held s)"
  shows "kfree v s = Ret () (s\<lparr>mem := kfree_mem v s, freelist := v\<rparr>)"
  using assms
  by (simp add: kfree_def lock_if_def unlock_if_def acquire_def release_def kfree_mem_def page_ok_def
      aligned_def Let_def not_less not_le)

lemma kfree_inv:
  assumes "kmem_inv s ps" and "page_ok s v" and "v \<notin> set ps"
  shows "kmem_inv (s\<lparr>mem := kfree_mem v s, freelist := v\<rparr>) (v # ps)"
proof -
  have "chain (kfree_mem v s) (freelist s) ps"
  proof -
    have "chain (mem s) (freelist s) ps = chain (kfree_mem v s) (freelist s) ps"
    proof (rule chain_cong)
      fix p x assume p: "p \<in> set ps" "x \<in> word_at p"
      then have "aligned p" using assms(1) by (simp add: kmem_inv_def page_ok_def)
      then have "x \<in> page p" using p word_at_page by blast
      moreover have "page p \<inter> page v = {}"
        using pages_disjoint[of p v] \<open>aligned p\<close> assms(2,3) p(1) by (auto simp: page_ok_def)
      ultimately have "x \<notin> page v" by blast
      then show "mem s x = kfree_mem v s x"
        using kfree_mem_other[OF page_ok_aligned[OF assms(2)]] by metis
    qed
    then show ?thesis using assms(1) by (simp add: kmem_inv_def)
  qed
  then show ?thesis using assms
    by (simp add: kmem_inv_def kfree_mem_def page_ok_def)
qed

text \<open>Memory outside the free pages does not matter to the list.\<close>

lemma kmem_inv_mem:
  assumes "kmem_inv s ps" and "\<And>x p. p \<in> set ps \<Longrightarrow> x \<in> page p \<Longrightarrow> m x = mem s x"
  shows "kmem_inv (s\<lparr>mem := m\<rparr>) ps"
proof -
  have "chain m (freelist s) ps = chain (mem s) (freelist s) ps"
    by (rule chain_cong) (use assms word_at_page in \<open>auto simp: kmem_inv_def page_ok_def\<close>)
  then show ?thesis using assms(1) by (simp add: kmem_inv_def page_ok_def)
qed

subsection \<open>The contract of the allocator\<close>

locale page_allocator =
  fixes alloc :: "'s \<Rightarrow> (u32, 's) outcome"
    and give :: "u32 \<Rightarrow> 's \<Rightarrow> (unit, 's) outcome"
    and free_pages :: "'s \<Rightarrow> u32 set \<Rightarrow> bool"
    and valid :: "'s \<Rightarrow> u32 \<Rightarrow> bool"
  assumes alloc_page: "free_pages s F \<Longrightarrow> F \<noteq> {} \<Longrightarrow>
      returns (alloc s) (\<lambda>p t. p \<in> F \<and> free_pages t (F - {p}) \<and> valid t p)"
    and alloc_empty: "free_pages s {} \<Longrightarrow> returns (alloc s) (\<lambda>p t. p = 0 \<and> free_pages t {})"
    and give_page: "free_pages s F \<Longrightarrow> valid s p \<Longrightarrow> p \<notin> F \<Longrightarrow>
      returns (give p s) (\<lambda>_ t. free_pages t (insert p F))"
    and valid_not0: "valid s p \<Longrightarrow> p \<noteq> 0"
begin

lemma alloc_two_distinct:
  assumes "free_pages s F" and "p \<in> F" and "q \<in> F" and "p \<noteq> q"
  shows "returns (bnd (alloc s) (\<lambda>x t. bnd (alloc t) (\<lambda>y t. Ret (x, y) t)))
    (\<lambda>(x, y) t. x \<noteq> y \<and> x \<in> F \<and> y \<in> F \<and> free_pages t (F - {x, y}))"
proof (rule returns_bnd[OF alloc_page[OF assms(1)]])
  show "F \<noteq> {}" using assms by auto
  fix x t assume x: "x \<in> F \<and> free_pages t (F - {x}) \<and> valid t x"
  have "F - {x} \<noteq> {}" using assms by auto
  then show "returns (bnd (alloc t) (\<lambda>y t. Ret (x, y) t))
      (\<lambda>(x, y) t. x \<noteq> y \<and> x \<in> F \<and> y \<in> F \<and> free_pages t (F - {x, y}))"
    using x by (intro returns_bnd[OF alloc_page[of t "F - {x}"]])
       (auto simp: insert_commute Diff_insert[symmetric] Diff_insert2[symmetric])
qed

lemma alloc_give_back:
  assumes "free_pages s F" and "F \<noteq> {}"
  shows "returns (bnd (alloc s) (\<lambda>p t. give p t)) (\<lambda>_ t. free_pages t F)"
proof (rule returns_bnd[OF alloc_page[OF assms]])
  fix p t assume p: "p \<in> F \<and> free_pages t (F - {p}) \<and> valid t p"
  then show "returns (give p t) (\<lambda>_ t. free_pages t F)"
    using give_page[of t "F - {p}" p] by (simp add: insert_absorb)
qed

lemma alloc_zero_iff_empty:
  assumes "free_pages s F"
  shows "returns (alloc s) (\<lambda>p t. (p = 0) = (F = {}))"
proof (cases "F = {}")
  case True
  then show ?thesis using returns_mono[OF alloc_empty[of s]] assms by auto
next
  case False
  then show ?thesis using alloc_page[OF assms False] False
    by (auto elim!: returnsE dest: valid_not0)
qed

end

interpretation kmem: page_allocator kalloc kfree pool page_ok
proof (unfold_locales, goal_cases)
  case (1 s F)
  then obtain ps where "set ps = F" "kmem_inv s ps" and lk: "LkKmem \<notin> set (held s)"
    by (auto simp: pool_def)
  with 1(2) obtain p qs where ps: "ps = p # qs" by (cases ps) auto
  obtain r where r: "kalloc s = Ret p (s\<lparr>freelist := r\<rparr>)" "kmem_inv (s\<lparr>freelist := r\<rparr>) qs"
    using kalloc_some[OF \<open>kmem_inv s ps\<close>[unfolded ps] lk] by auto
  have "F - {p} = set qs" "p \<in> F" "page_ok s p"
    using \<open>set ps = F\<close> \<open>kmem_inv s ps\<close> ps by (auto simp: kmem_inv_def)
  then show ?case using r lk by (auto simp: pool_def page_ok_def)
next
  case (2 s)
  then show ?case using kalloc_none[of s] by (auto simp: pool_def)
next
  case (3 s F p)
  then obtain ps where "set ps = F" "kmem_inv s ps" and lk: "LkKmem \<notin> set (held s)"
    by (auto simp: pool_def)
  then show ?case
    using kfree_run[OF 3(2) lk] kfree_inv[OF _ 3(2)] 3(3) by (auto simp: pool_def intro!: exI[of _ "p # ps"])
next
  case (4 s p)
  then show ?case by (rule page_ok_not0)
qed

subsection \<open>Filling the pool at boot\<close>

definition range_pages :: "u32 \<Rightarrow> u32 \<Rightarrow> u32 set" where
  "range_pages a e = {q. aligned q \<and> a \<le> q \<and> unat q + 4096 \<le> unat e}"

lemma range_pages_next:
  assumes "aligned p" and "unat p + 4096 \<le> unat e" and "unat e \<le> 0x8E000000"
  shows "range_pages p e = insert p (range_pages (p + PGSIZE) e)" and "p \<notin> range_pages (p + PGSIZE) e"
    and "unat (p + PGSIZE) = unat p + 4096" and "aligned (p + PGSIZE)"
proof -
  show u: "unat (p + PGSIZE) = unat p + 4096" using assms by (simp add: PGSIZE_def unat_word_ariths)
  show "p \<notin> range_pages (p + PGSIZE) e" by (simp add: range_pages_def word_le_nat_alt u)
  show "aligned (p + PGSIZE)" using assms(1) by (simp add: aligned_unat u)
  have step: "unat p \<le> unat q \<longleftrightarrow> q = p \<or> unat p + 4096 \<le> unat q" if alq: "aligned q" for q
  proof -
    obtain j where "unat p = 4096 * j" using assms(1) by (auto simp: aligned_unat mod_eq_0_iff_dvd elim!: dvdE)
    moreover obtain k where "unat q = 4096 * k" using alq by (auto simp: aligned_unat mod_eq_0_iff_dvd elim!: dvdE)
    ultimately show ?thesis by (auto simp: word_unat_eq_iff)
  qed
  then show "range_pages p e = insert p (range_pages (p + PGSIZE) e)"
    using assms by (auto simp: range_pages_def word_le_nat_alt u)
qed

lemma freerange_loop_run:
  assumes "pool s F" and "aligned p" and "kend s \<le> p" and "0x80000000 \<le> unat p" and "unat p \<le> 0x8E000000"
    and "unat e \<le> 0x8E000000" and "F \<inter> range_pages p e = {}"
  shows "returns (freerange_loop p e s) (\<lambda>_ t. pool t (F \<union> range_pages p e) \<and>
    kend t = kend s \<and> use_lock t = use_lock s)"
  using assms
proof (induction p e s arbitrary: F rule: freerange_loop.induct)
  case (1 p e s)
  note P = "1.prems"
  have le: "p + PGSIZE \<le> e \<longleftrightarrow> unat p + 4096 \<le> unat e"
    using P(5) by (simp add: word_le_nat_alt PGSIZE_def unat_word_ariths)
  show ?case
  proof (cases "p + PGSIZE \<le> e")
    case False
    then have "range_pages p e = {}" using le by (auto simp: range_pages_def word_le_nat_alt)
    then show ?thesis using False P(1) by (subst freerange_loop.simps) simp
  next
    case True
    note R = range_pages_next[OF P(2) le[THEN iffD1, OF True] P(6)]
    have lt: "unat p < 0x8E000000" using True le P(6) by simp
    have "unat (V2P p) = unat p - 0x80000000"
      using P(4) by (simp add: V2P_def KERNBASE_def unat_sub word_le_nat_alt)
    then have ok: "page_ok s p"
      using P(2,3) lt by (simp add: page_ok_def PHYSTOP_def word_less_nat_alt)
    have nF: "p \<notin> F" using P(7) R(1) by auto
    have lk: "LkKmem \<notin> set (held s)" using P(1) by (simp add: pool_def)
    let ?t = "s\<lparr>mem := kfree_mem p s, freelist := p\<rparr>"
    have kf: "kfree p s = Ret () ?t" by (rule kfree_run[OF ok lk])
    have "pool ?t (insert p F)" using kmem.give_page[OF P(1) ok nF] by (simp add: kf)
    then have "returns (freerange_loop (p + PGSIZE) e ?t) (\<lambda>_ t. pool t (insert p F \<union> range_pages (p + PGSIZE) e) \<and>
        kend t = kend ?t \<and> use_lock t = use_lock ?t)"
      using R P lt le True by (intro "1.IH"[OF True kf]) (auto simp: word_le_nat_alt)
    then show ?thesis using True R(1) by (subst freerange_loop.simps) (simp add: kf)
  qed
qed

subsection \<open>Properties\<close>

definition demo_mst :: "memory \<Rightarrow> u32 \<Rightarrow> mst" where
  "demo_mst m r = slst.extend demo_slst \<lparr>mem = m, freelist = r, use_lock = True, kend = 0x80115000, kdata = 0x80108000\<rparr>"

lemma demo_mst_simps [simp]:
  "held (demo_mst m r) = []" "mem (demo_mst m r) = m" "freelist (demo_mst m r) = r"
  "kend (demo_mst m r) = 0x80115000" "kdata (demo_mst m r) = 0x80108000" "use_lock (demo_mst m r) = True"
  by (simp_all add: demo_mst_def demo_slst_def demo_simps kst.defs slst.defs)

lemma page_ok_demo: "page_ok (demo_mst m r) v = (aligned v \<and> 0x80115000 \<le> v \<and> V2P v < PHYSTOP)"
  by (simp add: page_ok_def)

lemma pool_demo1: "pool (demo_mst (\<lambda>_. 0) 0x80200000) {0x80200000}"
  unfolding pool_def kmem_inv_def
  by (intro conjI exI[of _ "[0x80200000]"])
    (simp_all add: page_ok_demo load32_def aligned_def PGSIZE_def V2P_def KERNBASE_def PHYSTOP_def)

text \<open>C32: At boot, \<open>kinit1\<close> and \<open>kinit2\<close> with the arguments of \<open>main\<close> put every whole page
  between the end of the kernel and \<^verbatim>\<open>PHYSTOP\<close> into the pool of free pages, each once, and turn
  locking on.\<close>

theorem kinit_fills_pool:
  assumes "freelist s = 0" and "LkKmem \<notin> set (held s)"
    and "0x80000000 \<le> unat (kend s)" and "unat (kend s) \<le> 0x80400000"
  shows "returns (bnd (kinit1 (kend s) (P2V 0x400000) s) (\<lambda>_ s. kinit2 (P2V 0x400000) (P2V PHYSTOP) s))
    (\<lambda>_ t. pool t (range_pages (kend s) (P2V PHYSTOP)) \<and> use_lock t)"
proof -
  let ?a = "PGROUNDUP (kend s)"
  have a: "unat ?a = 4096 * ((unat (kend s) + 4095) div 4096)" using assms(4) by (simp add: unat_PGROUNDUP)
  have al: "aligned ?a" by (simp add: aligned_unat a)
  have ge: "unat (kend s) \<le> unat ?a" and le: "unat ?a \<le> 0x80400000" using assms(4) a by simp_all
  have c: "unat (P2V 0x400000) = 0x80400000" "unat (P2V PHYSTOP) = 0x8E000000"
    "PGROUNDUP (P2V 0x400000) = P2V 0x400000" "aligned (P2V 0x400000)"
    by (simp_all add: P2V_def KERNBASE_def PHYSTOP_def PGROUNDUP_def PGSIZE_def aligned_def)
  let ?s = "s\<lparr>use_lock := False\<rparr>"
  have p0: "pool ?s {}" using assms(1,2) by (auto simp: pool_def kmem_inv_def intro!: exI[of _ "[]"])
  have r1: "returns (freerange_loop ?a (P2V 0x400000) ?s) (\<lambda>_ t. pool t (range_pages ?a (P2V 0x400000)) \<and>
      kend t = kend s \<and> use_lock t = False)"
    using freerange_loop_run[OF p0 al, of "P2V 0x400000"] ge le assms(3) c by (simp add: word_le_nat_alt)
  have split: "range_pages ?a (P2V 0x400000) \<union> range_pages (P2V 0x400000) (P2V PHYSTOP) = range_pages (kend s) (P2V PHYSTOP)"
    and disj: "range_pages ?a (P2V 0x400000) \<inter> range_pages (P2V 0x400000) (P2V PHYSTOP) = {}"
  proof -
    have e: "unat (kend s) \<le> unat q \<longleftrightarrow> unat ?a \<le> unat q" and f: "unat q + 4096 \<le> 0x80400000 \<longleftrightarrow> unat q < 0x80400000"
      if q: "aligned q" for q
    proof -
      obtain k where k: "unat q = 4096 * k" using q by (auto simp: aligned_unat mod_eq_0_iff_dvd elim!: dvdE)
      show "unat (kend s) \<le> unat q \<longleftrightarrow> unat ?a \<le> unat q" unfolding a k by auto
      show "unat q + 4096 \<le> 0x80400000 \<longleftrightarrow> unat q < 0x80400000" unfolding k by auto
    qed
    show "range_pages ?a (P2V 0x400000) \<union> range_pages (P2V 0x400000) (P2V PHYSTOP) = range_pages (kend s) (P2V PHYSTOP)"
      using e f le by (auto simp: range_pages_def word_le_nat_alt c)
    show "range_pages ?a (P2V 0x400000) \<inter> range_pages (P2V 0x400000) (P2V PHYSTOP) = {}"
      by (auto simp: range_pages_def word_le_nat_alt c)
  qed
  show ?thesis
    unfolding kinit1_def kinit2_def freerange_def c
  proof (rule returns_bnd[OF r1])
    fix x t assume t: "pool t (range_pages ?a (P2V 0x400000)) \<and> kend t = kend s \<and> use_lock t = False"
    have "returns (freerange_loop (P2V 0x400000) (P2V PHYSTOP) t) (\<lambda>_ u.
        pool u (range_pages ?a (P2V 0x400000) \<union> range_pages (P2V 0x400000) (P2V PHYSTOP)) \<and> kend u = kend t \<and> use_lock u = use_lock t)"
      using t assms(4) disj by (intro freerange_loop_run) (auto simp: c word_le_nat_alt)
    then show "returns (bnd (freerange_loop (P2V 0x400000) (P2V PHYSTOP) t) (\<lambda>_ s. Ret () (s\<lparr>use_lock := True\<rparr>)))
       (\<lambda>_ t. pool t (range_pages (kend s) (P2V PHYSTOP)) \<and> use_lock t)"
      by (rule returns_bnd) (auto simp: split pool_def kmem_inv_def page_ok_def)
  qed
qed

theorem kinit_fills_pool_witness:
  "returns (bnd (kinit1 0x80115000 (P2V 0x400000) (demo_mst (\<lambda>_. 0) 0)) (\<lambda>_ s. kinit2 (P2V 0x400000) (P2V PHYSTOP) s))
    (\<lambda>_ t. pool t (range_pages 0x80115000 (P2V PHYSTOP)) \<and> use_lock t)"
  using kinit_fills_pool[of "demo_mst (\<lambda>_. 0) 0"] by simp


lemma pool_demo2:
  "pool (demo_mst (store32 (\<lambda>_. 0) 0x80200000 0x80300000) 0x80200000) {0x80200000, 0x80300000}"
proof -
  have "load32 (store32 (\<lambda>_. 0) 0x80200000 0x80300000) 0x80300000 = 0"
    by (simp add: load32_def store32_def)
  then show ?thesis
    unfolding pool_def kmem_inv_def
    by (intro conjI exI[of _ "[0x80200000, 0x80300000]"])
      (simp_all add: page_ok_demo aligned_def PGSIZE_def V2P_def KERNBASE_def PHYSTOP_def)
qed


text \<open>Allocating a page and freeing it leaves the pool as it was; freeing an allocated page
  returns exactly that page to the pool.\<close>

lemma kalloc_kfree_roundtrip:
  assumes "pool s F" and "F \<noteq> {}"
  shows "returns (kalloc s) (\<lambda>p t. p \<in> F \<and> pool t (F - {p}) \<and> returns (kfree p t) (\<lambda>_ u. pool u F))"
proof (rule returns_mono[OF kmem.alloc_page[OF assms]])
  fix p t assume p: "p \<in> F \<and> pool t (F - {p}) \<and> page_ok t p"
  then show "p \<in> F \<and> pool t (F - {p}) \<and> returns (kfree p t) (\<lambda>_ u. pool u F)"
    using kmem.give_page[of t "F - {p}" p] by (simp add: insert_absorb)
qed

lemma kalloc_kfree_roundtrip_witness:
  "returns (kalloc (demo_mst (\<lambda>_. 0) 0x80200000)) (\<lambda>p t. p = 0x80200000 \<and> pool t {})"
  by (rule returns_mono[OF kalloc_kfree_roundtrip[OF pool_demo1]]) auto

end
