(* ===== verification/VM.thy ===== *)
theory VM
  imports Kalloc
begin

text \<open>
  \<^verbatim>\<open>vm.c\<close>: two-level page tables, stored in physical memory as the hardware reads them.
  A page directory is named by its kernel address.  Functions that return a pointer to a
  page-table entry return its address, 0 for the null pointer.

  Two views connect them: \<open>pte_of m d va\<close> is the entry that maps \<open>va\<close> (0 when the
  directory has no page table there), and \<open>vm_wf m d F\<close> says that the directory and its
  page tables are different valid pages outside the free pool \<open>F\<close>.
\<close>

subsection \<open>Walking and mapping\<close>

definition walkpgdir :: "u32 \<Rightarrow> u32 \<Rightarrow> bool \<Rightarrow> 'z mst_scheme \<Rightarrow> (u32, 'z mst_scheme) outcome" where
  "walkpgdir d va alloc s =
     (let pde = d + 4 * PDX va;
          e = load32 (mem s) pde
      in if e AND PTE_P \<noteq> 0 then Ret (P2V (PTE_ADDR e) + 4 * PTX va) s
         else if \<not> alloc then Ret 0 s
         else bnd (kalloc s) (\<lambda>pgtab s.
           if pgtab = 0 then Ret 0 s
           else
             let s = s\<lparr>mem := memset (mem s) pgtab 0 PGSIZE\<rparr>;
                 s = s\<lparr>mem := store32 (mem s) pde (V2P pgtab OR PTE_P OR PTE_W OR PTE_U)\<rparr>
             in Ret (pgtab + 4 * PTX va) s))"

text \<open>The loop of \<open>mappages\<close> from the page at \<open>a\<close>; \<open>n\<close> is the number of pages after it, so
  \<open>n = 0\<close> is the test \<^verbatim>\<open>a == last\<close> (\<open>a\<close> and \<open>last\<close> are page addresses).\<close>

fun mappages_loop :: "u32 \<Rightarrow> u32 \<Rightarrow> nat \<Rightarrow> u32 \<Rightarrow> u32 \<Rightarrow> 'z mst_scheme \<Rightarrow> (int, 'z mst_scheme) outcome" where
  "mappages_loop d a n pa perm s =
     bnd (walkpgdir d a True s) (\<lambda>pte s.
     if pte = 0 then Ret (-1) s
     else if load32 (mem s) pte AND PTE_P \<noteq> 0 then Panic ''remap''
     else
       let s = s\<lparr>mem := store32 (mem s) pte (pa OR perm OR PTE_P)\<rparr> in
       (case n of 0 \<Rightarrow> Ret 0 s
        | Suc n \<Rightarrow> mappages_loop d (a + PGSIZE) n (pa + PGSIZE) perm s))"

definition mappages :: "u32 \<Rightarrow> u32 \<Rightarrow> u32 \<Rightarrow> u32 \<Rightarrow> u32 \<Rightarrow> 'z mst_scheme \<Rightarrow> (int, 'z mst_scheme) outcome" where
  "mappages d va n pa perm s =
     (let a = PGROUNDDOWN va;
          last = PGROUNDDOWN (va + n - 1)
      in mappages_loop d a (unat ((last - a) div PGSIZE)) pa perm s)"

declare mappages_loop.simps [simp del]

subsection \<open>Words of a page do not overlap\<close>

lemma word_at_index:
  assumes "i < 1024" and "x \<in> word_at (v + 4 * of_nat i)"
  shows "unat (x - v) div 4 = i" and "x \<in> word_at (v + 4 * of_nat i) \<Longrightarrow> unat (x - v) < 4096"
proof -
  obtain k where k: "k < (4 :: nat)" "x = v + of_nat (4 * i + k)"
    using assms(2)
    by (auto simp: word_at_def add.assoc intro: that[of 0] that[of 1] that[of 2] that[of 3])
  have "unat (of_nat (4 * i + k) :: u32) = 4 * i + k"
    using assms(1) k(1) by (intro unat_of_nat_small) simp
  then show "unat (x - v) div 4 = i" and "unat (x - v) < 4096"
    using k assms(1) by simp_all
qed

lemma words_disjoint:
  assumes "i < 1024" and "j < 1024" and "i \<noteq> j"
  shows "word_at (v + 4 * of_nat i) \<inter> word_at (v + 4 * of_nat j) = {}"
  using word_at_index(1)[OF assms(1), of _ v] word_at_index(1)[OF assms(2), of _ v] assms(3) by auto

lemma words_disjoint_pages:
  assumes "aligned v" and "aligned w" and "v \<noteq> w" and "i < 1024" and "j < 1024"
  shows "word_at (v + 4 * of_nat i) \<inter> word_at (w + 4 * of_nat j) = {}"
  using word_in_page[OF assms(1,4)] word_in_page[OF assms(2,5)] pages_disjoint[OF assms(1-3)] by blast

subsection \<open>The abstract page table\<close>

definition pdx :: "u32 \<Rightarrow> nat" where "pdx va = unat (PDX va)"
definition ptx :: "u32 \<Rightarrow> nat" where "ptx va = unat (PTX va)"

definition pde :: "memory \<Rightarrow> u32 \<Rightarrow> nat \<Rightarrow> u32" where
  "pde m d i = load32 m (d + 4 * of_nat i)"

definition present :: "u32 \<Rightarrow> bool" where
  "present e = (e AND PTE_P \<noteq> 0)"

lemma present_0 [simp]: "\<not> present 0"
  by (simp add: present_def)

definition tab :: "u32 \<Rightarrow> u32" where
  "tab e = P2V (PTE_ADDR e)"

definition pte_of :: "memory \<Rightarrow> u32 \<Rightarrow> u32 \<Rightarrow> u32" where
  "pte_of m d va = (if present (pde m d (pdx va))
     then load32 m (tab (pde m d (pdx va)) + 4 * of_nat (ptx va)) else 0)"

definition vm_wf :: "'z mst_scheme \<Rightarrow> u32 \<Rightarrow> u32 set \<Rightarrow> bool" where
  "vm_wf s d F = (page_ok s d \<and> d \<notin> F \<and>
     (\<forall>i < 1024. present (pde (mem s) d i) \<longrightarrow>
        page_ok s (tab (pde (mem s) d i)) \<and> tab (pde (mem s) d i) \<notin> F \<and> tab (pde (mem s) d i) \<noteq> d) \<and>
     (\<forall>i < 1024. \<forall>j < 1024. i \<noteq> j \<and> present (pde (mem s) d i) \<and> present (pde (mem s) d j) \<longrightarrow>
        tab (pde (mem s) d i) \<noteq> tab (pde (mem s) d j)))"

lemma pdx_less: "pdx va < 1024" and ptx_less: "ptx va < 1024"
  by (simp_all add: pdx_def ptx_def unat_PDX_less unat_PTX_less)

lemma of_nat_pdx [simp]: "of_nat (pdx va) = PDX va" and of_nat_ptx [simp]: "of_nat (ptx va) = PTX va"
  by (simp_all add: pdx_def ptx_def)

text \<open>Two addresses with the same indices lie in the same page.\<close>

lemma same_page_iff: "pdx a = pdx b \<and> ptx a = ptx b \<longleftrightarrow> PGROUNDDOWN a = PGROUNDDOWN b"
proof -
  have rd: "PGROUNDDOWN x = PGADDR (PDX x) (PTX x) 0" for x
    unfolding mmu_bits
  proof (rule bit_word_eqI)
    fix n assume "n < LENGTH(32)"
    then consider "n < 12" | "12 \<le> n \<and> n < 22" | "22 \<le> n \<and> n < 32" by fastforce
    then show "bit (x AND NOT (mask 12)) n =
        bit (push_bit 22 (drop_bit 22 x AND mask 10) OR push_bit 12 (drop_bit 12 x AND mask 10) OR 0) n"
      by cases (auto simp: bit_simps)
  qed
  have px: "PDX (PGROUNDDOWN x) = PDX x" "PTX (PGROUNDDOWN x) = PTX x" for x
    unfolding mmu_bits by (rule bit_word_eqI; auto simp: bit_simps)+
  show ?thesis
    unfolding pdx_def ptx_def by (metis px rd word_unat_eq_iff)
qed

lemma pdx_PGROUNDDOWN [simp]: "pdx (PGROUNDDOWN x) = pdx x" "ptx (PGROUNDDOWN x) = ptx x"
  using same_page_iff[of "PGROUNDDOWN x" x] PGROUNDDOWN_id[OF PGROUNDDOWN_aligned] by auto

lemma pte_of_page: "PGROUNDDOWN a = PGROUNDDOWN b \<Longrightarrow> pte_of m d a = pte_of m d b"
  using same_page_iff[of a b] by (simp add: pte_of_def)

text \<open>A new entry: the page address, and the flags.\<close>

lemma aligned_V2P: "aligned p \<Longrightarrow> V2P p AND 0xFFF = 0"
proof -
  assume "aligned p"
  then have "4096 dvd unat p" by (simp add: aligned_unat dvd_eq_mod_eq_0)
  then have "4096 dvd unat (p + 0x80000000)"
    by (simp add: unat_word_ariths) (simp add: dvd_mod_iff)
  moreover have "V2P p = p + 0x80000000" by (simp add: V2P_def KERNBASE_def)
  ultimately show ?thesis by (simp add: aligned_iff dvd_eq_mod_eq_0)
qed

lemma entry_parts:
  assumes "aligned p" and "perm < 4096"
  shows "tab (V2P p OR perm OR PTE_P) = p" and "present (V2P p OR perm OR PTE_P)"
proof -
  show "tab (V2P p OR perm OR PTE_P) = p"
    using PTE_ADDR_of(1)[OF aligned_V2P[OF assms(1)] assms(2)] by (simp add: tab_def)
  have "bit ((V2P p OR perm OR PTE_P) AND PTE_P) 0"
    by (simp add: bit_simps PTE_P_def)
  then show "present (V2P p OR perm OR PTE_P)" unfolding present_def by (metis bit_0_eq bot_apply bot_bool_def)
qed

subsection \<open>What changes: memory and the free list only\<close>

definition only_mem :: "'z mst_scheme \<Rightarrow> 'z mst_scheme \<Rightarrow> bool" where
  "only_mem s t = (t = s\<lparr>mem := mem t, freelist := freelist t\<rparr>)"

lemma only_mem_refl [simp]: "only_mem s s"
  and only_mem_upd [simp]: "only_mem s (s\<lparr>mem := m\<rparr>)" "only_mem s (s\<lparr>freelist := r\<rparr>)"
  by (simp_all add: only_mem_def)

lemma only_mem_trans: "only_mem s t \<Longrightarrow> only_mem t u \<Longrightarrow> only_mem s u"
  unfolding only_mem_def by (cases s; cases t; cases u) simp

lemma only_mem_fields:
  assumes "only_mem s t"
  shows "held t = held s" "procs t = procs s" "cur t = cur s" "kend t = kend s" "kdata t = kdata s"
    "use_lock t = use_lock s" "page_ok t = page_ok s"
proof -
  obtain m r where t: "t = s\<lparr>mem := m, freelist := r\<rparr>" using assms by (auto simp: only_mem_def)
  show "held t = held s" "procs t = procs s" "cur t = cur s" "kend t = kend s" "kdata t = kdata s"
    "use_lock t = use_lock s" "page_ok t = page_ok s"
    by (simp_all add: t fun_eq_iff page_ok_def)
qed

lemma only_mem_upd_trans: "only_mem s t \<Longrightarrow> only_mem s (t\<lparr>mem := m\<rparr>)"
  using only_mem_trans[of s t] by simp

definition touches :: "'z mst_scheme \<Rightarrow> 'z mst_scheme \<Rightarrow> u32 set \<Rightarrow> bool" where
  "touches s t P = (\<forall>x. (\<forall>p \<in> P. x \<notin> page p) \<longrightarrow> mem t x = mem s x)"

subsection \<open>The walk\<close>

lemma pool_finite_wf:
  assumes "vm_wf s d F" and "F' \<subseteq> F" and "mem t = mem s" and "page_ok t = page_ok s"
  shows "vm_wf t d F'"
  using assms by (auto simp: vm_wf_def)

lemma walkpgdir_present:
  assumes "present (pde (mem s) d (pdx va))"
  shows "walkpgdir d va b s = Ret (tab (pde (mem s) d (pdx va)) + 4 * PTX va) s"
  using assms by (simp add: walkpgdir_def pde_def present_def tab_def)

lemma walkpgdir_absent: "\<not> present (pde (mem s) d (pdx va)) \<Longrightarrow> walkpgdir d va False s = Ret 0 s"
  by (simp add: walkpgdir_def pde_def present_def)

lemma load_zero_page:
  assumes that: "aligned v" "i < 1024"
  shows "load32 (memset m v 0 PGSIZE) (v + 4 * of_nat i) = 0"
proof -
  have "load32 (memset m v 0 PGSIZE) (v + 4 * of_nat i) = load32 (\<lambda>_. 0) (v + 4 * of_nat i)"
    by (rule load32_cong) (use word_in_page[OF that] in \<open>auto simp: memset_page\<close>)
  then show ?thesis by (simp add: load32_def)
qed

text \<open>A new, zeroed page table: every address keeps its entry.\<close>

lemma new_table:
  assumes wf: "vm_wf s d F" and p: "page_ok s p" "p \<in> F" and absent: "\<not> present (pde (mem s) d i)" and i: "i < 1024"
  defines "m \<equiv> store32 (memset (mem s) p 0 PGSIZE) (d + 4 * of_nat i) (V2P p OR PTE_P OR PTE_W OR PTE_U)"
  shows "j < 1024 \<Longrightarrow> pde m d j = (if j = i then V2P p OR PTE_P OR PTE_W OR PTE_U else pde (mem s) d j)"
    and "present (V2P p OR PTE_P OR PTE_W OR PTE_U)" and "tab (V2P p OR PTE_P OR PTE_W OR PTE_U) = p"
    and "pte_of m d va = pte_of (mem s) d va"
    and "x \<notin> page d \<Longrightarrow> x \<notin> page p \<Longrightarrow> m x = mem s x"
proof -
  have al: "aligned d" "aligned p" and dp: "d \<noteq> p" and dF: "d \<notin> F"
    using wf p by (auto simp: vm_wf_def page_ok_def)
  have e: "V2P p OR PTE_P OR PTE_W OR PTE_U = V2P p OR 6 OR PTE_P"
    by (simp add: PTE_P_def PTE_W_def PTE_U_def or.assoc)
  show pr: "present (V2P p OR PTE_P OR PTE_W OR PTE_U)" and tp: "tab (V2P p OR PTE_P OR PTE_W OR PTE_U) = p"
    unfolding e using entry_parts[OF al(2), of 6] by simp_all
  have dpage: "page d \<inter> page p = {}" using pages_disjoint al dp by blast
  show pd: "pde m d j = (if j = i then V2P p OR PTE_P OR PTE_W OR PTE_U else pde (mem s) d j)" if j: "j < 1024" for j
  proof (cases "j = i")
    case True
    then show ?thesis by (simp add: pde_def m_def)
  next
    case False
    have "load32 m (d + 4 * of_nat j) = load32 (memset (mem s) p 0 PGSIZE) (d + 4 * of_nat j)"
      unfolding m_def by (rule load32_store32_other[OF words_disjoint[OF j i False]])
    also have "\<dots> = load32 (mem s) (d + 4 * of_nat j)"
      by (rule load32_cong) (use word_in_page[OF al(1) j] dpage in \<open>auto simp: memset_page\<close>)
    finally show ?thesis using False by (simp add: pde_def)
  qed
  show other: "m x = mem s x" if x: "x \<notin> page d" "x \<notin> page p" for x
  proof -
    have "x \<notin> word_at (d + 4 * of_nat i)" using word_in_page[OF al(1) i] x(1) by blast
    then show ?thesis using x(2) by (simp add: m_def store32_other memset_page)
  qed
  show "pte_of m d va = pte_of (mem s) d va"
  proof (cases "pdx va = i")
    case True
    have "load32 m (p + 4 * of_nat (ptx va)) = load32 (memset (mem s) p 0 PGSIZE) (p + 4 * of_nat (ptx va))"
      unfolding m_def by (rule load32_store32_other[OF words_disjoint_pages[OF al(2,1) dp[symmetric] ptx_less i]])
    then show ?thesis
      using True absent pd[OF i] pr tp load_zero_page[OF al(2) ptx_less] by (simp add: pte_of_def)
  next
    case False
    have same: "pde m d (pdx va) = pde (mem s) d (pdx va)" using False pd[OF pdx_less] by simp
    show ?thesis
    proof (cases "present (pde (mem s) d (pdx va))")
      case True
      let ?q = "tab (pde (mem s) d (pdx va))"
      have q: "page_ok s ?q" "?q \<notin> F" "?q \<noteq> d" using wf True pdx_less by (auto simp: vm_wf_def)
      then have "page ?q \<inter> page p = {}" "page ?q \<inter> page d = {}"
        using pages_disjoint al p(2) by (auto simp: page_ok_def)
      then have "load32 m (?q + 4 * of_nat (ptx va)) = load32 (mem s) (?q + 4 * of_nat (ptx va))"
        using word_in_page[OF page_ok_aligned[OF q(1)] ptx_less] by (intro load32_cong other) blast+
      then show ?thesis using same by (simp add: pte_of_def)
    qed (simp add: pte_of_def same)
  qed
qed

definition ptpages :: "memory \<Rightarrow> u32 \<Rightarrow> u32 set" where
  "ptpages m d = insert d {tab (pde m d i) | i. i < 1024 \<and> present (pde m d i)}"

definition walked :: "u32 \<Rightarrow> u32 \<Rightarrow> 'z mst_scheme \<Rightarrow> u32 set \<Rightarrow> u32 \<Rightarrow> 'z mst_scheme \<Rightarrow> u32 set \<Rightarrow> bool" where
  "walked d va s F a t F' = (F' \<subseteq> F \<and> pool t F' \<and> vm_wf t d F' \<and> only_mem s t \<and>
     touches s t (insert d F) \<and> ptpages (mem t) d \<subseteq> ptpages (mem s) d \<union> F \<and> (\<forall>x. pte_of (mem t) d x = pte_of (mem s) d x) \<and>
     present (pde (mem t) d (pdx va)) \<and> a = tab (pde (mem t) d (pdx va)) + 4 * PTX va \<and> a \<noteq> 0)"

lemma slot_not0:
  assumes "page_ok s p" and "i < 1024"
  shows "p + 4 * of_nat i \<noteq> 0"
proof
  assume "p + 4 * of_nat i = 0"
  then have "0 \<in> page p"
    using word_in_page[OF page_ok_aligned[OF assms(1)] assms(2)] by (auto simp: word_at_def)
  then show False
    using assms(1) page_mem[of p 0] page_ok_not0[OF assms(1)]
    by (auto simp: page_ok_def unat_eq_0)
qed

lemma walkpgdir_alloc:
  assumes wf: "vm_wf s d F" and pl: "pool s F"
  shows "returns (walkpgdir d va True s) (\<lambda>a t.
     (a = 0 \<and> F = {} \<and> t = s) \<or> (\<exists>F'. walked d va s F a t F'))"
proof (cases "present (pde (mem s) d (pdx va))")
  case True
  have "page_ok s (tab (pde (mem s) d (pdx va)))" using wf True pdx_less by (auto simp: vm_wf_def)
  then have "tab (pde (mem s) d (pdx va)) + 4 * PTX va \<noteq> 0"
    using slot_not0[OF _ ptx_less, of s _ va] by simp
  then show ?thesis
    using True wf pl by (auto simp: walkpgdir_present walked_def touches_def)
next
  case absent: False
  obtain ps where ps: "set ps = F" "kmem_inv s ps" and lk: "LkKmem \<notin> set (held s)"
    using pl by (auto simp: pool_def)
  have e: "load32 (mem s) (d + 4 * PDX va) AND PTE_P = 0"
    using absent by (simp add: pde_def present_def)
  show ?thesis
  proof (cases ps)
    case Nil
    then show ?thesis using kalloc_none[of s] ps lk e by (simp add: walkpgdir_def)
  next
    case (Cons p qs)
    obtain r where r: "kalloc s = Ret p (s\<lparr>freelist := r\<rparr>)" "kmem_inv (s\<lparr>freelist := r\<rparr>) qs"
      using kalloc_some[OF ps(2)[unfolded Cons] lk] by auto
    have p: "page_ok s p" "p \<in> F" "p \<notin> set qs" "set qs = F - {p}"
      using ps Cons by (auto simp: kmem_inv_def)
    have p0: "p \<noteq> 0" by (rule page_ok_not0[OF p(1)])
    let ?m = "store32 (memset (mem s) p 0 PGSIZE) (d + 4 * of_nat (pdx va)) (V2P p OR PTE_P OR PTE_W OR PTE_U)"
    let ?t = "s\<lparr>freelist := r, mem := ?m\<rparr>"
    have run: "walkpgdir d va True s = Ret (p + 4 * PTX va) ?t"
      using r(1) p0 e by (simp add: walkpgdir_def Let_def)
    note nt = new_table[OF wf p(1,2) absent pdx_less]
    have ok: "page_ok ?t = page_ok s" by (simp add: fun_eq_iff page_ok_def)
    have "kmem_inv ?t qs"
      using kmem_inv_mem[OF r(2), of ?m] nt(5) ps p wf pages_disjoint
      by (auto simp: kmem_inv_def page_ok_def vm_wf_def Cons) blast+
    then have "pool ?t (F - {p})" using p(4) lk by (auto simp: pool_def)
    moreover have "vm_wf ?t d (F - {p})"
      using wf p(1,2) nt(1)[THEN sym] unfolding vm_wf_def ok
      by (auto simp: nt(1,2,3) simp del: of_nat_pdx)
    moreover have "touches s ?t (insert d F)"
      using nt(5) p(2) by (auto simp: touches_def)
    moreover have "only_mem s ?t" by (simp add: only_mem_def)
    moreover have "ptpages (mem ?t) d \<subseteq> ptpages (mem s) d \<union> F"
      using p(2) nt(1,3) by (auto simp: ptpages_def simp del: of_nat_pdx split: if_splits)
    moreover have "p + 4 * PTX va \<noteq> 0" using slot_not0[OF p(1) ptx_less, of va] by simp
    ultimately show ?thesis
      using run nt(1)[OF pdx_less] nt(2,3,4)
      by (auto simp: walked_def simp del: of_nat_pdx intro!: exI[of _ "F - {p}"])
  qed
qed

subsection \<open>Writing an entry\<close>

lemma touches_mono: "touches s t P \<Longrightarrow> P \<subseteq> Q \<Longrightarrow> touches s t Q"
  by (auto simp: touches_def)

lemma touches_trans: "touches s t P \<Longrightarrow> touches t u P \<Longrightarrow> touches s u P"
  by (auto simp: touches_def)

lemma write_entry:
  fixes v :: u32
  assumes wf: "vm_wf t d F" and pl: "pool t F" and pr: "present (pde (mem t) d (pdx va))"
  defines "m \<equiv> store32 (mem t) (tab (pde (mem t) d (pdx va)) + 4 * PTX va) v"
  shows "pte_of m d x = (if PGROUNDDOWN x = PGROUNDDOWN va then v else pte_of (mem t) d x)"
    and "vm_wf (t\<lparr>mem := m\<rparr>) d F" and "pool (t\<lparr>mem := m\<rparr>) F"
    and "touches t (t\<lparr>mem := m\<rparr>) (ptpages (mem t) d)" and "ptpages m d = ptpages (mem t) d"
proof -
  let ?q = "tab (pde (mem t) d (pdx va))"
  have m: "m = store32 (mem t) (?q + 4 * of_nat (ptx va)) v" by (simp add: m_def)
  have q: "page_ok t ?q" "?q \<notin> F" "?q \<noteq> d" using wf pr pdx_less by (auto simp: vm_wf_def)
  have al: "aligned ?q" "aligned d" using q(1) wf by (auto simp: vm_wf_def page_ok_def)
  have pd: "pde m d i = pde (mem t) d i" if "i < 1024" for i
  proof -
    have "load32 m (d + 4 * of_nat i) = load32 (mem t) (d + 4 * of_nat i)"
      unfolding m by (rule load32_store32_other[OF words_disjoint_pages[OF al(2,1) q(3)[symmetric] that ptx_less]])
    then show ?thesis by (simp add: pde_def)
  qed
  show "pte_of m d x = (if PGROUNDDOWN x = PGROUNDDOWN va then v else pte_of (mem t) d x)"
  proof (cases "PGROUNDDOWN x = PGROUNDDOWN va")
    case True
    then have "pdx x = pdx va" "ptx x = ptx va" using same_page_iff[of x va] by auto
    then show ?thesis using True pr pd[OF pdx_less, of va] by (simp add: pte_of_def m del: of_nat_ptx)
  next
    case False
    then have neq: "\<not> (pdx x = pdx va \<and> ptx x = ptx va)" using same_page_iff[of x va] by auto
    show ?thesis
    proof (cases "present (pde (mem t) d (pdx x))")
      case pr': True
      let ?r = "tab (pde (mem t) d (pdx x))"
      have r: "page_ok t ?r" using wf pr' pdx_less by (auto simp: vm_wf_def)
      have "word_at (?r + 4 * of_nat (ptx x)) \<inter> word_at (?q + 4 * of_nat (ptx va)) = {}"
      proof (cases "pdx x = pdx va")
        case True
        then have "ptx x \<noteq> ptx va" using neq by simp
        then show ?thesis using words_disjoint[OF ptx_less ptx_less] True by metis
      next
        case False
        then have "?r \<noteq> ?q" using wf pr pr' pdx_less unfolding vm_wf_def by blast
        then show ?thesis using words_disjoint_pages[OF page_ok_aligned[OF r] al(1) _ ptx_less ptx_less] by blast
      qed
      then show ?thesis
        using False pd[OF pdx_less, of x] by (simp add: pte_of_def m load32_store32_other del: of_nat_ptx)
    qed (use False pd[OF pdx_less, of x] in \<open>simp add: pte_of_def\<close>)
  qed
  have ok: "page_ok (t\<lparr>mem := m\<rparr>) = page_ok t" by (simp add: fun_eq_iff page_ok_def)
  show "vm_wf (t\<lparr>mem := m\<rparr>) d F" using wf by (auto simp: vm_wf_def ok pd)
  have other: "m x = mem t x" if "x \<notin> page ?q" for x
  proof -
    have "x \<notin> word_at (?q + 4 * of_nat (ptx va))" using word_in_page[OF al(1) ptx_less] that by blast
    then show ?thesis by (simp add: m store32_other del: of_nat_ptx)
  qed
  have "?q \<in> ptpages (mem t) d" using pr pdx_less by (auto simp: ptpages_def)
  then show "touches t (t\<lparr>mem := m\<rparr>) (ptpages (mem t) d)" using other by (auto simp: touches_def)
  show "ptpages m d = ptpages (mem t) d" by (auto simp: ptpages_def pd) (metis pd)
  obtain ps where ps: "set ps = F" "kmem_inv t ps" "LkKmem \<notin> set (held t)" using pl by (auto simp: pool_def)
  have "kmem_inv (t\<lparr>mem := m\<rparr>) ps"
  proof (rule kmem_inv_mem[OF ps(2)])
    fix x p assume "p \<in> set ps" "x \<in> page p"
    then have "x \<notin> page ?q"
      using pages_disjoint[of p ?q] al(1) q(2) ps by (auto simp: kmem_inv_def page_ok_def)
    then show "m x = mem t x" by (rule other)
  qed
  then show "pool (t\<lparr>mem := m\<rparr>) F" using ps by (auto simp: pool_def)
qed

subsection \<open>mappages\<close>

text \<open>The index of the page of \<open>x\<close>, counted from the page address \<open>a\<close>.\<close>

definition pgidx :: "u32 \<Rightarrow> u32 \<Rightarrow> nat" where
  "pgidx a x = unat (PGROUNDDOWN x - a) div 4096"

text \<open>The page table with \<open>k\<close> pages mapped from \<open>a\<close> on.\<close>

definition map_pte :: "u32 \<Rightarrow> nat \<Rightarrow> u32 \<Rightarrow> u32 \<Rightarrow> (u32 \<Rightarrow> u32) \<Rightarrow> u32 \<Rightarrow> u32" where
  "map_pte a k pa perm f x =
     (if pgidx a x < k then (pa + of_nat (pgidx a x) * PGSIZE) OR perm OR PTE_P else f x)"

lemma aligned_PGROUNDDOWN [simp]: "aligned (PGROUNDDOWN x)"
  by (simp add: aligned_and PGROUNDDOWN_aligned)

lemma aligned_diff: "aligned x \<Longrightarrow> aligned y \<Longrightarrow> aligned (x - y)"
  and aligned_add: "aligned x \<Longrightarrow> aligned y \<Longrightarrow> aligned (x + y)"
proof -
  assume "aligned x" "aligned y"
  then have d: "4096 dvd unat x" "4096 dvd unat y" by (simp_all add: aligned_unat dvd_eq_mod_eq_0)
  have "4096 dvd unat (x + y)"
    using d by (simp add: unat_word_ariths dvd_mod_iff)
  then show "aligned (x + y)" by (simp add: aligned_unat dvd_eq_mod_eq_0)
  have "4096 dvd unat (x - y)"
    using d by (auto simp: unat_sub_if' intro: dvd_diff_nat dvd_add)
  then show "aligned (x - y)" by (simp add: aligned_unat dvd_eq_mod_eq_0)
qed

lemma aligned_PGSIZE [simp]: "aligned PGSIZE"
  by (simp add: aligned_def PGSIZE_def)

lemma pgidx_eq:
  assumes "aligned a"
  shows "PGROUNDDOWN x = a + of_nat (pgidx a x) * PGSIZE" and "pgidx a x < 2 ^ 20"
proof -
  let ?d = "PGROUNDDOWN x - a"
  have "4096 dvd unat ?d"
    using aligned_diff[OF aligned_PGROUNDDOWN assms] by (simp add: aligned_unat dvd_eq_mod_eq_0)
  then have "unat ?d = pgidx a x * 4096" by (simp add: pgidx_def)
  then have "?d = of_nat (pgidx a x * 4096)" by (metis of_nat_unat ucast_id)
  then have "?d = of_nat (pgidx a x) * PGSIZE" by (simp add: PGSIZE_def)
  then show "PGROUNDDOWN x = a + of_nat (pgidx a x) * PGSIZE" by (metis add.commute diff_add_cancel)
  have "unat ?d < 2 ^ 32" using unsigned_less[of ?d] by simp
  then show "pgidx a x < 2 ^ 20" by (simp add: pgidx_def)
qed

lemma pgidx_zero: "aligned a \<Longrightarrow> pgidx a x = 0 \<longleftrightarrow> PGROUNDDOWN x = a"
  using pgidx_eq(1)[of a x] by (auto simp: pgidx_def)

lemma pgidx_next:
  assumes "aligned a"
  shows "pgidx (a + PGSIZE) x = (if pgidx a x = 0 then 2 ^ 20 - 1 else pgidx a x - 1)"
proof -
  let ?d = "PGROUNDDOWN x - a"
  have "4096 dvd unat ?d"
    using aligned_diff[OF aligned_PGROUNDDOWN assms] by (simp add: aligned_unat dvd_eq_mod_eq_0)
  then obtain k where k: "unat ?d = 4096 * k" by (auto elim!: dvdE)
  have e: "PGROUNDDOWN x - (a + PGSIZE) = ?d - 4096" by (simp add: PGSIZE_def)
  have "unat (?d - 4096) = (if 1 \<le> k then 4096 * k - 4096 else 2 ^ 32 - 4096)"
    using k by (auto simp: unat_sub_if')
  then show ?thesis unfolding pgidx_def e k by auto
qed

lemma map_pte_0 [simp]: "map_pte a 0 pa perm f = f"
  by (simp add: map_pte_def fun_eq_iff)

lemma map_pte_Suc:
  assumes "aligned a" and "k < 2 ^ 20"
  shows "map_pte (a + PGSIZE) k (pa + PGSIZE) perm (\<lambda>x. if PGROUNDDOWN x = a then pa OR perm OR PTE_P else f x)
    = map_pte a (Suc k) pa perm f"
proof
  fix x
  have "of_nat (pgidx a x) = (of_nat (pgidx a x - 1) + 1 :: u32)" if "pgidx a x \<noteq> 0"
    using that by (metis Suc_pred' neq0_conv of_nat_Suc add.commute)
  then show "map_pte (a + PGSIZE) k (pa + PGSIZE) perm (\<lambda>x. if PGROUNDDOWN x = a then pa OR perm OR PTE_P else f x) x
    = map_pte a (Suc k) pa perm f x"
    using assms pgidx_next[OF assms(1), of x] pgidx_zero[OF assms(1), of x]
    by (cases "pgidx a x = 0") (auto simp: map_pte_def algebra_simps)
qed

definition mapped_to :: "u32 \<Rightarrow> 'z mst_scheme \<Rightarrow> u32 set \<Rightarrow> (u32 \<Rightarrow> u32) \<Rightarrow> 'z mst_scheme \<Rightarrow> u32 set \<Rightarrow> bool" where
  "mapped_to d s F f t F' = (F' \<subseteq> F \<and> pool t F' \<and> vm_wf t d F' \<and> only_mem s t \<and>
     touches s t (ptpages (mem s) d \<union> F) \<and> ptpages (mem t) d \<subseteq> ptpages (mem s) d \<union> F \<and>
     (\<forall>x. pte_of (mem t) d x = f x))"

lemma mapped_to_step:
  assumes "walked d va s F a t F'" and "mapped_to d (t\<lparr>mem := store32 (mem t) a v\<rparr>) F' f u F''"
  shows "mapped_to d s F f u F''"
proof -
  have w: "F' \<subseteq> F" "pool t F'" "vm_wf t d F'" "only_mem s t" "touches s t (insert d F)"
    "ptpages (mem t) d \<subseteq> ptpages (mem s) d \<union> F" "present (pde (mem t) d (pdx va))"
    "a = tab (pde (mem t) d (pdx va)) + 4 * PTX va"
    using assms(1) by (auto simp: walked_def)
  note we = write_entry[OF w(3,2,7), of v, folded w(8)]
  have d: "d \<in> ptpages (mem s) d" by (simp add: ptpages_def)
  have "touches s t (ptpages (mem s) d \<union> F)" using w(5) d by (auto elim!: touches_mono)
  moreover have "touches t (t\<lparr>mem := store32 (mem t) a v\<rparr>) (ptpages (mem s) d \<union> F)"
    using we(4) w(6) by (rule touches_mono)
  moreover have "touches (t\<lparr>mem := store32 (mem t) a v\<rparr>) u (ptpages (mem s) d \<union> F)"
    using assms(2) w(1,6) we(5) by (auto simp: mapped_to_def elim!: touches_mono)
  ultimately have "touches s u (ptpages (mem s) d \<union> F)" by (blast intro: touches_trans)
  moreover have "only_mem s u"
    using w(4) assms(2) only_mem_trans[OF only_mem_upd_trans[OF w(4)]] by (auto simp: mapped_to_def)
  ultimately show ?thesis
    using assms(2) w(1,6) we(5) by (auto simp: mapped_to_def)
qed

lemma mapped_to_id: "pool s F \<Longrightarrow> vm_wf s d F \<Longrightarrow> mapped_to d s F (pte_of (mem s) d) s F"
  by (auto simp: mapped_to_def touches_def)

lemma mapped_to_write:
  assumes "walked d va s F a t F'"
  shows "mapped_to d s F (\<lambda>x. if PGROUNDDOWN x = PGROUNDDOWN va then v else pte_of (mem s) d x)
    (t\<lparr>mem := store32 (mem t) a v\<rparr>) F'"
proof (rule mapped_to_step[OF assms])
  have w: "pool t F'" "vm_wf t d F'" "present (pde (mem t) d (pdx va))"
    "a = tab (pde (mem t) d (pdx va)) + 4 * PTX va" "\<And>x. pte_of (mem t) d x = pte_of (mem s) d x"
    using assms by (auto simp: walked_def)
  note we = write_entry[OF w(2,1,3), of v, folded w(4)]
  show "mapped_to d (t\<lparr>mem := store32 (mem t) a v\<rparr>) F'
      (\<lambda>x. if PGROUNDDOWN x = PGROUNDDOWN va then v else pte_of (mem s) d x)
      (t\<lparr>mem := store32 (mem t) a v\<rparr>) F'"
    using mapped_to_id[OF we(3,2)] by (simp add: mapped_to_def we(1) w(5))
qed

lemma mappages_loop_step:
  assumes "pool s F" and "vm_wf s d F" and "aligned a" and "\<not> present (pte_of (mem s) d a)"
    and next_: "\<And>s1 F1. mapped_to d s F (map_pte a 1 pa perm (pte_of (mem s) d)) s1 F1 \<Longrightarrow>
        (\<And>u F2 f. mapped_to d s1 F1 f u F2 \<Longrightarrow> mapped_to d s F f u F2) \<Longrightarrow>
        returns (case n of 0 \<Rightarrow> Ret 0 s1 | Suc n \<Rightarrow> mappages_loop d (a + PGSIZE) n (pa + PGSIZE) perm s1) Q"
    and full: "F = {} \<Longrightarrow> Q (-1) s"
  shows "returns (mappages_loop d a n pa perm s) Q"
  unfolding mappages_loop.simps[of d a n]
proof (rule returns_bnd[OF walkpgdir_alloc[OF assms(2,1)]])
  fix pte t
  assume "(pte = 0 \<and> F = {} \<and> t = s) \<or> (\<exists>F'. walked d a s F pte t F')"
  then show "returns (if pte = 0 then Ret (-1) t
     else if load32 (mem t) pte AND PTE_P \<noteq> 0 then Panic ''remap''
     else let s = t\<lparr>mem := store32 (mem t) pte (pa OR perm OR PTE_P)\<rparr> in
       (case n of 0 \<Rightarrow> Ret 0 s | Suc n \<Rightarrow> mappages_loop d (a + PGSIZE) n (pa + PGSIZE) perm s)) Q"
  proof
    assume "pte = 0 \<and> F = {} \<and> t = s"
    then show ?thesis using full by simp
  next
    assume "\<exists>F'. walked d a s F pte t F'"
    then obtain F' where w: "walked d a s F pte t F'" by blast
    have ld: "load32 (mem t) pte = pte_of (mem s) d a"
      using w by (auto simp: walked_def) (metis of_nat_ptx pte_of_def)
    have pte0: "pte \<noteq> 0" using w unfolding walked_def by blast
    have a: "PGROUNDDOWN a = a" using assms(3) by (simp add: aligned_and PGROUNDDOWN_id)
    have eq: "(\<lambda>x. if PGROUNDDOWN x = PGROUNDDOWN a then pa OR perm OR PTE_P else pte_of (mem s) d x)
       = map_pte a 1 pa perm (pte_of (mem s) d)"
      by (rule ext) (simp add: map_pte_def a flip: pgidx_zero[OF assms(3)])
    have "returns (case n of 0 \<Rightarrow> Ret 0 (t\<lparr>mem := store32 (mem t) pte (pa OR perm OR PTE_P)\<rparr>)
        | Suc n \<Rightarrow> mappages_loop d (a + PGSIZE) n (pa + PGSIZE) perm
            (t\<lparr>mem := store32 (mem t) pte (pa OR perm OR PTE_P)\<rparr>)) Q"
      by (rule next_[OF mapped_to_write[OF w, of "pa OR perm OR PTE_P", unfolded eq]])
        (rule mapped_to_step[OF w])
    then show ?thesis using assms(4) pte0 by (simp add: ld present_def Let_def)
  qed
qed

lemma mappages_loop_spec:
  assumes "pool s F" and "vm_wf s d F" and "aligned a" and "n < 2 ^ 20 - 1"
    and "\<And>x. pgidx a x \<le> n \<Longrightarrow> \<not> present (pte_of (mem s) d x)"
  shows "returns (mappages_loop d a n pa perm s) (\<lambda>r t. \<exists>k F'.
    mapped_to d s F (map_pte a k pa perm (pte_of (mem s) d)) t F' \<and>
    (r = 0 \<and> k = Suc n \<or> r = -1 \<and> k \<le> n \<and> F' = {}))"
  using assms
proof (induction n arbitrary: s F a pa)
  case 0
  have np: "\<not> present (pte_of (mem s) d a)"
    using 0(5)[of a] 0(3) by (simp add: pgidx_def aligned_and PGROUNDDOWN_id)
  show ?case
  proof (rule mappages_loop_step[OF 0(1-3) np])
    assume "F = {}"
    then show "\<exists>k F'. mapped_to d s F (map_pte a k pa perm (pte_of (mem s) d)) s F' \<and>
      (- 1 = (0::int) \<and> k = Suc 0 \<or> - 1 = (- 1 :: int) \<and> k \<le> 0 \<and> F' = {})"
      using mapped_to_id[OF 0(1,2)] by (intro exI[of _ 0] exI[of _ F]) simp
  qed auto
next
  case (Suc n)
  have np: "\<not> present (pte_of (mem s) d a)"
    using Suc.prems(5)[of a] Suc.prems(3) by (simp add: pgidx_def aligned_and PGROUNDDOWN_id)
  show ?case
  proof (rule mappages_loop_step[OF Suc.prems(1-3) np])
    assume "F = {}"
    then show "\<exists>k F'. mapped_to d s F (map_pte a k pa perm (pte_of (mem s) d)) s F' \<and>
      (- 1 = (0::int) \<and> k = Suc (Suc n) \<or> - 1 = (- 1 :: int) \<and> k \<le> Suc n \<and> F' = {})"
      using mapped_to_id[OF Suc.prems(1,2)] by (intro exI[of _ 0] exI[of _ F]) simp
  next
    fix s1 F1
    assume m: "mapped_to d s F (map_pte a 1 pa perm (pte_of (mem s) d)) s1 F1"
      and comp: "\<And>u F2 f. mapped_to d s1 F1 f u F2 \<Longrightarrow> mapped_to d s F f u F2"
    have s1: "pool s1 F1" "vm_wf s1 d F1" "pte_of (mem s1) d = map_pte a 1 pa perm (pte_of (mem s) d)"
      using m by (auto simp: mapped_to_def)
    have free: "\<not> present (pte_of (mem s1) d x)" if "pgidx (a + PGSIZE) x \<le> n" for x
      using that Suc.prems(4) Suc.prems(5)[of x] pgidx_next[OF Suc.prems(3), of x]
      by (auto simp: s1(3) map_pte_def split: if_splits)
    have eq: "map_pte (a + PGSIZE) k (pa + PGSIZE) perm (pte_of (mem s1) d) =
        map_pte a (Suc k) pa perm (pte_of (mem s) d)" if "k < 2 ^ 20" for k
    proof -
      have eq1: "map_pte a 1 pa perm (pte_of (mem s) d) =
          (\<lambda>x. if PGROUNDDOWN x = a then pa OR perm OR PTE_P else pte_of (mem s) d x)"
        by (rule ext) (simp add: map_pte_def flip: pgidx_zero[OF Suc.prems(3)])
      show ?thesis unfolding s1(3) eq1 by (rule map_pte_Suc[OF Suc.prems(3) that])
    qed
    have "returns (mappages_loop d (a + PGSIZE) n (pa + PGSIZE) perm s1) (\<lambda>r t. \<exists>k F'.
       mapped_to d s1 F1 (map_pte (a + PGSIZE) k (pa + PGSIZE) perm (pte_of (mem s1) d)) t F' \<and>
       (r = 0 \<and> k = Suc n \<or> r = -1 \<and> k \<le> n \<and> F' = {}))"
      using Suc.prems(4) by (intro Suc.IH s1(1,2) aligned_add Suc.prems(3) aligned_PGSIZE free) auto
    then show "returns (case Suc n of 0 \<Rightarrow> Ret 0 s1 | Suc n \<Rightarrow> mappages_loop d (a + PGSIZE) n (pa + PGSIZE) perm s1)
       (\<lambda>r t. \<exists>k F'. mapped_to d s F (map_pte a k pa perm (pte_of (mem s) d)) t F' \<and>
         (r = 0 \<and> k = Suc (Suc n) \<or> r = - 1 \<and> k \<le> Suc n \<and> F' = {}))"
      unfolding nat.case
    proof (rule returns_mono, elim exE conjE)
      fix r t k F'
      assume mt: "mapped_to d s1 F1 (map_pte (a + PGSIZE) k (pa + PGSIZE) perm (pte_of (mem s1) d)) t F'"
        and rk: "r = 0 \<and> k = Suc n \<or> r = (-1 :: int) \<and> k \<le> n \<and> F' = {}"
      have k: "k < 2 ^ 20" using rk Suc.prems(4) by auto
      show "\<exists>k F'. mapped_to d s F (map_pte a k pa perm (pte_of (mem s) d)) t F' \<and>
         (r = 0 \<and> k = Suc (Suc n) \<or> r = - 1 \<and> k \<le> Suc n \<and> F' = {})"
        using comp[OF mt[unfolded eq[OF k]]] rk by (intro exI[of _ "Suc k"] exI[of _ F']) auto
    qed
  qed
qed

lemma mappages_remap:
  assumes "vm_wf s d F" and "aligned a" and "present (pte_of (mem s) d a)"
  shows "mappages_loop d a n pa perm s = Panic ''remap''"
proof -
  have p: "present (pde (mem s) d (pdx a))" using assms(3) by (auto simp: pte_of_def present_def split: if_splits)
  have "page_ok s (tab (pde (mem s) d (pdx a)))" using assms(1) p pdx_less by (auto simp: vm_wf_def)
  then have "tab (pde (mem s) d (pdx a)) + 4 * PTX a \<noteq> 0" by (metis slot_not0 ptx_less of_nat_ptx)
  then show ?thesis
    using assms(3) p by (simp add: mappages_loop.simps[of d a n] walkpgdir_present pte_of_def present_def)
qed

subsection \<open>Properties\<close>

lemma vm_wf_empty:
  assumes "page_ok s d" and "d \<notin> F" and "\<forall>x \<in> page d. mem s x = 0"
  shows "vm_wf s d F" and "pte_of (mem s) d x = 0" and "ptpages (mem s) d = {d}"
proof -
  have z: "pde (mem s) d i = 0" if "i < 1024" for i
  proof -
    have "load32 (mem s) (d + 4 * of_nat i) = load32 (\<lambda>_. 0) (d + 4 * of_nat i)"
      using word_in_page[OF page_ok_aligned[OF assms(1)] that] assms(3) by (intro load32_cong) auto
    then show ?thesis by (simp add: pde_def load32_def)
  qed
  show "vm_wf s d F" using assms by (simp add: vm_wf_def z present_def)
  show "pte_of (mem s) d x = 0" by (simp add: pte_of_def z[OF pdx_less] present_def)
  show "ptpages (mem s) d = {d}" by (auto simp: ptpages_def z present_def)
qed

definition demo_vm :: mst where
  "demo_vm = demo_mst (store32 (\<lambda>_. 0) 0x80200000 0x80300000) 0x80200000"

lemma demo_vm_wf:
  "page_ok demo_vm 0x80400000" "vm_wf demo_vm 0x80400000 {0x80200000, 0x80300000}"
  "pte_of (mem demo_vm) 0x80400000 x = 0" "ptpages (mem demo_vm) 0x80400000 = {0x80400000}"
  "pool demo_vm {0x80200000, 0x80300000}"
proof -
  show p: "page_ok demo_vm 0x80400000"
    by (simp add: demo_vm_def page_ok_demo aligned_def PGSIZE_def V2P_def KERNBASE_def PHYSTOP_def)
  have z: "\<forall>x \<in> page 0x80400000. mem demo_vm x = 0"
  proof
    fix x :: u32 assume "x \<in> page 0x80400000"
    then have "0x80400000 \<le> unat x" using page_mem[of "0x80400000" x] by (simp add: aligned_def PGSIZE_def)
    then have "x \<notin> word_at 0x80200000" by (auto simp: word_at_def)
    then show "mem demo_vm x = 0" by (simp add: demo_vm_def store32_other)
  qed
  show "vm_wf demo_vm 0x80400000 {0x80200000, 0x80300000}"
    by (rule vm_wf_empty(1)[OF p _ z]) simp
  show "pte_of (mem demo_vm) 0x80400000 x = 0" and "ptpages (mem demo_vm) 0x80400000 = {0x80400000}"
    using vm_wf_empty(2,3)[OF p _ z, of "{}"] by simp_all
  show "pool demo_vm {0x80200000, 0x80300000}" unfolding demo_vm_def by (rule pool_demo2)
qed

text \<open>C6: \<open>mappages\<close> on pages that are not mapped yet, with a valid page directory, always
  returns: either with 0, and then the pages of the range map to consecutive page frames from
  \<open>pa\<close> on with the permissions asked for, and every other address keeps its entry; or with -1,
  which happens only when the pool of free pages ran out, after mapping a prefix of the range.
  Only page-table pages and pages taken from the pool are written.\<close>

theorem mappages_maps:
  assumes "pool s F" and "vm_wf s d F" and "va AND 0xFFF = 0" and "unat va + unat len \<le> 2 ^ 32" and "0 < len"
    and "unat len \<le> 0x80000000"
    and "\<And>x. pgidx va x \<le> (unat len - 1) div 4096 \<Longrightarrow> \<not> present (pte_of (mem s) d x)"
  shows "returns (mappages d va len pa perm s) (\<lambda>r t. \<exists>k F'.
    F' \<subseteq> F \<and> pool t F' \<and> vm_wf t d F' \<and> touches s t (ptpages (mem s) d \<union> F) \<and>
    (\<forall>x. pte_of (mem t) d x = (if pgidx va x < k then (pa + of_nat (pgidx va x) * PGSIZE) OR perm OR PTE_P
        else pte_of (mem s) d x)) \<and>
    (r = 0 \<and> k = (unat len - 1) div 4096 + 1 \<or> r = -1 \<and> k \<le> (unat len - 1) div 4096 \<and> F' = {}))"
proof -
  have al: "aligned va" using assms(3) by (simp add: aligned_and)
  then have va: "PGROUNDDOWN va = va" by (simp add: aligned_and PGROUNDDOWN_id)
  obtain j where j: "unat va = 4096 * j" using al by (auto simp: aligned_unat mod_eq_0_iff_dvd elim!: dvdE)
  have s0: "0 < unat len" using assms(5) by (simp add: word_less_nat_alt)
  have "unat (len - 1) = unat len - 1" using s0 by (simp add: unat_minus_one word_neq_0_conv assms(5))
  then have e: "unat (va + len - 1) = unat va + (unat len - 1)"
    using assms(4) s0 by (simp add: add_diff_eq[symmetric] unat_word_ariths)
  have pe: "unat (PGROUNDDOWN (va + len - 1)) = unat va + 4096 * ((unat len - 1) div 4096)"
    by (simp add: unat_PGROUNDDOWN e j)
  then have "unat (PGROUNDDOWN (va + len - 1) - va) = 4096 * ((unat len - 1) div 4096)"
    by (simp add: unat_sub word_le_nat_alt)
  then have n: "unat ((PGROUNDDOWN (va + len - 1) - va) div PGSIZE) = (unat len - 1) div 4096"
    by (simp add: unat_div PGSIZE_def)
  have lt: "(unat len - 1) div 4096 < 2 ^ 20 - 1" using assms(6) by simp
  show ?thesis
    unfolding mappages_def Let_def va n
  proof (rule returns_mono[OF mappages_loop_spec[OF assms(1,2) al lt assms(7)]])
    fix r t assume "\<exists>k F'. mapped_to d s F (map_pte va k pa perm (pte_of (mem s) d)) t F' \<and>
       (r = 0 \<and> k = Suc ((unat len - 1) div 4096) \<or> r = - 1 \<and> k \<le> (unat len - 1) div 4096 \<and> F' = {})"
    then obtain k F' where "mapped_to d s F (map_pte va k pa perm (pte_of (mem s) d)) t F'"
      and "r = 0 \<and> k = Suc ((unat len - 1) div 4096) \<or> r = - 1 \<and> k \<le> (unat len - 1) div 4096 \<and> F' = {}"
      by blast
    then show "\<exists>k F'. F' \<subseteq> F \<and> pool t F' \<and> vm_wf t d F' \<and> touches s t (ptpages (mem s) d \<union> F) \<and>
      (\<forall>x. pte_of (mem t) d x = (if pgidx va x < k then (pa + of_nat (pgidx va x) * PGSIZE) OR perm OR PTE_P
        else pte_of (mem s) d x)) \<and>
      (r = 0 \<and> k = (unat len - 1) div 4096 + 1 \<or> r = -1 \<and> k \<le> (unat len - 1) div 4096 \<and> F' = {})"
      by (intro exI[of _ k] exI[of _ F']) (auto simp: mapped_to_def map_pte_def)
  qed
qed

theorem mappages_maps_witness:
  "returns (mappages 0x80400000 0x1000 0x2000 0x400000 6 demo_vm)
    (\<lambda>r t. r = 0 \<longrightarrow> pte_of (mem t) 0x80400000 0x2abc = 0x401007)"
proof -
  have i: "pgidx 0x1000 0x2abc = 1"
    by (simp add: pgidx_def PGROUNDDOWN_def PGSIZE_def)
  show ?thesis
    by (rule returns_mono[OF mappages_maps[OF demo_vm_wf(5,2), of "0x1000" "0x2000"]])
      (auto simp: demo_vm_wf(3) i PGSIZE_def PTE_P_def)
qed

text \<open>\<open>mappages\<close> never overwrites a mapping: when the first page of the range is mapped
  already it panics, and the tables are as before.\<close>

lemma mappages_no_remap:
  assumes "vm_wf s d F" and "va AND 0xFFF = 0" and "present (pte_of (mem s) d va)"
  shows "mappages d va len pa perm s = Panic ''remap''"
proof -
  have al: "aligned va" using assms(2) by (simp add: aligned_and)
  then have "PGROUNDDOWN va = va" by (simp add: aligned_and PGROUNDDOWN_id)
  then show ?thesis using mappages_remap[OF assms(1) al assms(3)] by (simp add: mappages_def Let_def)
qed

lemma mappages_no_remap_witness:
  "returns (mappages 0x80400000 0x1000 0x1000 0x400000 6 demo_vm)
    (\<lambda>r t. r = 0 \<and> mappages 0x80400000 0x1000 0x1000 0x500000 6 t = Panic ''remap'')"
proof -
  have al: "aligned 0x1000" by (simp add: aligned_def PGSIZE_def)
  have one: "mappages 0x80400000 0x1000 0x1000 0x400000 6 demo_vm = mappages_loop 0x80400000 0x1000 0 0x400000 6 demo_vm"
    by (simp add: mappages_def PGROUNDDOWN_def PGSIZE_def)
  have np: "\<not> present (pte_of (mem demo_vm) 0x80400000 0x1000)" by (simp add: demo_vm_wf(3))
  have "present (0x400000 OR 6 OR PTE_P)" by (simp add: present_def PTE_P_def)
  then show ?thesis
    unfolding one
    by (intro mappages_loop_step[OF demo_vm_wf(5,2) al np])
      (auto simp: mapped_to_def map_pte_def pgidx_def PGROUNDDOWN_def PGSIZE_def intro!: mappages_no_remap)
qed

end
