(* ===== verification/Uvm.thy ===== *)
theory Uvm
  imports VM
begin

text \<open>
  The user half of \<^verbatim>\<open>vm.c\<close>: building, growing, shrinking, freeing and copying a process's
  address space, and copying data into it.

  Loops over the pages of an address range run on fuel \<open>page_fuel\<close>, one more than the number of pages
  of the 32-bit address space.  A loop that uses it up has visited every page and wrapped around, and
  then never ends: the result is \<open>Sleep\<close>, a call that does not return.  The lemmas show
  that the fuel is enough for every call below \<^verbatim>\<open>KERNBASE\<close>.
\<close>

definition page_fuel :: nat where "page_fuel = 2 ^ 20 + 1"

subsection \<open>The kernel's part of a page table\<close>

definition kmap :: "'z mst_scheme \<Rightarrow> (u32 \<times> u32 \<times> u32 \<times> u32) list" where
  "kmap s = [(KERNBASE, 0, EXTMEM, PTE_W),
             (KERNLINK, V2P KERNLINK, V2P (kdata s), 0),
             (kdata s, V2P (kdata s), PHYSTOP, PTE_W),
             (DEVSPACE, DEVSPACE, 0, PTE_W)]"

fun map_kmap :: "u32 \<Rightarrow> (u32 \<times> u32 \<times> u32 \<times> u32) list \<Rightarrow> 'z mst_scheme \<Rightarrow> (int, 'z mst_scheme) outcome" where
  "map_kmap d [] s = Ret 0 s"
| "map_kmap d ((virt, phys_start, phys_end, perm) # ks) s =
     bnd (mappages d virt (phys_end - phys_start) phys_start perm s) (\<lambda>r s.
     if r < 0 then Ret (-1) s else map_kmap d ks s)"

subsection \<open>Shrinking and freeing\<close>

fun deallocuvm_loop :: "nat \<Rightarrow> u32 \<Rightarrow> u32 \<Rightarrow> u32 \<Rightarrow> 'z mst_scheme \<Rightarrow> (unit, 'z mst_scheme) outcome" where
  "deallocuvm_loop 0 d a oldsz s = Sleep s"
| "deallocuvm_loop (Suc fuel) d a oldsz s =
     (if \<not> a < oldsz then Ret () s
      else bnd (walkpgdir d a False s) (\<lambda>pte s.
        if pte = 0 then
          deallocuvm_loop fuel d (PGADDR (PDX a + 1) 0 0 - PGSIZE + PGSIZE) oldsz s
        else if load32 (mem s) pte AND PTE_P \<noteq> 0 then
          (let pa = PTE_ADDR (load32 (mem s) pte) in
           if pa = 0 then Panic ''kfree''
           else bnd (kfree (P2V pa) s) (\<lambda>_ s.
             deallocuvm_loop fuel d (a + PGSIZE) oldsz (s\<lparr>mem := store32 (mem s) pte 0\<rparr>)))
        else deallocuvm_loop fuel d (a + PGSIZE) oldsz s))"

definition deallocuvm :: "u32 \<Rightarrow> u32 \<Rightarrow> u32 \<Rightarrow> 'z mst_scheme \<Rightarrow> (u32, 'z mst_scheme) outcome" where
  "deallocuvm d oldsz newsz s =
     (if newsz \<ge> oldsz then Ret oldsz s
      else bnd (deallocuvm_loop page_fuel d (PGROUNDUP newsz) oldsz s) (\<lambda>_ s. Ret newsz s))"

fun freevm_tables :: "u32 \<Rightarrow> nat list \<Rightarrow> 'z mst_scheme \<Rightarrow> (unit, 'z mst_scheme) outcome" where
  "freevm_tables d [] s = Ret () s"
| "freevm_tables d (i # is) s =
     (let e = load32 (mem s) (d + 4 * of_nat i) in
      if e AND PTE_P \<noteq> 0 then bnd (kfree (P2V (PTE_ADDR e)) s) (\<lambda>_ s. freevm_tables d is s)
      else freevm_tables d is s)"

definition freevm :: "u32 \<Rightarrow> 'z mst_scheme \<Rightarrow> (unit, 'z mst_scheme) outcome" where
  "freevm d s =
     (if d = 0 then Panic ''freevm: no pgdir''
      else bnd (deallocuvm d KERNBASE 0 s) (\<lambda>_ s.
           bnd (freevm_tables d [0..<NPDENTRIES] s) (\<lambda>_ s.
           kfree d s)))"

subsection \<open>Creating and growing\<close>

definition setupkvm :: "'z mst_scheme \<Rightarrow> (u32, 'z mst_scheme) outcome" where
  "setupkvm s =
     bnd (kalloc s) (\<lambda>pgd s.
     if pgd = 0 then Ret 0 s
     else
       let s = s\<lparr>mem := memset (mem s) pgd 0 PGSIZE\<rparr> in
       if P2V PHYSTOP > DEVSPACE then Panic ''PHYSTOP too high''
       else bnd (map_kmap pgd (kmap s) s) (\<lambda>r s.
         if r < 0 then bnd (freevm pgd s) (\<lambda>_ s. Ret 0 s)
         else Ret pgd s))"

definition kvmalloc :: "'z mst_scheme \<Rightarrow> (unit, 'z mst_scheme) outcome" where
  "kvmalloc s = bnd (setupkvm s) (\<lambda>d s. Ret () (switchkvm (s\<lparr>kpgdir := d\<rparr>)))"

text \<open>Copying bytes that are not in the modelled memory (a buffer of the caller) into it.\<close>

primrec store_bytes :: "memory \<Rightarrow> u32 \<Rightarrow> u8 list \<Rightarrow> memory" where
  "store_bytes m a [] = m"
| "store_bytes m a (b # bs) = store_bytes (m(a := b)) (a + 1) bs"

definition load_bytes :: "memory \<Rightarrow> u32 \<Rightarrow> nat \<Rightarrow> u8 list" where
  "load_bytes m a n = map (\<lambda>i. m (a + of_nat i)) [0..<n]"

definition inituvm :: "u32 \<Rightarrow> u8 list \<Rightarrow> 'z mst_scheme \<Rightarrow> (unit, 'z mst_scheme) outcome" where
  "inituvm pgd init s =
     (if length init \<ge> unat PGSIZE then Panic ''inituvm: more than a page''
      else bnd (kalloc s) (\<lambda>p s.
        let s = s\<lparr>mem := memset (mem s) p 0 PGSIZE\<rparr> in
        bnd (mappages pgd 0 PGSIZE (V2P p) (PTE_W OR PTE_U) s) (\<lambda>_ s.
        Ret () (s\<lparr>mem := store_bytes (mem s) p init\<rparr>))))"

fun allocuvm_loop :: "nat \<Rightarrow> u32 \<Rightarrow> u32 \<Rightarrow> u32 \<Rightarrow> u32 \<Rightarrow> 'z mst_scheme \<Rightarrow> (u32, 'z mst_scheme) outcome" where
  "allocuvm_loop 0 d a oldsz newsz s = Sleep s"
| "allocuvm_loop (Suc fuel) d a oldsz newsz s =
     (if \<not> a < newsz then Ret newsz s
      else bnd (kalloc s) (\<lambda>p s.
        if p = 0 then bnd (deallocuvm d newsz oldsz s) (\<lambda>_ s. Ret 0 s)
        else
          let s = s\<lparr>mem := memset (mem s) p 0 PGSIZE\<rparr> in
          bnd (mappages d a PGSIZE (V2P p) (PTE_W OR PTE_U) s) (\<lambda>r s.
          if r < 0 then
            bnd (deallocuvm d newsz oldsz s) (\<lambda>_ s.
            bnd (kfree p s) (\<lambda>_ s. Ret 0 s))
          else allocuvm_loop fuel d (a + PGSIZE) oldsz newsz s)))"

definition allocuvm :: "u32 \<Rightarrow> u32 \<Rightarrow> u32 \<Rightarrow> 'z mst_scheme \<Rightarrow> (u32, 'z mst_scheme) outcome" where
  "allocuvm d oldsz newsz s =
     (if newsz \<ge> KERNBASE then Ret 0 s
      else if newsz < oldsz then Ret oldsz s
      else allocuvm_loop page_fuel d (PGROUNDUP oldsz) oldsz newsz s)"

definition clearpteu :: "u32 \<Rightarrow> u32 \<Rightarrow> 'z mst_scheme \<Rightarrow> (unit, 'z mst_scheme) outcome" where
  "clearpteu d uva s =
     bnd (walkpgdir d uva False s) (\<lambda>pte s.
     if pte = 0 then Panic ''clearpteu''
     else Ret () (s\<lparr>mem := store32 (mem s) pte (load32 (mem s) pte AND NOT PTE_U)\<rparr>))"

fun copyuvm_loop :: "nat \<Rightarrow> u32 \<Rightarrow> u32 \<Rightarrow> u32 \<Rightarrow> u32 \<Rightarrow> 'z mst_scheme \<Rightarrow> (int, 'z mst_scheme) outcome" where
  "copyuvm_loop 0 pgd d i len s = Sleep s"
| "copyuvm_loop (Suc fuel) pgd d i len s =
     (if \<not> i < len then Ret 0 s
      else bnd (walkpgdir pgd i False s) (\<lambda>pte s.
        if pte = 0 then Panic ''copyuvm: pte should exist''
        else if load32 (mem s) pte AND PTE_P = 0 then Panic ''copyuvm: page not present''
        else
          let pa = PTE_ADDR (load32 (mem s) pte);
              flags = PTE_FLAGS (load32 (mem s) pte)
          in bnd (kalloc s) (\<lambda>p s.
             if p = 0 then Ret (-1) s
             else
               let s = s\<lparr>mem := memmove (mem s) p (P2V pa) PGSIZE\<rparr> in
               bnd (mappages d i PGSIZE (V2P p) flags s) (\<lambda>r s.
               if r < 0 then bnd (kfree p s) (\<lambda>_ s. Ret (-1) s)
               else copyuvm_loop fuel pgd d (i + PGSIZE) len s))))"

definition copyuvm :: "u32 \<Rightarrow> u32 \<Rightarrow> 'z mst_scheme \<Rightarrow> (u32, 'z mst_scheme) outcome" where
  "copyuvm pgd len s =
     bnd (setupkvm s) (\<lambda>d s.
     if d = 0 then Ret 0 s
     else bnd (copyuvm_loop page_fuel pgd d 0 len s) (\<lambda>r s.
       if r < 0 then bnd (freevm d s) (\<lambda>_ s. Ret 0 s) else Ret d s))"

subsection \<open>Reading and writing another address space\<close>

text \<open>\<^verbatim>\<open>uva2ka\<close> does not test the pointer \<open>walkpgdir\<close> returns: with no page table it reads the
  word at address 0.\<close>

definition uva2ka :: "u32 \<Rightarrow> u32 \<Rightarrow> 'z mst_scheme \<Rightarrow> (u32, 'z mst_scheme) outcome" where
  "uva2ka d uva s =
     bnd (walkpgdir d uva False s) (\<lambda>pte s.
     let e = load32 (mem s) pte in
     if e AND PTE_P = 0 then Ret 0 s
     else if e AND PTE_U = 0 then Ret 0 s
     else Ret (P2V (PTE_ADDR e)) s)"

text \<open>\<open>copyout\<close> with the \<^verbatim>\<open>len\<close> bytes at \<^verbatim>\<open>p\<close> as a list.\<close>

definition copyout_chunk :: "u32 \<Rightarrow> u8 list \<Rightarrow> nat" where
  "copyout_chunk va buf = min (unat (PGSIZE - (va - PGROUNDDOWN va))) (length buf)"

lemma page_offset: "unat (va - PGROUNDDOWN va) = unat va mod 4096"
proof -
  have "PGROUNDDOWN va \<le> va" by (simp add: PGROUNDDOWN_def word_and_le2)
  then have "unat (va - PGROUNDDOWN va) = unat va - 4096 * (unat va div 4096)"
    by (simp add: unat_sub unat_PGROUNDDOWN)
  then show ?thesis by (simp add: minus_mult_div_eq_mod)
qed

lemma page_room: "unat (PGSIZE - (va - PGROUNDDOWN va)) = 4096 - unat va mod 4096"
proof -
  have "va - PGROUNDDOWN va \<le> PGSIZE"
    using page_offset[of va] by (simp add: word_le_nat_alt PGSIZE_def)
  then show ?thesis by (simp add: unat_sub page_offset PGSIZE_def)
qed

lemma copyout_chunk_pos: "buf \<noteq> [] \<Longrightarrow> 0 < copyout_chunk va buf"
  by (simp add: copyout_chunk_def page_room)

function copyout :: "u32 \<Rightarrow> u32 \<Rightarrow> u8 list \<Rightarrow> 'z mst_scheme \<Rightarrow> (int, 'z mst_scheme) outcome" where
  "copyout d va buf s =
     (if buf = [] then Ret 0 s
      else
        let va0 = PGROUNDDOWN va in
        bnd (uva2ka d va0 s) (\<lambda>pa0 s.
        if pa0 = 0 then Ret (-1) s
        else
          let n = copyout_chunk va buf;
              s = s\<lparr>mem := store_bytes (mem s) (pa0 + (va - va0)) (take n buf)\<rparr>
          in copyout d (va0 + PGSIZE) (drop n buf) s))"
  by pat_completeness auto
termination
  by (relation "measure (\<lambda>(d, va, buf, s). length buf)") (auto simp: copyout_chunk_pos)

declare copyout.simps [simp del]

subsection \<open>The invariant of a user address space\<close>

text \<open>Every user page is a page frame of its own, outside the free pool and the page
  tables.\<close>

definition uvm_wf :: "'z mst_scheme \<Rightarrow> u32 \<Rightarrow> u32 set \<Rightarrow> bool" where
  "uvm_wf s d F = (vm_wf s d F \<and> KERNBASE < kend s \<and>
     (\<forall>x < KERNBASE. present (pte_of (mem s) d x) \<longrightarrow>
        page_ok s (tab (pte_of (mem s) d x)) \<and> tab (pte_of (mem s) d x) \<notin> F \<union> ptpages (mem s) d) \<and>
     (\<forall>x < KERNBASE. \<forall>y < KERNBASE. present (pte_of (mem s) d x) \<and> present (pte_of (mem s) d y) \<and>
        tab (pte_of (mem s) d x) = tab (pte_of (mem s) d y) \<longrightarrow> PGROUNDDOWN x = PGROUNDDOWN y))"

lemma uvm_wfD:
  assumes "uvm_wf s d F"
  shows "vm_wf s d F" and "KERNBASE < kend s"
    and "x < KERNBASE \<Longrightarrow> present (pte_of (mem s) d x) \<Longrightarrow> page_ok s (tab (pte_of (mem s) d x))"
    and "x < KERNBASE \<Longrightarrow> present (pte_of (mem s) d x) \<Longrightarrow> tab (pte_of (mem s) d x) \<notin> F"
    and "x < KERNBASE \<Longrightarrow> present (pte_of (mem s) d x) \<Longrightarrow> tab (pte_of (mem s) d x) \<notin> ptpages (mem s) d"
    and "x < KERNBASE \<Longrightarrow> y < KERNBASE \<Longrightarrow> present (pte_of (mem s) d x) \<Longrightarrow> present (pte_of (mem s) d y) \<Longrightarrow>
      tab (pte_of (mem s) d x) = tab (pte_of (mem s) d y) \<Longrightarrow> PGROUNDDOWN x = PGROUNDDOWN y"
  using assms unfolding uvm_wf_def by blast+

lemma ptpages_ok: "vm_wf s d F \<Longrightarrow> p \<in> ptpages (mem s) d \<Longrightarrow> page_ok s p \<and> p \<notin> F"
  by (auto simp: ptpages_def vm_wf_def)

text \<open>What happens outside the page tables does not change the mapping.\<close>

lemma tables_frame:
  assumes wf: "vm_wf s d F" and same: "\<forall>p \<in> ptpages (mem s) d. \<forall>x \<in> page p. m x = mem s x"
  shows "i < 1024 \<Longrightarrow> pde m d i = pde (mem s) d i" and "pte_of m d x = pte_of (mem s) d x"
    and "ptpages m d = ptpages (mem s) d"
proof -
  have d: "d \<in> ptpages (mem s) d" by (simp add: ptpages_def)
  have ld: "load32 m (p + 4 * of_nat i) = load32 (mem s) (p + 4 * of_nat i)"
    if "p \<in> ptpages (mem s) d" and "i < 1024" for p i
    using ptpages_ok[OF wf that(1)] word_in_page[OF page_ok_aligned that(2), of s p] same that(1)
    by (intro load32_cong) auto
  show pd: "pde m d i = pde (mem s) d i" if "i < 1024" for i
    using ld[OF d that] by (simp add: pde_def)
  have "tab (pde (mem s) d (pdx x)) \<in> ptpages (mem s) d" if "present (pde (mem s) d (pdx x))"
    using that pdx_less by (auto simp: ptpages_def)
  then show "pte_of m d x = pte_of (mem s) d x"
    using pd[OF pdx_less, of x] ld[OF _ ptx_less] by (auto simp: pte_of_def simp del: of_nat_ptx)
  show "ptpages m d = ptpages (mem s) d" by (auto simp: ptpages_def pd) (metis pd)
qed

lemma vm_wf_frame:
  assumes wf: "vm_wf s d F" and same: "\<forall>p \<in> ptpages (mem s) d. \<forall>x \<in> page p. mem t x = mem s x"
    and "page_ok t = page_ok s" and "\<And>p. p \<in> ptpages (mem s) d \<Longrightarrow> p \<notin> F'"
  shows "vm_wf t d F'"
proof -
  note pd = tables_frame(1)[OF wf same]
  have F': "d \<notin> F'" "i < 1024 \<Longrightarrow> present (pde (mem s) d i) \<Longrightarrow> tab (pde (mem s) d i) \<notin> F'" for i
    using assms(4) by (auto simp: ptpages_def)
  show ?thesis
    using wf F' unfolding vm_wf_def assms(3) by (simp add: pd)
qed

lemma present_frame_in_tables:
  assumes "vm_wf s d F" and "present (pte_of (mem s) d x)"
  shows "present (pde (mem s) d (pdx x))"
    and "walkpgdir d x False s = Ret (tab (pde (mem s) d (pdx x)) + 4 * PTX x) s"
    and "tab (pde (mem s) d (pdx x)) + 4 * PTX x \<noteq> 0"
    and "load32 (mem s) (tab (pde (mem s) d (pdx x)) + 4 * PTX x) = pte_of (mem s) d x"
proof -
  show p: "present (pde (mem s) d (pdx x))"
    using assms(2) by (auto simp: pte_of_def present_def split: if_splits)
  show "walkpgdir d x False s = Ret (tab (pde (mem s) d (pdx x)) + 4 * PTX x) s"
    by (rule walkpgdir_present[OF p])
  have "page_ok s (tab (pde (mem s) d (pdx x)))" using assms(1) p pdx_less by (auto simp: vm_wf_def)
  then show "tab (pde (mem s) d (pdx x)) + 4 * PTX x \<noteq> 0" by (metis slot_not0 ptx_less of_nat_ptx)
  show "load32 (mem s) (tab (pde (mem s) d (pdx x)) + 4 * PTX x) = pte_of (mem s) d x"
    using p by (simp add: pte_of_def)
qed

text \<open>One page is given back: the frame goes to the pool, its entry becomes 0.\<close>

lemma unmap_step:
  assumes wf: "uvm_wf s d F" and pl: "pool s F" and x: "x < KERNBASE" and pr: "present (pte_of (mem s) d x)"
  defines "v \<equiv> tab (pte_of (mem s) d x)"
  defines "s1 \<equiv> s\<lparr>mem := kfree_mem v s, freelist := v\<rparr>"
  defines "t \<equiv> s1\<lparr>mem := store32 (mem s1) (tab (pde (mem s) d (pdx x)) + 4 * PTX x) 0\<rparr>"
  shows "kfree v s = Ret () s1" and "uvm_wf t d (insert v F)" and "pool t (insert v F)" and "only_mem s t"
    and "touches s t (insert v (ptpages (mem s) d))" and "ptpages (mem t) d = ptpages (mem s) d"
    and "pte_of (mem t) d y = (if PGROUNDDOWN y = PGROUNDDOWN x then 0 else pte_of (mem s) d y)"
proof -
  note D = uvm_wfD[OF wf]
  have v: "page_ok s v" "v \<notin> F" "v \<notin> ptpages (mem s) d" using D(3,4,5)[OF x pr] by (simp_all add: v_def)
  show kf: "kfree v s = Ret () s1"
    using kfree_run[OF v(1)] pl by (simp add: s1_def pool_def)
  have same: "\<forall>p \<in> ptpages (mem s) d. \<forall>y \<in> page p. mem s1 y = mem s y"
  proof (intro ballI)
    fix p y assume that: "p \<in> ptpages (mem s) d" "y \<in> page p"
    have "page p \<inter> page v = {}"
      using pages_disjoint[of p v] ptpages_ok[OF D(1) that(1)] v(1,3) that(1) by (auto simp: page_ok_def)
    then show "mem s1 y = mem s y" using that(2) kfree_mem_other[OF page_ok_aligned[OF v(1)]] by (auto simp: s1_def)
  qed
  have ok1: "page_ok s1 = page_ok s" by (simp add: s1_def fun_eq_iff page_ok_def)
  have wf1: "vm_wf s1 d (insert v F)"
    by (rule vm_wf_frame[OF D(1) same ok1]) (use ptpages_ok[OF D(1)] v(3) in auto)
  note fr = tables_frame[OF D(1) same]
  have pl1: "pool s1 (insert v F)"
    using kmem.give_page[OF pl v(1,2)] by (simp add: kf)
  have pr1: "present (pde (mem s1) d (pdx x))"
    using present_frame_in_tables(1)[OF D(1) pr] fr(1)[OF pdx_less] by simp
  note we = write_entry[OF wf1 pl1 pr1, of 0, unfolded fr(1)[OF pdx_less]]
  have tm: "mem t = store32 (mem s1) (tab (pde (mem s) d (pdx x)) + 4 * PTX x) 0" by (simp add: t_def)
  show pt: "pte_of (mem t) d y = (if PGROUNDDOWN y = PGROUNDDOWN x then 0 else pte_of (mem s) d y)" for y
    unfolding tm we(1) by (simp add: fr(2))
  show ptp: "ptpages (mem t) d = ptpages (mem s) d" unfolding tm we(5) by (rule fr(3))
  show "pool t (insert v F)" unfolding t_def by (rule we(3))
  show "only_mem s t" by (simp add: only_mem_def t_def s1_def)
  have "touches s s1 {v}"
    using kfree_mem_other[OF page_ok_aligned[OF v(1)]] by (auto simp: touches_def s1_def)
  then show "touches s t (insert v (ptpages (mem s) d))"
    using we(4) unfolding t_def[symmetric] fr(3)
    by (meson touches_mono touches_trans subset_insertI insert_mono empty_subsetI)
  have okt: "page_ok t = page_ok s" by (simp add: t_def s1_def fun_eq_iff page_ok_def)
  have wft: "vm_wf t d (insert v F)" unfolding t_def by (rule we(2))
  have keep: "present (pte_of (mem t) d y) \<Longrightarrow> pte_of (mem t) d y = pte_of (mem s) d y \<and> PGROUNDDOWN y \<noteq> PGROUNDDOWN x" for y
    by (auto simp: pt present_def split: if_splits)
  show "uvm_wf t d (insert v F)"
    unfolding uvm_wf_def
  proof (intro conjI allI impI)
    show "KERNBASE < kend t" using D(2) by (simp add: t_def s1_def)
  next
    fix y assume y: "y < KERNBASE" "present (pte_of (mem t) d y)"
    then show "page_ok t (tab (pte_of (mem t) d y))" using keep D(3)[of y] okt by metis
    have "tab (pte_of (mem s) d y) \<noteq> v" using keep[OF y(2)] D(6)[OF y(1) x _ pr] y(2) unfolding v_def by metis
    then show "tab (pte_of (mem t) d y) \<notin> insert v F \<union> ptpages (mem t) d"
      using keep[OF y(2)] D(4,5)[OF y(1)] y(2) unfolding ptp by auto
  next
    fix y z assume "y < KERNBASE" "z < KERNBASE" "present (pte_of (mem t) d y) \<and> present (pte_of (mem t) d z)
      \<and> tab (pte_of (mem t) d y) = tab (pte_of (mem t) d z)"
    then show "PGROUNDDOWN y = PGROUNDDOWN z" using keep D(6) by metis
  qed (rule wft)
qed

subsection \<open>deallocuvm\<close>

text \<open>The address \<open>x\<close> lies in a page between the page address \<open>a\<close> and \<open>e\<close>; \<open>frames\<close> are the
  page frames mapped there.\<close>

definition in_pages :: "u32 \<Rightarrow> u32 \<Rightarrow> u32 \<Rightarrow> bool" where
  "in_pages a e x = (a \<le> PGROUNDDOWN x \<and> PGROUNDDOWN x < e)"

definition frames :: "memory \<Rightarrow> u32 \<Rightarrow> u32 \<Rightarrow> u32 \<Rightarrow> u32 set" where
  "frames m d a e = {tab (pte_of m d x) | x. in_pages a e x \<and> present (pte_of m d x)}"

lemma base_parts: "unat (PGROUNDDOWN x) mod 4096 = 0" "unat (PGROUNDDOWN x) \<le> unat x"
  "unat x < unat (PGROUNDDOWN x) + 4096"
  by (simp_all add: unat_PGROUNDDOWN)

lemma base_block: obtains k where "unat (PGROUNDDOWN x) = 4096 * k"
  using that unat_PGROUNDDOWN by blast

lemma div_block:
  assumes "0 < (M :: nat)" and "b div M \<noteq> a div M"
  shows "a \<le> b \<longleftrightarrow> (a div M + 1) * M \<le> b"
proof -
  have "(a div M + 1) * M \<le> b \<longleftrightarrow> a div M < b div M"
    using less_eq_div_iff_mult_less_eq[OF assms(1), of "a div M + 1" b] by auto
  moreover have "a \<le> b \<longleftrightarrow> a div M < b div M"
    using div_le_mono[of a b M] div_le_mono[of b a M] assms(2) by (metis le_antisym nat_le_linear not_less)
  ultimately show ?thesis by blast
qed

lemma in_pages_next:
  assumes a: "aligned a" and "a < e" and e: "e \<le> KERNBASE"
  shows "in_pages a e x \<longleftrightarrow> PGROUNDDOWN x = a \<or> in_pages (a + PGSIZE) e x"
    and "unat (a + PGSIZE) = unat a + 4096"
proof -
  have le: "unat a < 2147483648" using assms(2,3) by (simp add: KERNBASE_def word_less_nat_alt word_le_nat_alt)
  then show u: "unat (a + PGSIZE) = unat a + 4096" by (simp add: PGSIZE_def unat_word_ariths)
  obtain k where k: "unat a = 4096 * k" using a by (auto simp: aligned_unat mod_eq_0_iff_dvd elim!: dvdE)
  obtain j where j: "unat (PGROUNDDOWN x) = 4096 * j" by (rule base_block)
  have "unat a \<le> unat (PGROUNDDOWN x) \<longleftrightarrow> unat (PGROUNDDOWN x) = unat a \<or> unat a + 4096 \<le> unat (PGROUNDDOWN x)"
    unfolding k j by auto
  then show "in_pages a e x \<longleftrightarrow> PGROUNDDOWN x = a \<or> in_pages (a + PGSIZE) e x"
    using assms(2) by (auto simp: in_pages_def word_le_nat_alt word_less_nat_alt word_unat_eq_iff u)
qed

lemma in_pages_user: "in_pages a e x \<Longrightarrow> e \<le> KERNBASE \<Longrightarrow> x < KERNBASE"
proof -
  assume "in_pages a e x" "e \<le> KERNBASE"
  moreover obtain j where j: "unat (PGROUNDDOWN x) = 4096 * j" by (rule base_block)
  ultimately have "4096 * j < 2147483648"
    by (simp add: in_pages_def KERNBASE_def word_le_nat_alt word_less_nat_alt)
  then show ?thesis using base_parts(3)[of x] by (simp add: j KERNBASE_def word_less_nat_alt)
qed

text \<open>The step over a missing page table: to the first address of the next directory entry.\<close>

lemma pdx_nat: "pdx a = unat a div 4194304"
proof -
  have "drop_bit 22 a AND 0x3FF = drop_bit 22 a"
    unfolding mask10 by (rule bit_word_eqI) (auto simp: bit_simps dest: bit_imp_le_length)
  then show ?thesis by (simp add: pdx_def PDX_def drop_bit_eq_div unat_div)
qed

lemma skip_table:
  assumes "a < KERNBASE"
  shows "unat (PGADDR (PDX a + 1) 0 0) = (pdx a + 1) * 4194304" and "aligned (PGADDR (PDX a + 1) 0 0)"
    and "unat a + 1 \<le> unat (PGADDR (PDX a + 1) 0 0)"
proof -
  have p: "pdx a < 512" using assms by (simp add: pdx_nat KERNBASE_def word_less_nat_alt)
  define w where "w = PDX a + 1"
  have w: "unat w = pdx a + 1" using p by (simp add: w_def pdx_def unat_word_ariths)
  have "unat (w * 4194304) = (pdx a + 1) * 4194304" using p by (simp add: unat_word_ariths w)
  then show u: "unat (PGADDR (PDX a + 1) 0 0) = (pdx a + 1) * 4194304"
    by (simp add: PGADDR_def push_bit_eq_mult w_def)
  then show "aligned (PGADDR (PDX a + 1) 0 0)" by (simp add: aligned_unat)
  show "unat a + 1 \<le> unat (PGADDR (PDX a + 1) 0 0)"
    unfolding u pdx_nat using div_mult_mod_eq[of "unat a" 4194304] mod_less_divisor[of 4194304 "unat a"] by simp
qed

lemma in_pages_skip:
  assumes a: "aligned a" "a < KERNBASE" and "\<not> present (pde (mem s) d (pdx a))"
    and x: "present (pte_of (mem s) d x)"
  shows "in_pages a e x \<longleftrightarrow> in_pages (PGADDR (PDX a + 1) 0 0) e x"
proof -
  have "present (pde (mem s) d (pdx x))"
    using x by (auto simp: pte_of_def present_def split: if_splits)
  then have "pdx (PGROUNDDOWN x) \<noteq> pdx a" using assms(3) by auto
  then have "unat a \<le> unat (PGROUNDDOWN x) \<longleftrightarrow> (pdx a + 1) * 4194304 \<le> unat (PGROUNDDOWN x)"
    unfolding pdx_nat by (intro div_block) simp_all
  then show ?thesis
    by (auto simp: in_pages_def word_le_nat_alt skip_table(1)[OF a(2)])
qed

definition unmapped :: "u32 \<Rightarrow> 'z mst_scheme \<Rightarrow> u32 set \<Rightarrow> u32 \<Rightarrow> u32 \<Rightarrow> 'z mst_scheme \<Rightarrow> bool" where
  "unmapped d s F a e t = (
     pool t (F \<union> frames (mem s) d a e) \<and> uvm_wf t d (F \<union> frames (mem s) d a e) \<and> only_mem s t \<and>
     touches s t (ptpages (mem s) d \<union> frames (mem s) d a e) \<and> ptpages (mem t) d = ptpages (mem s) d \<and>
     (\<forall>x. pte_of (mem t) d x =
        (if in_pages a e x \<and> present (pte_of (mem s) d x) then 0 else pte_of (mem s) d x)))"

lemma unmapped_none:
  assumes "uvm_wf s d F" and "pool s F" and "\<And>x. in_pages a e x \<Longrightarrow> \<not> present (pte_of (mem s) d x)"
  shows "unmapped d s F a e s"
proof -
  have "frames (mem s) d a e = {}" using assms(3) by (auto simp: frames_def)
  then show ?thesis using assms by (auto simp: unmapped_def touches_def)
qed

lemma unmapped_cong:
  assumes "unmapped d s F b e t" and "\<And>x. present (pte_of (mem s) d x) \<Longrightarrow> in_pages a e x = in_pages b e x"
  shows "unmapped d s F a e t"
proof -
  have "frames (mem s) d a e = frames (mem s) d b e" using assms(2) by (auto simp: frames_def)
  then show ?thesis using assms by (auto simp: unmapped_def)
qed

lemma unmapped_step:
  assumes wf: "uvm_wf s d F" and pl: "pool s F" and a: "aligned a" "a < e" "e \<le> KERNBASE"
    and pr: "present (pte_of (mem s) d a)"
    and st: "uvm_wf t d (insert v F)" "only_mem s t" "touches s t (insert v (ptpages (mem s) d))"
      "ptpages (mem t) d = ptpages (mem s) d"
      "\<And>y. pte_of (mem t) d y = (if PGROUNDDOWN y = PGROUNDDOWN a then 0 else pte_of (mem s) d y)"
    and v: "v = tab (pte_of (mem s) d a)"
    and u: "unmapped d t (insert v F) (a + PGSIZE) e u"
  shows "unmapped d s F a e u"
proof -
  have aa: "PGROUNDDOWN a = a" using a(1) by (simp add: aligned_and PGROUNDDOWN_id)
  note nx = in_pages_next(1)[OF a]
  have notin: "\<not> in_pages (a + PGSIZE) e x" if "PGROUNDDOWN x = a" for x
    using in_pages_next(2)[OF a] that by (auto simp: in_pages_def word_le_nat_alt)
  have fr: "frames (mem s) d a e = insert v (frames (mem t) d (a + PGSIZE) e)"
  proof -
    have "frames (mem t) d (a + PGSIZE) e = frames (mem s) d (a + PGSIZE) e"
    proof -
      have "in_pages (a + PGSIZE) e x \<Longrightarrow> pte_of (mem t) d x = pte_of (mem s) d x" for x
        using notin by (auto simp: st(5) aa)
      then show ?thesis unfolding frames_def by (intro Collect_cong ex_cong1) auto
    qed
    moreover have "frames (mem s) d a e = insert v (frames (mem s) d (a + PGSIZE) e)"
    proof
      show "frames (mem s) d a e \<subseteq> insert v (frames (mem s) d (a + PGSIZE) e)"
      proof
        fix q assume "q \<in> frames (mem s) d a e"
        then obtain x where x: "q = tab (pte_of (mem s) d x)" "in_pages a e x" "present (pte_of (mem s) d x)"
          by (auto simp: frames_def)
        show "q \<in> insert v (frames (mem s) d (a + PGSIZE) e)"
        proof (cases "PGROUNDDOWN x = a")
          case True
          then have "pte_of (mem s) d x = pte_of (mem s) d a" using aa by (intro pte_of_page) simp
          then show ?thesis by (simp add: x(1) v)
        next
          case False
          then show ?thesis using x nx by (auto simp: frames_def)
        qed
      qed
      show "insert v (frames (mem s) d (a + PGSIZE) e) \<subseteq> frames (mem s) d a e"
        unfolding frames_def v using nx[of a] nx pr aa by fastforce
    qed
    ultimately show ?thesis by simp
  qed
  have "touches s u (ptpages (mem s) d \<union> frames (mem s) d a e)"
    using st(3,4) u unfolding unmapped_def fr
    by (intro touches_trans[of s t _ u]) (auto elim!: touches_mono)
  moreover have "only_mem s u" using only_mem_trans[OF st(2)] u by (simp add: unmapped_def)
  moreover have "pte_of (mem u) d x =
      (if in_pages a e x \<and> present (pte_of (mem s) d x) then 0 else pte_of (mem s) d x)" for x
    using u pr pte_of_page[of x a "mem s" d] unfolding unmapped_def by (auto simp: st(5) nx aa)
  ultimately show ?thesis using u unfolding unmapped_def fr st(4) by auto
qed

declare deallocuvm_loop.simps(2) [simp del]

lemma deallocuvm_loop_spec:
  assumes "uvm_wf s d F" and "pool s F" and "aligned a" and "e \<le> KERNBASE"
    and "unat e \<le> unat a + 4096 * n"
  shows "returns (deallocuvm_loop (Suc n) d a e s) (\<lambda>_ t. unmapped d s F a e t)"
  using assms
proof (induction n arbitrary: a s F)
  case 0
  then have "\<not> a < e" by (simp add: word_less_nat_alt)
  then have "unmapped d s F a e s" by (intro unmapped_none[OF 0(1,2)]) (auto simp: in_pages_def)
  then show ?case using \<open>\<not> a < e\<close> by (simp add: deallocuvm_loop.simps(2)[of 0])
next
  case (Suc n)
  note D = uvm_wfD[OF Suc.prems(1)]
  show ?case
  proof (cases "a < e")
    case False
    then have "unmapped d s F a e s" by (intro unmapped_none[OF Suc.prems(1,2)]) (auto simp: in_pages_def)
    then show ?thesis using False by (simp add: deallocuvm_loop.simps(2)[of "Suc n"])
  next
    case True
    have ak: "a < KERNBASE" using True Suc.prems(4) by simp
    have aa: "PGROUNDDOWN a = a" using Suc.prems(3) by (simp add: aligned_and PGROUNDDOWN_id)
    note nx = in_pages_next[OF Suc.prems(3) True Suc.prems(4)]
    note al = aligned_add[OF Suc.prems(3) aligned_PGSIZE]
    have fuel: "unat e \<le> unat (a + PGSIZE) + 4096 * n" using nx(2) Suc.prems(5) by simp
    show ?thesis
    proof (cases "present (pte_of (mem s) d a)")
      case pr: True
      note w = present_frame_in_tables[OF D(1) pr]
      let ?v = "tab (pte_of (mem s) d a)"
      note us = unmap_step[OF Suc.prems(1,2) ak pr]
      have nz: "PTE_ADDR (pte_of (mem s) d a) \<noteq> 0"
        using D(2) D(3)[OF ak pr] by (auto simp: page_ok_def tab_def P2V_def)
      have run: "deallocuvm_loop (Suc (Suc n)) d a e s = deallocuvm_loop (Suc n) d (a + PGSIZE) e
         (s\<lparr>mem := kfree_mem ?v s, freelist := ?v\<rparr>
           \<lparr>mem := store32 (kfree_mem ?v s) (tab (pde (mem s) d (pdx a)) + 4 * PTX a) 0\<rparr>)"
        using True w nz us(1) pr by (simp add: present_def Let_def tab_def deallocuvm_loop.simps(2)[of "Suc n"])
      show ?thesis
        unfolding run
        by (rule returns_mono[OF Suc.IH])
          (use us fuel al Suc.prems(4) in \<open>auto intro: unmapped_step[OF Suc.prems(1,2,3) True Suc.prems(4) pr us(2,4,5,6,7) refl]\<close>)
    next
      case npr: False
      show ?thesis
      proof (cases "present (pde (mem s) d (pdx a))")
        case True
        have pok: "page_ok s (tab (pde (mem s) d (pdx a)))" using D(1) True pdx_less by (auto simp: vm_wf_def)
        then have "tab (pde (mem s) d (pdx a)) + 4 * PTX a \<noteq> 0" by (metis slot_not0 ptx_less of_nat_ptx)
        then have run: "deallocuvm_loop (Suc (Suc n)) d a e s = deallocuvm_loop (Suc n) d (a + PGSIZE) e s"
          using \<open>a < e\<close> npr True by (simp add: walkpgdir_present pte_of_def present_def deallocuvm_loop.simps(2)[of "Suc n"])
        have "in_pages a e x = in_pages (a + PGSIZE) e x" if "present (pte_of (mem s) d x)" for x
          using nx(1)[of x] that npr pte_of_page[of x a "mem s" d] aa by auto
        then show ?thesis
          unfolding run
          by (intro returns_mono[OF Suc.IH[OF Suc.prems(1,2) al Suc.prems(4) fuel]]) (rule unmapped_cong)
      next
        case False
        have run: "deallocuvm_loop (Suc (Suc n)) d a e s = deallocuvm_loop (Suc n) d (PGADDR (PDX a + 1) 0 0) e s"
          using \<open>a < e\<close> False by (simp add: walkpgdir_absent deallocuvm_loop.simps(2)[of "Suc n"])
        have "unat a + 4096 \<le> unat (PGADDR (PDX a + 1) 0 0)"
        proof -
          obtain k where k: "unat a = 4096 * k" using base_block[of a] aa by metis
          have "unat a + 1 \<le> 4096 * (1024 * (pdx a + 1))" using skip_table(1,3)[OF ak] by simp
          then have "k < 1024 * (pdx a + 1)" by (simp add: k)
          then show ?thesis unfolding skip_table(1)[OF ak] k by simp
        qed
        then have e: "unat e \<le> unat (PGADDR (PDX a + 1) 0 0) + 4096 * n"
          using Suc.prems(5) by simp
        show ?thesis
          unfolding run
          by (intro returns_mono[OF Suc.IH[OF Suc.prems(1,2) skip_table(2)[OF ak] Suc.prems(4) e]])
            (rule unmapped_cong[OF _ in_pages_skip[OF Suc.prems(3) ak False]])
      qed
    qed
  qed
qed

lemma deallocuvm_run:
  assumes "uvm_wf s d F" and "pool s F" and "new < old" and "old \<le> KERNBASE"
  shows "returns (deallocuvm d old new s) (\<lambda>r t. r = new \<and> unmapped d s F (PGROUNDUP new) old t)"
proof -
  have fuel: "page_fuel = Suc (2 ^ 20)" by (simp add: page_fuel_def)
  have al: "aligned (PGROUNDUP new)" by (simp add: PGROUNDUP_def PGROUNDDOWN_def[symmetric])
  have "unat old \<le> unat (PGROUNDUP new) + 4096 * 2 ^ 20" using unsigned_less[of old, where ?'a = nat] by simp
  from deallocuvm_loop_spec[OF assms(1,2) al assms(4) this, folded fuel]
  show ?thesis unfolding deallocuvm_def using assms(3) by (auto intro!: returns_bnd)
qed

subsection \<open>allocuvm\<close>

text \<open>A fresh frame: valid, not free, and in no use by the address space.\<close>

definition spare :: "'z mst_scheme \<Rightarrow> u32 \<Rightarrow> u32 set \<Rightarrow> u32 \<Rightarrow> bool" where
  "spare s d F p = (page_ok s p \<and> p \<notin> F \<and> p \<notin> ptpages (mem s) d \<and>
     (\<forall>x < KERNBASE. present (pte_of (mem s) d x) \<longrightarrow> tab (pte_of (mem s) d x) \<noteq> p))"

abbreviation "user_rw \<equiv> PTE_W OR PTE_U"

lemma uvm_of_mapped:
  assumes wf: "uvm_wf s d F" and m: "mapped_to d s F f t F'"
    and f: "\<And>x. f x = (if PGROUNDDOWN x = a then V2P p OR perm OR PTE_P else pte_of (mem s) d x)"
    and p: "spare s d F p" "perm < 4096"
  shows "uvm_wf t d F'"
proof -
  note D = uvm_wfD[OF wf]
  have M: "F' \<subseteq> F" "vm_wf t d F'" "only_mem s t" "ptpages (mem t) d \<subseteq> ptpages (mem s) d \<union> F"
    "\<And>x. pte_of (mem t) d x = f x" using m by (auto simp: mapped_to_def)
  note ok = only_mem_fields[OF M(3)]
  have ep: "tab (V2P p OR perm OR PTE_P) = p" "present (V2P p OR perm OR PTE_P)"
    using entry_parts[OF page_ok_aligned p(2)] p(1) by (auto simp: spare_def)
  have sp: "page_ok s p" "p \<notin> F" "p \<notin> ptpages (mem s) d"
    "\<And>x. x < KERNBASE \<Longrightarrow> present (pte_of (mem s) d x) \<Longrightarrow> tab (pte_of (mem s) d x) \<noteq> p"
    using p(1) by (auto simp: spare_def)
  show ?thesis
    unfolding uvm_wf_def
  proof (intro conjI allI impI)
    show "KERNBASE < kend t" using D(2) ok by simp
  next
    fix x assume x: "x < KERNBASE" "present (pte_of (mem t) d x)"
    then show "page_ok t (tab (pte_of (mem t) d x))"
      using D(3)[of x] sp(1) ep(1) by (auto simp: M(5) f ok(7) split: if_splits)
    show "tab (pte_of (mem t) d x) \<notin> F' \<union> ptpages (mem t) d"
    proof (cases "PGROUNDDOWN x = a")
      case True
      then show ?thesis using sp(2,3) ep(1) M(1,4) by (auto simp: M(5) f)
    next
      case False
      then show ?thesis using x D(4,5)[of x] M(1,4) by (auto simp: M(5) f)
    qed
  next
    fix x y assume x: "x < KERNBASE" and y: "y < KERNBASE" and xy: "present (pte_of (mem t) d x) \<and> present (pte_of (mem t) d y) \<and>
       tab (pte_of (mem t) d x) = tab (pte_of (mem t) d y)"
    show "PGROUNDDOWN x = PGROUNDDOWN y"
      using xy D(6)[OF x y] sp(4)[OF x] sp(4)[OF y] ep(1)
      by (auto simp: M(5) f split: if_splits)
  qed (rule M(2))
qed

lemma uvm_of_mapped_same:
  assumes wf: "uvm_wf s d F" and m: "mapped_to d s F (pte_of (mem s) d) t F'"
  shows "uvm_wf t d F'"
proof -
  note D = uvm_wfD[OF wf]
  have M: "F' \<subseteq> F" "vm_wf t d F'" "only_mem s t" "ptpages (mem t) d \<subseteq> ptpages (mem s) d \<union> F"
    "\<And>x. pte_of (mem t) d x = pte_of (mem s) d x" using m by (auto simp: mapped_to_def)
  show ?thesis
    unfolding uvm_wf_def M(5) only_mem_fields[OF M(3)]
    using D M(1,2,4) by (intro conjI allI impI) blast+
qed

lemma aligned_range: "aligned a \<Longrightarrow> PGROUNDDOWN a = a" "aligned a \<Longrightarrow> PGROUNDDOWN (a + PGSIZE - 1) = a"
proof -
  assume a: "aligned a"
  then show "PGROUNDDOWN a = a" by (simp add: aligned_and PGROUNDDOWN_id)
  have "a + PGSIZE - 1 \<in> page a" by (simp add: page_def PGSIZE_def)
  then show "PGROUNDDOWN (a + PGSIZE - 1) = a" using page_iff[OF a] by blast
qed

text \<open>Mapping one spare frame at an unmapped user address.\<close>

lemma map_one:
  assumes wf: "uvm_wf s d F" and pl: "pool s F" and a: "aligned a" "\<not> present (pte_of (mem s) d a)"
    and p: "spare s d F p" "perm < 4096"
  shows "returns (mappages d a PGSIZE (V2P p) perm s) (\<lambda>r t. \<exists>F'. uvm_wf t d F' \<and>
     (r = 0 \<and> mapped_to d s F (\<lambda>x. if PGROUNDDOWN x = a then V2P p OR perm OR PTE_P else pte_of (mem s) d x) t F' \<or>
      r = -1 \<and> mapped_to d s F (pte_of (mem s) d) t F'))"
proof -
  have n: "mappages d a PGSIZE (V2P p) perm s = mappages_loop d a 0 (V2P p) perm s"
    by (simp add: mappages_def aligned_range[OF a(1)])
  have free: "\<not> present (pte_of (mem s) d x)" if "pgidx a x \<le> 0" for x
    using that a(2) pgidx_zero[OF a(1), of x] pte_of_page[of x a "mem s" d] aligned_range(1)[OF a(1)] by auto
  have one: "map_pte a 1 (V2P p) perm (pte_of (mem s) d) =
      (\<lambda>x. if PGROUNDDOWN x = a then V2P p OR perm OR PTE_P else pte_of (mem s) d x)"
    by (rule ext) (simp add: map_pte_def flip: pgidx_zero[OF a(1)])
  show ?thesis
    unfolding n
  proof (rule returns_mono[OF mappages_loop_spec[OF pl uvm_wfD(1)[OF wf] a(1) _ free]], goal_cases)
    case (3 r t)
    then obtain k F' where kF: "mapped_to d s F (map_pte a k (V2P p) perm (pte_of (mem s) d)) t F'"
      "r = 0 \<and> k = Suc 0 \<or> r = -1 \<and> k \<le> 0 \<and> F' = {}" by blast
    then show ?case
      using uvm_of_mapped_same[OF wf] uvm_of_mapped[OF wf _ refl p] one
      by (elim disjE conjE) (auto intro!: exI[of _ F'])
  qed auto
qed

definition zero_page :: "memory \<Rightarrow> u32 \<Rightarrow> bool" where
  "zero_page m p = (\<forall>y \<in> page p. m y = 0)"

definition grown :: "u32 \<Rightarrow> 'z mst_scheme \<Rightarrow> u32 set \<Rightarrow> u32 \<Rightarrow> u32 \<Rightarrow> 'z mst_scheme \<Rightarrow> u32 set \<Rightarrow> bool" where
  "grown d s F b a t F' = (F' \<subseteq> F \<and> pool t F' \<and> uvm_wf t d F' \<and> only_mem s t \<and>
     touches s t (ptpages (mem s) d \<union> F) \<and> ptpages (mem t) d \<subseteq> ptpages (mem s) d \<union> F \<and>
     (\<forall>x. \<not> in_pages b a x \<longrightarrow> pte_of (mem t) d x = pte_of (mem s) d x) \<and>
     (\<forall>x. in_pages b a x \<longrightarrow> (\<exists>p \<in> F. page_ok t p \<and> pte_of (mem t) d x = V2P p OR user_rw OR PTE_P \<and>
        zero_page (mem t) p)))"

lemma uvm_frame:
  assumes wf: "uvm_wf s d F" and same: "\<forall>p \<in> ptpages (mem s) d. \<forall>x \<in> page p. mem t x = mem s x"
    and om: "only_mem s t" and F': "\<And>p. p \<in> F' \<Longrightarrow> p \<in> F \<or> spare s d F p"
  shows "uvm_wf t d F'" and "pte_of (mem t) d x = pte_of (mem s) d x" and "ptpages (mem t) d = ptpages (mem s) d"
    and "spare s d F p \<Longrightarrow> p \<notin> F'' \<Longrightarrow> spare t d F'' p"
proof -
  note D = uvm_wfD[OF wf]
  note fr = tables_frame[OF D(1) same]
  note ok = only_mem_fields[OF om]
  show "pte_of (mem t) d x = pte_of (mem s) d x" and "ptpages (mem t) d = ptpages (mem s) d"
    by (rule fr(2), rule fr(3))
  have "vm_wf t d F'"
    by (rule vm_wf_frame[OF D(1) same ok(7)]) (use F' ptpages_ok[OF D(1)] in \<open>auto simp: spare_def\<close>)
  moreover have "tab (pte_of (mem s) d x) \<notin> F'" if "x < KERNBASE" "present (pte_of (mem s) d x)" for x
    using F' D(4)[OF that] that by (auto simp: spare_def)
  ultimately show "uvm_wf t d F'"
    unfolding uvm_wf_def fr ok using D by (intro conjI allI impI) blast+
  show "spare s d F p \<Longrightarrow> p \<notin> F'' \<Longrightarrow> spare t d F'' p"
    unfolding spare_def fr ok by auto
qed

lemma touches_frame:
  assumes "vm_wf s d F" and "touches s t P" and "\<And>p. p \<in> P \<Longrightarrow> page_ok s p \<and> p \<notin> ptpages (mem s) d"
  shows "\<forall>p \<in> ptpages (mem s) d. \<forall>x \<in> page p. mem t x = mem s x"
proof (intro ballI)
  fix p x assume "p \<in> ptpages (mem s) d" "x \<in> page p"
  then have "\<forall>q \<in> P. x \<notin> page q"
    using assms(3) ptpages_ok[OF assms(1)] pages_disjoint[of p] by (fastforce simp: page_ok_def)
  then show "mem t x = mem s x" using assms(2) by (simp add: touches_def)
qed

lemma take_page:
  assumes wf: "uvm_wf s d F" and pl: "pool s F" and "F \<noteq> {}"
  obtains p r where "kalloc s = Ret p (s\<lparr>freelist := r\<rparr>)" and "p \<in> F" and "p \<noteq> 0" and "page_ok s p"
    and "\<And>m. (\<And>x. x \<notin> page p \<Longrightarrow> m x = mem s x) \<Longrightarrow>
      pool (s\<lparr>freelist := r, mem := m\<rparr>) (F - {p}) \<and> uvm_wf (s\<lparr>freelist := r, mem := m\<rparr>) d (F - {p}) \<and>
      spare (s\<lparr>freelist := r, mem := m\<rparr>) d (F - {p}) p \<and>
      (\<forall>x. pte_of m d x = pte_of (mem s) d x) \<and> ptpages m d = ptpages (mem s) d"
proof -
  note D = uvm_wfD[OF wf]
  obtain ps where ps: "set ps = F" "kmem_inv s ps" and lk: "LkKmem \<notin> set (held s)" using pl by (auto simp: pool_def)
  obtain p qs where pq: "ps = p # qs" using assms(3) ps(1) by (cases ps) auto
  obtain r where r: "kalloc s = Ret p (s\<lparr>freelist := r\<rparr>)" "kmem_inv (s\<lparr>freelist := r\<rparr>) qs"
    using kalloc_some[OF ps(2)[unfolded pq] lk] by auto
  have p: "page_ok s p" "p \<in> F" "F - {p} = set qs" "p \<notin> set qs" using ps pq by (auto simp: kmem_inv_def)
  show ?thesis
  proof (rule that[OF r(1) p(2) page_ok_not0[OF p(1)] p(1)])
    fix m assume m: "\<And>x. x \<notin> page p \<Longrightarrow> m x = mem s x"
    let ?t = "s\<lparr>freelist := r, mem := m\<rparr>"
    have om: "only_mem s ?t" by (simp add: only_mem_def)
    have same: "\<forall>q \<in> ptpages (mem s) d. \<forall>x \<in> page q. mem ?t x = mem s x"
      by (rule touches_frame[OF D(1), of ?t "{p}"])
        (use m p ptpages_ok[OF D(1)] in \<open>auto simp: touches_def\<close>)
    note fr = uvm_frame[OF wf same om]
    have "kmem_inv (s\<lparr>freelist := r\<rparr>\<lparr>mem := m\<rparr>) qs"
    proof (rule kmem_inv_mem[OF r(2)])
      fix x q assume q: "q \<in> set qs" "x \<in> page q"
      then have "page q \<inter> page p = {}"
        using pages_disjoint[of q p] p ps pq by (auto simp: kmem_inv_def page_ok_def)
      then show "m x = mem (s\<lparr>freelist := r\<rparr>) x" using q m by auto
    qed
    then have "pool ?t (F - {p})" using lk p(3) by (auto simp: pool_def)
    moreover have "spare ?t d (F - {p}) p"
      unfolding spare_def using p D(4) ptpages_ok[OF D(1)] tables_frame(2,3)[OF D(1) same] only_mem_fields(7)[OF om]
      by auto
    ultimately show "pool ?t (F - {p}) \<and> uvm_wf ?t d (F - {p}) \<and> spare ?t d (F - {p}) p \<and>
      (\<forall>x. pte_of m d x = pte_of (mem s) d x) \<and> ptpages m d = ptpages (mem s) d"
      using fr(1)[of "F - {p}"] fr(2)[of "{}"] fr(3)[of "{}"] by auto
  qed
qed

lemma put_page:
  assumes wf: "uvm_wf s d F" and pl: "pool s F" and sp: "spare s d F p"
  obtains t where "kfree p s = Ret () t" and "pool t (insert p F)" and "uvm_wf t d (insert p F)" and "only_mem s t"
    and "touches s t {p}" and "\<And>x. pte_of (mem t) d x = pte_of (mem s) d x" and "ptpages (mem t) d = ptpages (mem s) d"
proof -
  note D = uvm_wfD[OF wf]
  have p: "page_ok s p" "p \<notin> F" using sp by (auto simp: spare_def)
  let ?t = "s\<lparr>mem := kfree_mem p s, freelist := p\<rparr>"
  have kf: "kfree p s = Ret () ?t" using kfree_run[OF p(1)] pl by (simp add: pool_def)
  have tc: "touches s ?t {p}" using kfree_mem_other[OF page_ok_aligned[OF p(1)]] by (auto simp: touches_def)
  have om: "only_mem s ?t" by (simp add: only_mem_def)
  have same: "\<forall>q \<in> ptpages (mem s) d. \<forall>x \<in> page q. mem ?t x = mem s x"
    by (rule touches_frame[OF D(1) tc]) (use sp in \<open>auto simp: spare_def\<close>)
  note fr = uvm_frame[OF wf same om]
  show ?thesis
    using kmem.give_page[OF pl p] fr(1)[of "insert p F"] fr(2)[of "{}"] fr(3)[of "{}"] sp
    by (intro that[OF kf _ _ om tc]) (auto simp: kf)
qed

definition restored :: "u32 \<Rightarrow> 'z mst_scheme \<Rightarrow> u32 set \<Rightarrow> 'z mst_scheme \<Rightarrow> u32 set \<Rightarrow> bool" where
  "restored d s F t F' = (F' \<subseteq> F \<and> pool t F' \<and> uvm_wf t d F' \<and> only_mem s t \<and>
     touches s t (ptpages (mem s) d \<union> F) \<and> (\<forall>x. pte_of (mem t) d x = pte_of (mem s) d x))"

lemma user_entry:
  assumes "page_ok s p"
  shows "tab (V2P p OR user_rw OR PTE_P) = p" and "present (V2P p OR user_rw OR PTE_P)"
  using entry_parts[OF page_ok_aligned[OF assms], of user_rw] by (simp_all add: PTE_W_def PTE_U_def)

lemma grown_frames:
  assumes g: "grown d s0 F0 b a s F" and new: "\<And>x. in_pages b e x \<Longrightarrow> pte_of (mem s0) d x = 0"
    and le: "unat a < unat e + 4096" and al: "aligned a"
  shows "frames (mem s) d b e \<subseteq> F0" and "in_pages b a x \<Longrightarrow> in_pages b e x"
proof -
  show sub: "in_pages b e x" if "in_pages b a x" for x
  proof -
    obtain j where j: "unat (PGROUNDDOWN x) = 4096 * j" by (rule base_block)
    obtain k where k: "unat a = 4096 * k" using al by (auto simp: aligned_unat mod_eq_0_iff_dvd elim!: dvdE)
    show ?thesis using that le j k by (auto simp: in_pages_def word_less_nat_alt)
  qed
  show "frames (mem s) d b e \<subseteq> F0"
  proof
    fix q assume "q \<in> frames (mem s) d b e"
    then obtain x where x: "q = tab (pte_of (mem s) d x)" "in_pages b e x" "present (pte_of (mem s) d x)"
      by (auto simp: frames_def)
    have ab: "in_pages b a x" using x(3) new[OF x(2)] g by (auto simp: grown_def)
    then obtain p where "p \<in> F0" "page_ok s p" "pte_of (mem s) d x = V2P p OR user_rw OR PTE_P"
      using g by (auto simp: grown_def)
    then show "q \<in> F0" using user_entry(1) x(1) by metis
  qed
qed

text \<open>Giving the pages of the range back restores the mapping.\<close>

lemma grown_undo:
  assumes g: "grown d s0 F0 b a s F" and new: "\<And>x. in_pages b e x \<Longrightarrow> pte_of (mem s0) d x = 0"
    and le: "unat a < unat e + 4096" and al: "aligned a" and u: "unmapped d s F b e t"
  shows "restored d s0 F0 t (F \<union> frames (mem s) d b e)"
proof -
  have G: "F \<subseteq> F0" "only_mem s0 s" "touches s0 s (ptpages (mem s0) d \<union> F0)"
    "ptpages (mem s) d \<subseteq> ptpages (mem s0) d \<union> F0"
    "\<And>x. \<not> in_pages b a x \<Longrightarrow> pte_of (mem s) d x = pte_of (mem s0) d x"
    using g by (auto simp: grown_def)
  note gf = grown_frames[OF g new le al]
  have "touches s t (ptpages (mem s0) d \<union> F0)"
    using u gf(1) G(4) unfolding unmapped_def by (auto elim!: touches_mono)
  then have "touches s0 t (ptpages (mem s0) d \<union> F0)" using G(3) by (rule touches_trans[rotated])
  moreover have "pte_of (mem t) d x = pte_of (mem s0) d x" for x
  proof (cases "in_pages b e x")
    case True
    have "present (pte_of (mem s) d x) \<or> pte_of (mem s) d x = 0"
    proof (cases "in_pages b a x")
      case True
      then obtain p where "page_ok s p" "pte_of (mem s) d x = V2P p OR user_rw OR PTE_P"
        using g by (auto simp: grown_def)
      then show ?thesis using user_entry(2) by metis
    next
      case False
      then show ?thesis using G(5) new[OF True] by simp
    qed
    then show ?thesis using u True new[OF True] by (auto simp: unmapped_def)
  next
    case False
    then show ?thesis using u gf(2) G(5)[of x] by (auto simp: unmapped_def)
  qed
  ultimately show ?thesis
    using u G(1) gf(1) only_mem_trans[OF G(2)] by (auto simp: restored_def unmapped_def)
qed

lemma grown_step:
  assumes g: "grown d s0 F0 b a s F" and b: "b \<le> a" and a: "aligned a" "a < e" "e \<le> KERNBASE"
    and p: "p \<in> F" "page_ok s p" and sp: "spare s1 d (F - {p}) p"
    and s1: "pool s1 (F - {p})" "uvm_wf s1 d (F - {p})" "only_mem s s1" "touches s s1 {p}"
      "\<And>x. pte_of (mem s1) d x = pte_of (mem s) d x" "ptpages (mem s1) d = ptpages (mem s) d" "zero_page (mem s1) p"
    and t: "uvm_wf t d F'" "mapped_to d s1 (F - {p})
      (\<lambda>x. if PGROUNDDOWN x = a then V2P p OR user_rw OR PTE_P else pte_of (mem s1) d x) t F'"
  shows "grown d s0 F0 b (a + PGSIZE) t F'"
proof -
  have G: "F \<subseteq> F0" "only_mem s0 s" "touches s0 s (ptpages (mem s0) d \<union> F0)"
    "ptpages (mem s) d \<subseteq> ptpages (mem s0) d \<union> F0"
    "\<And>x. \<not> in_pages b a x \<Longrightarrow> pte_of (mem s) d x = pte_of (mem s0) d x"
    "\<And>x. in_pages b a x \<Longrightarrow> \<exists>p \<in> F0. page_ok s p \<and> pte_of (mem s) d x = V2P p OR user_rw OR PTE_P \<and> zero_page (mem s) p"
    using g by (auto simp: grown_def)
  have M: "F' \<subseteq> F - {p}" "pool t F'" "only_mem s1 t" "touches s1 t (ptpages (mem s) d \<union> (F - {p}))"
    "ptpages (mem t) d \<subseteq> ptpages (mem s) d \<union> (F - {p})"
    "\<And>x. pte_of (mem t) d x = (if PGROUNDDOWN x = a then V2P p OR user_rw OR PTE_P else pte_of (mem s) d x)"
    using t(2) by (auto simp: mapped_to_def s1(5,6))
  have ok: "page_ok t = page_ok s" using only_mem_fields(7)[OF only_mem_trans[OF s1(3) M(3)]] .
  have P: "\<And>q. q \<in> ptpages (mem s) d \<union> (F - {p}) \<Longrightarrow> aligned q"
    using ptpages_ok[OF uvm_wfD(1)[OF s1(2)]] s1(6) g
    by (auto simp: grown_def pool_def kmem_inv_def page_ok_def)
  have keep: "zero_page (mem t) q" if q: "zero_page (mem s1) q" "page_ok s q" "q \<notin> ptpages (mem s) d \<union> (F - {p})" for q
    unfolding zero_page_def
  proof
    fix y assume y: "y \<in> page q"
    have "y \<notin> page r" if "r \<in> ptpages (mem s) d \<union> (F - {p})" for r
      using pages_disjoint[OF page_ok_aligned[OF q(2)] P[OF that]] that q(3) y by blast
    then have "mem t y = mem s1 y" using M(4) unfolding touches_def by blast
    then show "mem t y = 0" using q(1) y by (simp add: zero_page_def)
  qed
  have range: "in_pages b (a + PGSIZE) x \<longleftrightarrow> PGROUNDDOWN x = a \<or> in_pages b a x" for x
  proof -
    obtain j where j: "unat (PGROUNDDOWN x) = 4096 * j" by (rule base_block)
    obtain k where k: "unat a = 4096 * k" using a(1) by (auto simp: aligned_unat mod_eq_0_iff_dvd elim!: dvdE)
    show ?thesis
      using b j k in_pages_next(2)[OF a] by (auto simp: in_pages_def word_less_nat_alt word_le_nat_alt word_unat_eq_iff)
  qed
  have new: "\<exists>p \<in> F0. page_ok t p \<and> pte_of (mem t) d x = V2P p OR user_rw OR PTE_P \<and> zero_page (mem t) p"
    if x: "in_pages b (a + PGSIZE) x" for x
  proof (cases "PGROUNDDOWN x = a")
    case True
    have "zero_page (mem t) p" using sp by (intro keep s1(7) p(2)) (auto simp: spare_def s1(6))
    then show ?thesis using True p G(1) by (auto simp: M(6) ok)
  next
    case False
    then have ab: "in_pages b a x" using x range by simp
    then obtain q where q: "q \<in> F0" "page_ok s q" "pte_of (mem s) d x = V2P q OR user_rw OR PTE_P" "zero_page (mem s) q"
      using G(6) by blast
    have xk: "x < KERNBASE" using in_pages_user[OF ab] a(2,3) by simp
    have "present (pte_of (mem s1) d x)" "tab (pte_of (mem s1) d x) = q"
      using q(3) user_entry[OF q(2)] by (simp_all add: s1(5))
    then have notin: "q \<notin> ptpages (mem s) d \<union> (F - {p})" and qp: "q \<noteq> p"
      using uvm_wfD(4,5)[OF s1(2) xk] s1(6) sp xk unfolding spare_def by auto
    have "zero_page (mem s1) q"
      unfolding zero_page_def
      using q(4) s1(4) pages_disjoint[OF page_ok_aligned[OF q(2)] page_ok_aligned[OF p(2)] qp]
      by (auto simp: zero_page_def touches_def)
    then show ?thesis using False q keep[OF _ q(2) notin] by (auto simp: M(6) ok)
  qed
  have "touches s s1 (ptpages (mem s0) d \<union> F0)" using s1(4) p(1) G(1) by (auto elim!: touches_mono)
  moreover have "touches s1 t (ptpages (mem s0) d \<union> F0)" using M(4) G(1,4) by (auto elim!: touches_mono)
  ultimately have "touches s0 t (ptpages (mem s0) d \<union> F0)" using G(3) by (blast intro: touches_trans)
  moreover have "pte_of (mem t) d x = pte_of (mem s0) d x" if "\<not> in_pages b (a + PGSIZE) x" for x
    using that range[of x] G(5)[of x] by (simp add: M(6))
  moreover have "only_mem s0 t" using only_mem_trans[OF only_mem_trans[OF G(2) s1(3)] M(3)] .
  ultimately show ?thesis
    unfolding grown_def using M(1,2,5) G(1,4) t(1) new by auto
qed

lemma zero_page_memset: "zero_page (memset m p 0 PGSIZE) p"
  by (simp add: zero_page_def memset_page)

lemma allocuvm_fail:
  assumes g: "grown d s0 F0 b a s F" and b: "b = PGROUNDUP old" "old < new" "new < KERNBASE"
    and new: "\<And>x. in_pages b new x \<Longrightarrow> pte_of (mem s0) d x = 0"
    and le: "unat a < unat new + 4096" and al: "aligned a"
  shows "returns (deallocuvm d new old s) (\<lambda>_ t. unmapped d s F b new t \<and>
    restored d s0 F0 t (F \<union> frames (mem s) d b new))"
proof -
  have "uvm_wf s d F" "pool s F" using g by (auto simp: grown_def)
  from deallocuvm_run[OF this b(2)] b(3)
  have "returns (deallocuvm d new old s) (\<lambda>r t. r = old \<and> unmapped d s F b new t)" by (simp add: b(1))
  then show ?thesis by (rule returns_mono) (auto intro!: grown_undo[OF g new le al])
qed

lemma grown_cong:
  assumes "grown d s0 F0 b a s F" and "\<And>x. in_pages b a x = in_pages b e x"
  shows "grown d s0 F0 b e s F"
  using assms by (simp add: grown_def)

lemma unmapped_spare:
  assumes "unmapped d s F b e t" and "spare s d F p" and "e \<le> KERNBASE"
  shows "spare t d (F \<union> frames (mem s) d b e) p"
proof -
  have U: "only_mem s t" "ptpages (mem t) d = ptpages (mem s) d"
    "\<And>x. pte_of (mem t) d x = (if in_pages b e x \<and> present (pte_of (mem s) d x) then 0 else pte_of (mem s) d x)"
    using assms(1) by (auto simp: unmapped_def)
  have "p \<notin> frames (mem s) d b e"
    using assms(2,3) in_pages_user[of b e] by (auto simp: frames_def spare_def)
  then show ?thesis
    using assms(2) by (simp add: spare_def U only_mem_fields(7)[OF U(1)])
qed

lemma mapped_spare:
  assumes "mapped_to d s F (pte_of (mem s) d) t F'" and "spare s d F p"
  shows "spare t d F' p"
proof -
  have "page_ok t = page_ok s" using assms(1) by (intro only_mem_fields(7)) (simp add: mapped_to_def)
  then show ?thesis using assms by (auto simp: spare_def mapped_to_def)
qed

lemma grown_trans_same:
  assumes g: "grown d s0 F0 b a s F" and p: "p \<in> F" "page_ok s p" and sp: "spare s1 d (F - {p}) p"
    and ak: "a \<le> KERNBASE"
    and s1: "pool s1 (F - {p})" "uvm_wf s1 d (F - {p})" "only_mem s s1" "touches s s1 {p}"
      "\<And>x. pte_of (mem s1) d x = pte_of (mem s) d x" "ptpages (mem s1) d = ptpages (mem s) d"
    and t: "uvm_wf t d F'" "mapped_to d s1 (F - {p}) (pte_of (mem s1) d) t F'"
  shows "grown d s0 F0 b a t F'"
proof -
  have G: "F \<subseteq> F0" "only_mem s0 s" "touches s0 s (ptpages (mem s0) d \<union> F0)"
    "ptpages (mem s) d \<subseteq> ptpages (mem s0) d \<union> F0"
    "\<And>x. \<not> in_pages b a x \<Longrightarrow> pte_of (mem s) d x = pte_of (mem s0) d x"
    "\<And>x. in_pages b a x \<Longrightarrow> \<exists>p \<in> F0. page_ok s p \<and> pte_of (mem s) d x = V2P p OR user_rw OR PTE_P \<and> zero_page (mem s) p"
    using g by (auto simp: grown_def)
  have M: "F' \<subseteq> F - {p}" "pool t F'" "only_mem s1 t" "touches s1 t (ptpages (mem s) d \<union> (F - {p}))"
    "ptpages (mem t) d \<subseteq> ptpages (mem s) d \<union> (F - {p})"
    "\<And>x. pte_of (mem t) d x = pte_of (mem s) d x"
    using t(2) by (auto simp: mapped_to_def s1(5,6))
  have ok: "page_ok t = page_ok s" using only_mem_fields(7)[OF only_mem_trans[OF s1(3) M(3)]] .
  have tt: "touches s t (ptpages (mem s) d \<union> F)"
    using p(1) by (intro touches_trans[of s s1 _ t] touches_mono[OF s1(4)] touches_mono[OF M(4)]) auto
  have wf: "uvm_wf s d F" and pl: "pool s F" using g by (simp_all add: grown_def)
  have P: "aligned q" if "q \<in> ptpages (mem s) d \<union> F" for q
    using that ptpages_ok[OF uvm_wfD(1)[OF wf], of q] pl
    by (auto simp: pool_def kmem_inv_def page_ok_def)
  have new: "\<exists>p \<in> F0. page_ok t p \<and> pte_of (mem t) d x = V2P p OR user_rw OR PTE_P \<and> zero_page (mem t) p"
    if x: "in_pages b a x" for x
  proof -
    obtain q where q: "q \<in> F0" "page_ok s q" "pte_of (mem s) d x = V2P q OR user_rw OR PTE_P" "zero_page (mem s) q"
      using G(6)[OF x] by blast
    from uvm_wfD(4,5)[OF wf in_pages_user[OF x ak]] have notin: "q \<notin> ptpages (mem s) d \<union> F"
      using q(3) user_entry[OF q(2)] by auto
    have "mem t y = mem s y" if y: "y \<in> page q" for y
    proof -
      have "y \<notin> page r" if "r \<in> ptpages (mem s) d \<union> F" for r
        using pages_disjoint[OF page_ok_aligned[OF q(2)] P[OF that]] that notin y by blast
      then show ?thesis using tt unfolding touches_def by blast
    qed
    then have "zero_page (mem t) q" using q(4) by (simp add: zero_page_def)
    then show ?thesis using q by (auto simp: M(6) ok)
  qed
  have "touches s t (ptpages (mem s0) d \<union> F0)" using tt G(1,4) by (auto elim!: touches_mono)
  then have "touches s0 t (ptpages (mem s0) d \<union> F0)" using G(3) by (blast intro: touches_trans)
  moreover have "only_mem s0 t" using only_mem_trans[OF only_mem_trans[OF G(2) s1(3)] M(3)] .
  ultimately show ?thesis
    unfolding grown_def using M(1,2,5) G(1,4,5) t(1) new M(6) by auto
qed

text \<open>The second failure: the frame that could not be mapped goes back as well.\<close>

lemma allocuvm_finish:
  assumes g: "grown d s0 F0 b a s F" and b: "b = PGROUNDUP old" "old < new" "new < KERNBASE"
    and new: "\<And>x. in_pages b new x \<Longrightarrow> pte_of (mem s0) d x = 0"
    and le: "unat a < unat new + 4096" and al: "aligned a"
    and sp: "spare s d F p" and p: "p \<in> F0"
  shows "returns (bnd (deallocuvm d new old s) (\<lambda>_ s. bnd (kfree p s) (\<lambda>_ s. Ret (0 :: u32) s)))
    (\<lambda>r t. r = 0 \<and> (\<exists>F'. restored d s0 F0 t F'))"
proof (rule returns_bnd[OF allocuvm_fail[OF g b new le al]], goal_cases)
  case (2 x t)
  let ?F = "F \<union> frames (mem s) d b new"
  have R: "?F \<subseteq> F0" "pool t ?F" "uvm_wf t d ?F" "only_mem s0 t" "touches s0 t (ptpages (mem s0) d \<union> F0)"
    "\<And>x. pte_of (mem t) d x = pte_of (mem s0) d x"
    using 2 by (auto simp: restored_def)
  have "spare t d ?F p" using 2 sp b(3) by (intro unmapped_spare) auto
  from put_page[OF R(3,2) this] obtain u where u: "kfree p t = Ret () u" "pool u (insert p ?F)"
    "uvm_wf u d (insert p ?F)" "only_mem t u" "touches t u {p}" "\<And>x. pte_of (mem u) d x = pte_of (mem t) d x"
    by metis
  have "touches s0 u (ptpages (mem s0) d \<union> F0)"
    using p by (intro touches_trans[OF R(5)] touches_mono[OF u(5)]) auto
  then have "restored d s0 F0 u (insert p ?F)"
    using R u p only_mem_trans[OF R(4) u(4)] by (auto simp: restored_def)
  then show ?case using u(1) by auto
qed auto

declare allocuvm_loop.simps(2) [simp del]

lemma allocuvm_loop_spec:
  assumes "grown d s0 F0 b a s F" and "aligned a" and "b \<le> a" and "unat a < unat new + 4096"
    and "unat new \<le> unat a + 4096 * n"
    and b: "b = PGROUNDUP old" "old \<le> new" "new < KERNBASE"
    and fresh: "\<And>x. in_pages b new x \<Longrightarrow> pte_of (mem s0) d x = 0"
  shows "returns (allocuvm_loop (Suc n) d a old new s) (\<lambda>r t. \<exists>F'.
    r = new \<and> grown d s0 F0 b new t F' \<or> r = 0 \<and> restored d s0 F0 t F')"
  using assms(1-5)
proof (induction n arbitrary: a s F)
  case 0
  then have ge: "\<not> a < new" by (simp add: word_less_nat_alt)
  have "grown d s0 F0 b new s F"
  proof (rule grown_cong[OF 0(1)])
    show "in_pages b a x = in_pages b new x" for x
      using grown_frames(2)[OF 0(1) fresh 0(4,2)] ge by (auto simp: in_pages_def)
  qed
  then show ?case using ge by (auto simp: allocuvm_loop.simps(2)[of 0])
next
  case (Suc n)
  note G = Suc.prems(1)
  have wf: "uvm_wf s d F" and pl: "pool s F" using G by (auto simp: grown_def)
  show ?case
  proof (cases "a < new")
    case False
    have "grown d s0 F0 b new s F"
    proof (rule grown_cong[OF G])
      show "in_pages b a x = in_pages b new x" for x
        using grown_frames(2)[OF G fresh Suc.prems(4,2)] False by (auto simp: in_pages_def)
    qed
    then show ?thesis using False by (auto simp: allocuvm_loop.simps(2)[of "Suc n"])
  next
    case True
    have ob: "old < new"
    proof (rule ccontr)
      assume "\<not> old < new"
      then have "old = new" using b(2) by simp
      moreover have "old \<le> PGROUNDUP old" 
        using unat_PGROUNDUP[of old] b(2,3) by (simp add: word_le_nat_alt KERNBASE_def word_less_nat_alt)
      ultimately show False using True Suc.prems(3) b(1) by simp
    qed
    have ek: "new \<le> KERNBASE" using b(3) by simp
    have ak: "a < KERNBASE" using True ek by simp
    note nx = in_pages_next(2)[OF Suc.prems(2) True ek]
    show ?thesis
    proof (cases "F = {}")
      case True
      then have ka: "kalloc s = Ret 0 s" using kalloc_none[of s] pl by (auto simp: pool_def)
      show ?thesis
        using allocuvm_fail[OF G b(1) ob b(3) fresh Suc.prems(4,2)] \<open>a < new\<close>
        by (auto simp: allocuvm_loop.simps(2)[of "Suc n"] ka intro!: returns_bnd elim: returns_mono)
    next
      case False
      obtain p r where p: "kalloc s = Ret p (s\<lparr>freelist := r\<rparr>)" "p \<in> F" "p \<noteq> 0" "page_ok s p"
        and tk: "\<And>m. (\<And>x. x \<notin> page p \<Longrightarrow> m x = mem s x) \<Longrightarrow>
          pool (s\<lparr>freelist := r, mem := m\<rparr>) (F - {p}) \<and> uvm_wf (s\<lparr>freelist := r, mem := m\<rparr>) d (F - {p}) \<and>
          spare (s\<lparr>freelist := r, mem := m\<rparr>) d (F - {p}) p \<and>
          (\<forall>x. pte_of m d x = pte_of (mem s) d x) \<and> ptpages m d = ptpages (mem s) d"
        by (rule take_page[OF wf pl False]) blast
      let ?m = "memset (mem s) p 0 PGSIZE"
      define s1 where "s1 = s\<lparr>freelist := r, mem := ?m\<rparr>"
      have T: "pool s1 (F - {p})" "uvm_wf s1 d (F - {p})" "spare s1 d (F - {p}) p"
        "\<And>x. pte_of (mem s1) d x = pte_of (mem s) d x" "ptpages (mem s1) d = ptpages (mem s) d"
        using tk[of ?m] by (auto simp: memset_page s1_def)
      have om: "only_mem s s1" by (simp add: only_mem_def s1_def)
      have tc: "touches s s1 {p}" by (auto simp: touches_def s1_def memset_page)
      have zp: "zero_page (mem s1) p" by (simp add: s1_def zero_page_memset)
      have run: "allocuvm_loop (Suc (Suc n)) d a old new s =
        bnd (mappages d a PGSIZE (V2P p) user_rw s1) (\<lambda>r s.
          if r < 0 then bnd (deallocuvm d new old s) (\<lambda>_ s. bnd (kfree p s) (\<lambda>_ s. Ret 0 s))
          else allocuvm_loop (Suc n) d (a + PGSIZE) old new s)"
        using \<open>a < new\<close> p(1,3) by (simp add: allocuvm_loop.simps(2)[of "Suc n"] Let_def s1_def)
      have np: "\<not> present (pte_of (mem s1) d a)"
      proof -
        have aa: "PGROUNDDOWN a = a" by (rule aligned_range(1)[OF Suc.prems(2)])
        have "\<not> in_pages b a a" "in_pages b new a"
          using True Suc.prems(3) by (auto simp: in_pages_def aa)
        then show ?thesis using G fresh T(4) by (auto simp: grown_def)
      qed
      show ?thesis
        unfolding run
      proof (rule returns_bnd[OF map_one[OF T(2,1) Suc.prems(2) np T(3)]], goal_cases)
        case 1
        show ?case by (simp add: PTE_W_def PTE_U_def)
      next
        case (2 r t)
        then obtain F' where wt: "uvm_wf t d F'" and
          "r = 0 \<and> mapped_to d s1 (F - {p}) (\<lambda>x. if PGROUNDDOWN x = a then V2P p OR user_rw OR PTE_P
              else pte_of (mem s1) d x) t F' \<or>
           r = -1 \<and> mapped_to d s1 (F - {p}) (pte_of (mem s1) d) t F'" by blast
        then consider (ok) "r = 0" "mapped_to d s1 (F - {p}) (\<lambda>x. if PGROUNDDOWN x = a
              then V2P p OR user_rw OR PTE_P else pte_of (mem s1) d x) t F'"
          | (fail) "r = -1" "mapped_to d s1 (F - {p}) (pte_of (mem s1) d) t F'" by blast
        then show ?case
        proof cases
          case ok
          have "grown d s0 F0 b (a + PGSIZE) t F'"
            by (rule grown_step[OF G Suc.prems(3,2) True ek p(2,4) T(3,1,2) om tc T(4,5) zp wt ok(2)])
          moreover have "b \<le> a + PGSIZE" using Suc.prems(3) nx by (simp add: word_le_nat_alt)
          moreover have "unat (a + PGSIZE) < unat new + 4096" using True nx by (simp add: word_less_nat_alt)
          moreover have "unat new \<le> unat (a + PGSIZE) + 4096 * n" using Suc.prems(5) nx by simp
          ultimately show ?thesis
            using ok(1) Suc.IH[of "a + PGSIZE" t F'] aligned_add[OF Suc.prems(2) aligned_PGSIZE] by simp
        next
          case fail
          have g': "grown d s0 F0 b a t F'"
            by (rule grown_trans_same[OF G p(2,4) T(3) _ T(1,2) om tc T(4,5) wt fail(2)]) (use ak in simp)
          have sp: "spare t d F' p" by (rule mapped_spare[OF fail(2) T(3)])
          have pF: "p \<in> F0" using G p(2) by (auto simp: grown_def)
          have "returns (bnd (deallocuvm d new old t) (\<lambda>_ s. bnd (kfree p s) (\<lambda>_ s. Ret (0 :: u32) s)))
            (\<lambda>r t. \<exists>F'. r = new \<and> grown d s0 F0 b new t F' \<or> r = 0 \<and> restored d s0 F0 t F')"
            by (rule returns_mono[OF allocuvm_finish[OF g' b(1) ob b(3) fresh Suc.prems(4,2) sp pF]]) auto
          then show ?thesis using fail(1) by simp
        qed
      qed
    qed
  qed
qed

lemma allocuvm_run:
  assumes wf: "uvm_wf s d F" and pl: "pool s F" and b: "old \<le> new" "new < KERNBASE"
    and fresh: "\<And>x. in_pages (PGROUNDUP old) new x \<Longrightarrow> pte_of (mem s) d x = 0"
  shows "returns (allocuvm d old new s) (\<lambda>r t. \<exists>F'.
    r = new \<and> grown d s F (PGROUNDUP old) new t F' \<or> r = 0 \<and> restored d s F t F')"
proof -
  have fuel: "page_fuel = Suc (2 ^ 20)" by (simp add: page_fuel_def)
  have al: "aligned (PGROUNDUP old)" by (simp add: PGROUNDUP_def PGROUNDDOWN_def[symmetric])
  have g: "grown d s F (PGROUNDUP old) (PGROUNDUP old) s F"
    using wf pl by (auto simp: grown_def touches_def in_pages_def)
  have le: "unat (PGROUNDUP old) < unat new + 4096"
  proof -
    have "unat old < 2147483648" "unat old \<le> unat new"
      using b by (simp_all add: word_le_nat_alt KERNBASE_def word_less_nat_alt)
    then show ?thesis using unat_PGROUNDUP[of old] by simp
  qed
  have fu: "unat new \<le> unat (PGROUNDUP old) + 4096 * 2 ^ 20"
    using unsigned_less[of new, where ?'a = nat] by simp
  have "\<not> KERNBASE \<le> new" "\<not> new < old" using b by auto
  then show ?thesis
    using allocuvm_loop_spec[OF g al order_refl le fu refl b fresh, folded fuel]
    by (simp add: allocuvm_def)
qed

subsection \<open>freevm\<close>

text \<open>Every frame of the address space goes back: user pages, page tables and the directory.\<close>

lemma freevm_tables_run:
  assumes "kmem_inv s ps" and "LkKmem \<notin> set (held s)" and "page_ok s d" and "d \<notin> set ps"
    and "\<And>i. i \<in> set is \<Longrightarrow> i < 1024" and "distinct is"
    and "\<And>i. i \<in> set is \<Longrightarrow> present (pde (mem s) d i) \<Longrightarrow>
      page_ok s (tab (pde (mem s) d i)) \<and> tab (pde (mem s) d i) \<notin> set ps \<and> tab (pde (mem s) d i) \<noteq> d"
    and "\<And>i j. i \<in> set is \<Longrightarrow> j \<in> set is \<Longrightarrow> i \<noteq> j \<Longrightarrow> present (pde (mem s) d i) \<Longrightarrow> present (pde (mem s) d j) \<Longrightarrow>
      tab (pde (mem s) d i) \<noteq> tab (pde (mem s) d j)"
  shows "returns (freevm_tables d is s) (\<lambda>_ t. only_mem s t \<and>
    pool t (set ps \<union> {tab (pde (mem s) d i) | i. i \<in> set is \<and> present (pde (mem s) d i)}))"
  using assms
proof (induction "is" arbitrary: s ps)
  case Nil
  then show ?case by (auto simp: pool_def)
next
  case (Cons i "is")
  note P = Cons.prems
  show ?case
  proof (cases "present (pde (mem s) d i)")
    case False
    then have run: "freevm_tables d (i # is) s = freevm_tables d is s"
      by (simp add: pde_def present_def)
    have "{tab (pde (mem s) d j) | j. j \<in> set (i # is) \<and> present (pde (mem s) d j)} =
      {tab (pde (mem s) d j) | j. j \<in> set is \<and> present (pde (mem s) d j)}" using False by auto
    then show ?thesis unfolding run
      using Cons.IH[OF P(1-4)] P(5-8) by simp
  next
    case True
    let ?v = "tab (pde (mem s) d i)"
    have v: "page_ok s ?v" "?v \<notin> set ps" "?v \<noteq> d" using P(7)[of i] True by auto
    let ?t = "s\<lparr>mem := kfree_mem ?v s, freelist := ?v\<rparr>"
    have run: "freevm_tables d (i # is) s = freevm_tables d is ?t"
      using kfree_run[OF v(1) P(2)] True by (simp add: pde_def present_def tab_def Let_def)
    have inv: "kmem_inv ?t (?v # ps)" by (rule kfree_inv[OF P(1) v(1,2)])
    have ok: "page_ok ?t = page_ok s" by (simp add: fun_eq_iff page_ok_def)
    have pd: "pde (mem ?t) d j = pde (mem s) d j" if j: "j < 1024" for j
    proof -
      have "word_at (d + 4 * of_nat j) \<inter> page ?v = {}"
        using word_in_page[OF page_ok_aligned[OF P(3)] j] pages_disjoint[OF page_ok_aligned[OF P(3)] page_ok_aligned[OF v(1)] v(3)[symmetric]]
        by blast
      then have "load32 (kfree_mem ?v s) (d + 4 * of_nat j) = load32 (mem s) (d + 4 * of_nat j)"
        by (intro load32_cong kfree_mem_other[OF page_ok_aligned[OF v(1)]]) blast
      then show ?thesis by (simp add: pde_def)
    qed
    have lt: "j < 1024" if "j \<in> set is" for j using P(5) that by auto
    have "returns (freevm_tables d is ?t) (\<lambda>_ u. only_mem ?t u \<and>
      pool u (set (?v # ps) \<union> {tab (pde (mem ?t) d i) | i. i \<in> set is \<and> present (pde (mem ?t) d i)}))"
    proof (rule Cons.IH[OF inv], goal_cases)
      case (6 j)
      then have "i \<noteq> j" using P(6) by auto
      then show ?case using 6 P(7)[of j] P(8)[of i j] True pd[OF lt] unfolding ok by auto
    next
      case (7 j k) then show ?case using P(8)[of j k] pd[OF lt] by auto
    qed (use P v ok in auto)
    moreover have "{tab (pde (mem ?t) d i) | i. i \<in> set is \<and> present (pde (mem ?t) d i)} =
      {tab (pde (mem s) d i) | i. i \<in> set is \<and> present (pde (mem s) d i)}"
      using pd lt by (intro Collect_cong ex_cong1) auto
    moreover have "{tab (pde (mem s) d j) | j. j \<in> set (i # is) \<and> present (pde (mem s) d j)} =
      insert ?v {tab (pde (mem s) d j) | j. j \<in> set is \<and> present (pde (mem s) d j)}" using True by auto
    ultimately show ?thesis
      unfolding run by (auto simp: only_mem_def elim!: returns_mono)
  qed
qed

lemma freevm_run:
  assumes wf: "uvm_wf s d F" and pl: "pool s F"
  shows "returns (freevm d s) (\<lambda>_ t. only_mem s t \<and>
    pool t (F \<union> frames (mem s) d 0 KERNBASE \<union> ptpages (mem s) d))"
proof -
  have d0: "d \<noteq> 0" using uvm_wfD(1)[OF wf] page_ok_not0 by (auto simp: vm_wf_def)
  have z: "PGROUNDUP 0 = 0" by (simp add: PGROUNDUP_def PGSIZE_def)
  let ?F = "F \<union> frames (mem s) d 0 KERNBASE"
  have u: "returns (deallocuvm d KERNBASE 0 s) (\<lambda>r t. unmapped d s F 0 KERNBASE t)"
    using deallocuvm_run[OF wf pl, of 0 KERNBASE, unfolded z] by (auto simp: KERNBASE_def elim!: returns_mono)
  show ?thesis
    unfolding freevm_def if_not_P[OF d0]
  proof (rule returns_bnd[OF u])
    fix r t assume u: "unmapped d s F 0 KERNBASE t"
    then obtain ps where ps: "set ps = ?F" "kmem_inv t ps" "LkKmem \<notin> set (held t)"
      by (auto simp: unmapped_def pool_def)
    have U: "vm_wf t d ?F" "only_mem s t" "ptpages (mem t) d = ptpages (mem s) d"
      using u uvm_wfD(1) by (auto simp: unmapped_def)
    let ?T = "{tab (pde (mem t) d i) | i. i \<in> set [0..<NPDENTRIES] \<and> present (pde (mem t) d i)}"
    have ft: "returns (freevm_tables d [0..<NPDENTRIES] t) (\<lambda>_ v. only_mem t v \<and> pool v (set ps \<union> ?T))"
      by (rule freevm_tables_run[OF ps(2,3)]) (use U(1) ps(1) in \<open>auto simp: vm_wf_def NPDENTRIES_def\<close>)
    have T: "ptpages (mem s) d = insert d ?T" "d \<notin> ?F \<union> ?T"
      unfolding U(3)[symmetric] using U(1) by (auto simp: ptpages_def vm_wf_def NPDENTRIES_def)
    show "returns (bnd (freevm_tables d [0..<NPDENTRIES] t) (\<lambda>_ s. kfree d s))
       (\<lambda>_ t. only_mem s t \<and> pool t (?F \<union> ptpages (mem s) d))"
    proof (rule returns_bnd[OF ft])
      fix x v assume v: "only_mem t v \<and> pool v (set ps \<union> ?T)"
      have ok: "page_ok v d" using U(1) v only_mem_fields(7)[of t v] by (simp add: vm_wf_def)
      have "LkKmem \<notin> set (held v)" using v by (simp add: pool_def)
      then have kf: "kfree d v = Ret () (v\<lparr>mem := kfree_mem d v, freelist := d\<rparr>)" (is "_ = Ret () ?w")
        by (rule kfree_run[OF ok])
      have "only_mem v ?w" by (simp add: only_mem_def)
      then have "only_mem s ?w" using only_mem_trans U(2) v by blast
      moreover have "pool ?w (insert d (?F \<union> ?T))"
        using kmem.give_page[of v "?F \<union> ?T" d] v ok T(2) by (simp add: ps(1) kf)
      ultimately show "returns (kfree d v) (\<lambda>_ t. only_mem s t \<and> pool t (?F \<union> ptpages (mem s) d))"
        by (simp add: kf T(1))
    qed
  qed
qed

subsection \<open>copyout\<close>

text \<open>The byte a user program reads at \<open>y\<close>.\<close>

definition ubyte :: "memory \<Rightarrow> u32 \<Rightarrow> u32 \<Rightarrow> u8" where
  "ubyte m d y = m (tab (pte_of m d y) + (y - PGROUNDDOWN y))"

definition user_ok :: "memory \<Rightarrow> u32 \<Rightarrow> u32 \<Rightarrow> bool" where
  "user_ok m d y = (y < KERNBASE \<and> present (pte_of m d y) \<and> pte_of m d y AND PTE_U \<noteq> 0)"

lemma store_bytes_eq:
  "length bs \<le> 2 ^ 32 \<Longrightarrow> store_bytes m a bs = (\<lambda>x. if unat (x - a) < length bs then bs ! unat (x - a) else m x)"
proof (induction bs arbitrary: m a)
  case (Cons b bs)
  have "(if unat (x - (a + 1)) < length bs then bs ! unat (x - (a + 1)) else (m(a := b)) x) =
     (if unat (x - a) < length (b # bs) then (b # bs) ! unat (x - a) else m x)" for x
  proof (cases "x = a")
    case True
    have "unat (- 1 :: u32) = 2 ^ 32 - 1" by (simp add: unsigned_minus_1_eq_mask mask_eq_exp_minus_1)
    then show ?thesis using True Cons.prems by simp
  next
    case False
    then have "x - a \<noteq> 0" by simp
    then have "unat (x - a - 1) = unat (x - a) - 1" and "unat (x - a) \<noteq> 0"
      by (simp add: unat_minus_one, simp add: unat_eq_0)
    then show ?thesis using False by (cases "unat (x - a)") (auto simp: diff_diff_eq)
  qed
  then show ?case using Cons by simp
qed simp

lemma pool_outside:
  assumes "pool s F" and "page_ok s p" and "p \<notin> F" and "touches s (s\<lparr>mem := m\<rparr>) {p}"
  shows "pool (s\<lparr>mem := m\<rparr>) F"
proof -
  obtain ps where ps: "set ps = F" "kmem_inv s ps" "LkKmem \<notin> set (held s)" using assms(1) by (auto simp: pool_def)
  have "kmem_inv (s\<lparr>mem := m\<rparr>) ps"
  proof (rule kmem_inv_mem[OF ps(2)])
    fix x q assume q: "q \<in> set ps" "x \<in> page q"
    then have "page q \<inter> page p = {}"
      using pages_disjoint[of q p] ps assms(2,3) by (auto simp: kmem_inv_def page_ok_def)
    then show "m x = mem s x" using q assms(4) by (auto simp: touches_def)
  qed
  then show ?thesis using ps by (auto simp: pool_def)
qed

lemma uva2ka_run:
  assumes "vm_wf s d F" and "user_ok (mem s) d y"
  shows "uva2ka d y s = Ret (tab (pte_of (mem s) d y)) s"
  using present_frame_in_tables[OF assms(1), of y] assms(2)
  by (simp add: uva2ka_def user_ok_def present_def tab_def Let_def)

lemma frame_offset:
  assumes "aligned p"
  shows "p + (y - PGROUNDDOWN y) \<in> page p"
  using page_offset[of y] by (simp add: page_def PGSIZE_def word_less_nat_alt)

lemma div_eq_same:
  assumes "(a :: nat) \<le> b" and "b < (a div M + 1) * M"
  shows "b div M = a div M"
proof (rule antisym)
  show "b div M \<le> a div M" using assms(2) by (metis add.commute less_Suc_eq_le less_mult_imp_div_less plus_1_eq_Suc)
  show "a div M \<le> b div M" by (rule div_le_mono[OF assms(1)])
qed

text \<open>Writing one chunk, which stays in one page.\<close>

lemma write_chunk:
  assumes wf: "uvm_wf s d F" and pl: "pool s F" and va: "user_ok (mem s) d va"
    and n: "length bs \<le> 4096 - unat va mod 4096"
  defines "p \<equiv> tab (pte_of (mem s) d va)"
  defines "t \<equiv> s\<lparr>mem := store_bytes (mem s) (p + (va - PGROUNDDOWN va)) bs\<rparr>"
  shows "uvm_wf t d F" and "pool t F" and "pte_of (mem t) d y = pte_of (mem s) d y"
    and "y < KERNBASE \<Longrightarrow> present (pte_of (mem s) d y) \<Longrightarrow> ubyte (mem t) d y =
      (if unat va \<le> unat y \<and> unat y < unat va + length bs then bs ! (unat y - unat va) else ubyte (mem s) d y)"
proof -
  note D = uvm_wfD[OF wf]
  have v: "va < KERNBASE" "present (pte_of (mem s) d va)" using va by (auto simp: user_ok_def)
  have p: "page_ok s p" "p \<notin> F" "p \<notin> ptpages (mem s) d" using D(3-5)[OF v] by (simp_all add: p_def)
  let ?a = "p + (va - PGROUNDDOWN va)"
  have pal: "aligned p" by (rule page_ok_aligned[OF p(1)])
  have off: "unat (va - PGROUNDDOWN va) = unat va mod 4096" by (rule page_offset)
  have pu: "unat p + 4096 \<le> 2 ^ 32"
  proof -
    obtain k where "unat p = 4096 * k" using pal by (auto simp: aligned_unat mod_eq_0_iff_dvd elim!: dvdE)
    then show ?thesis using unsigned_less[of p, where ?'a = nat] by simp
  qed
  have ua: "unat ?a = unat p + unat va mod 4096"
    using pu mod_less_divisor[of 4096 "unat va"] by (simp add: unat_word_ariths off)
  have mt: "mem t x = (if unat (x - ?a) < length bs then bs ! unat (x - ?a) else mem s x)" for x
    using n by (simp add: t_def store_bytes_eq)
  have inp: "x \<in> page p" if "unat (x - ?a) < length bs" for x
  proof -
    have le: "unat (x - ?a) + unat va mod 4096 < 4096" using that n mod_less_divisor[of 4096 "unat va"] by linarith
    have "unat (x - p) = unat ((x - ?a) + (va - PGROUNDDOWN va))" by simp
    also have "\<dots> = unat (x - ?a) + unat va mod 4096"
      using le by (simp only: unat_word_ariths off) simp
    finally show ?thesis using le by (simp add: page_def PGSIZE_def word_less_nat_alt)
  qed
  have tc: "touches s t {p}" using inp by (auto simp: touches_def mt)
  have om: "only_mem s t" by (simp add: only_mem_def t_def)
  have same: "\<forall>q \<in> ptpages (mem s) d. \<forall>x \<in> page q. mem t x = mem s x"
    by (rule touches_frame[OF D(1) tc]) (use p in auto)
  show "uvm_wf t d F" by (rule uvm_frame(1)[OF wf same om]) simp
  show pt: "pte_of (mem t) d y = pte_of (mem s) d y" for y
    using uvm_frame(2)[OF wf same om, of "{}"] by simp
  show "pool t F" unfolding t_def
    by (rule pool_outside[OF pl p(1,2)]) (use tc in \<open>simp add: t_def\<close>)
  show "ubyte (mem t) d y =
      (if unat va \<le> unat y \<and> unat y < unat va + length bs then bs ! (unat y - unat va) else ubyte (mem s) d y)"
    if y: "y < KERNBASE" "present (pte_of (mem s) d y)"
  proof -
    let ?q = "tab (pte_of (mem s) d y)"
    have qal: "aligned ?q" using D(3)[OF y] by (rule page_ok_aligned)
    have by_: "ubyte (mem t) d y = mem t (?q + (y - PGROUNDDOWN y))" by (simp add: ubyte_def pt)
    show ?thesis
    proof (cases "PGROUNDDOWN y = PGROUNDDOWN va")
      case True
      then have qp: "?q = p" unfolding p_def by (simp add: pte_of_page[OF True])
      have e: "?q + (y - PGROUNDDOWN y) - ?a = y - va" by (simp add: qp True)
      have "unat (y - va) < length bs \<longleftrightarrow> unat va \<le> unat y \<and> unat y < unat va + length bs"
        "unat va \<le> unat y \<Longrightarrow> unat (y - va) = unat y - unat va"
        using n unsigned_less[of va, where ?'a = nat] v(1) by (auto simp: unat_sub_if' KERNBASE_def word_less_nat_alt)
      then show ?thesis unfolding by_ mt e by (auto simp: ubyte_def)
    next
      case False
      then have "?q \<noteq> p" using D(6)[OF y(1) v(1) y(2) v(2)] by (auto simp: p_def)
      then have "?q + (y - PGROUNDDOWN y) \<notin> page p"
        using frame_offset[OF qal, of y] pages_disjoint[OF qal pal] by blast
      then have "ubyte (mem t) d y = ubyte (mem s) d y"
        using tc unfolding by_ by (auto simp: ubyte_def touches_def)
      moreover have "\<not> (unat va \<le> unat y \<and> unat y < unat va + length bs)"
      proof
        assume r: "unat va \<le> unat y \<and> unat y < unat va + length bs"
        obtain q o' where qo: "unat va = 4096 * q + o'" "o' < 4096" "unat va div 4096 = q" "unat va mod 4096 = o'"
          using that[of "unat va div 4096" "unat va mod 4096"] by simp
        have "unat y < (unat va div 4096 + 1) * 4096" using conjunct2[OF r] n unfolding qo(3,4) qo(1) using qo(2) by simp
        then have "unat y div 4096 = unat va div 4096" using r by (intro div_eq_same) simp_all
        then show False using False by (simp add: word_unat_eq_iff unat_PGROUNDDOWN)
      qed
      ultimately show ?thesis by auto
    qed
  qed
qed

lemma copyout_run:
  assumes "uvm_wf s d F" and "pool s F" and "unat va + length buf \<le> 2147483648"
    and "\<And>y. unat va \<le> unat y \<Longrightarrow> unat y < unat va + length buf \<Longrightarrow> user_ok (mem s) d y"
  shows "returns (copyout d va buf s) (\<lambda>r t. r = 0 \<and> uvm_wf t d F \<and> pool t F \<and>
    (\<forall>y < KERNBASE. present (pte_of (mem s) d y) \<longrightarrow> ubyte (mem t) d y =
      (if unat va \<le> unat y \<and> unat y < unat va + length buf then buf ! (unat y - unat va) else ubyte (mem s) d y)))"
  using assms
proof (induction "length buf" arbitrary: va buf s rule: less_induct)
  case less
  note P = less.prems
  show ?case
  proof (cases "buf = []")
    case True
    then show ?thesis using P by (auto simp: copyout.simps[of d va "[]"])
  next
    case False
    then have len: "0 < length buf" by simp
    let ?n = "copyout_chunk va buf"
    let ?p = "tab (pte_of (mem s) d va)"
    let ?t = "s\<lparr>mem := store_bytes (mem s) (?p + (va - PGROUNDDOWN va)) (take ?n buf)\<rparr>"
    let ?va = "PGROUNDDOWN va + PGSIZE"
    have ok: "user_ok (mem s) d va" using P(4)[of va] len by simp
    have vk: "unat va < 2147483648" using ok by (simp add: user_ok_def KERNBASE_def word_less_nat_alt)
    have n: "?n = min (4096 - unat va mod 4096) (length buf)" by (simp add: copyout_chunk_def page_room)
    have n0: "0 < ?n" by (rule copyout_chunk_pos[OF False])
    have same: "user_ok (mem s) d (PGROUNDDOWN va)" "tab (pte_of (mem s) d (PGROUNDDOWN va)) = ?p"
      using ok pte_of_page[of "PGROUNDDOWN va" va "mem s" d] base_parts(2)[of va] 
      by (auto simp: user_ok_def PGROUNDDOWN_id[OF PGROUNDDOWN_aligned] word_less_nat_alt)
    have p0: "?p \<noteq> 0" using uvm_wfD(3)[OF P(1), of va] ok page_ok_not0 by (auto simp: user_ok_def)
    have run: "copyout d va buf s = copyout d ?va (drop ?n buf) ?t"
      using False p0 by (simp add: copyout.simps[of d va buf] uva2ka_run[OF uvm_wfD(1)[OF P(1)] same(1)] same(2) Let_def)
    note w = write_chunk[OF P(1,2) ok, of "take ?n buf"]
    have tl: "length (take ?n buf) \<le> 4096 - unat va mod 4096" by (simp add: n)
    have uva: "unat ?va = unat va - unat va mod 4096 + 4096"
      using vk by (simp add: PGSIZE_def unat_word_ariths unat_PGROUNDDOWN minus_mod_eq_mult_div)
    have next_: "?n < length buf \<Longrightarrow> unat ?va = unat va + ?n"
      using uva mod_less_divisor[of 4096 "unat va"] mod_less_eq_dividend[of "unat va" 4096] by (auto simp: n)
    have lt: "length (drop ?n buf) < length buf" using n0 len by simp
    have okt: "user_ok (mem ?t) d y = user_ok (mem s) d y" for y
      using w(3)[OF tl, of y] by (simp add: user_ok_def)
    show ?thesis
    proof (cases "?n < length buf")
      case False
      then have all: "drop ?n buf = []" "take ?n buf = buf" by simp_all
      then show ?thesis
        unfolding run using w[OF tl] by (simp add: copyout.simps[of d ?va])
    next
      case True
      have IH: "returns (copyout d ?va (drop ?n buf) ?t) (\<lambda>r t. r = 0 \<and> uvm_wf t d F \<and> pool t F \<and>
        (\<forall>y < KERNBASE. present (pte_of (mem ?t) d y) \<longrightarrow> ubyte (mem t) d y =
         (if unat ?va \<le> unat y \<and> unat y < unat ?va + length (drop ?n buf) then (drop ?n buf) ! (unat y - unat ?va)
          else ubyte (mem ?t) d y)))"
        using P next_[OF True] True
        by (intro less.hyps[OF lt w(1,2)[OF tl]]) (auto simp: okt[simplified])
      show ?thesis
        unfolding run
      proof (rule returns_mono[OF IH], elim conjE, intro conjI allI impI)
        fix r :: int and u y
        assume y: "y < KERNBASE" "present (pte_of (mem s) d y)" and
          u: "\<forall>y < KERNBASE. present (pte_of (mem ?t) d y) \<longrightarrow> ubyte (mem u) d y =
           (if unat ?va \<le> unat y \<and> unat y < unat ?va + length (drop ?n buf) then (drop ?n buf) ! (unat y - unat ?va)
            else ubyte (mem ?t) d y)"
        have py: "present (pte_of (mem ?t) d y)" using y(2) w(3)[OF tl] by simp
        show "ubyte (mem u) d y =
           (if unat va \<le> unat y \<and> unat y < unat va + length buf then buf ! (unat y - unat va) else ubyte (mem s) d y)"
          using u[rule_format, OF y(1) py] w(4)[OF tl y] next_[OF True] True
          by (auto simp: min_def)
      qed auto
    qed
  qed
qed

subsection \<open>Properties\<close>

lemma demo_uvm: "uvm_wf demo_vm 0x80400000 {0x80200000, 0x80300000}"
  by (simp add: uvm_wf_def demo_vm_wf(2,3)) (simp add: demo_vm_def KERNBASE_def)

text \<open>C3: Growing an address space is all or nothing.  \<open>allocuvm\<close> from \<open>old\<close> to \<open>new\<close> bytes
  always returns; with \<open>new\<close>, every new page is present, user-writable, backed by a zeroed frame
  from the pool, and no other entry changed; or with 0, and then the mapping is exactly the old
  one.  In both cases distinct user pages still have distinct frames, outside the pool and the
  page tables, and no memory but page tables and former free pages was written.\<close>

theorem allocuvm_all_or_nothing:
  assumes "uvm_wf s d F" and "pool s F" and "old \<le> new" and "new < KERNBASE"
    and "\<And>x. in_pages (PGROUNDUP old) new x \<Longrightarrow> pte_of (mem s) d x = 0"
  shows "returns (allocuvm d old new s) (\<lambda>r t. \<exists>F' \<subseteq> F. pool t F' \<and> uvm_wf t d F' \<and>
    touches s t (ptpages (mem s) d \<union> F) \<and>
    (r = new \<and> (\<forall>x. if in_pages (PGROUNDUP old) new x
        then \<exists>p \<in> F. pte_of (mem t) d x = V2P p OR PTE_W OR PTE_U OR PTE_P \<and> zero_page (mem t) p
        else pte_of (mem t) d x = pte_of (mem s) d x) \<or>
     r = 0 \<and> (\<forall>x. pte_of (mem t) d x = pte_of (mem s) d x)))"
proof (rule returns_mono[OF allocuvm_run[OF assms]])
  fix r t assume "\<exists>F'. r = new \<and> grown d s F (PGROUNDUP old) new t F' \<or> r = 0 \<and> restored d s F t F'"
  then obtain F' where "r = new \<and> grown d s F (PGROUNDUP old) new t F' \<or> r = 0 \<and> restored d s F t F'" by blast
  then show "\<exists>F' \<subseteq> F. pool t F' \<and> uvm_wf t d F' \<and> touches s t (ptpages (mem s) d \<union> F) \<and>
    (r = new \<and> (\<forall>x. if in_pages (PGROUNDUP old) new x
        then \<exists>p \<in> F. pte_of (mem t) d x = V2P p OR PTE_W OR PTE_U OR PTE_P \<and> zero_page (mem t) p
        else pte_of (mem t) d x = pte_of (mem s) d x) \<or>
     r = 0 \<and> (\<forall>x. pte_of (mem t) d x = pte_of (mem s) d x))"
    by (intro exI[of _ F']) (auto simp: grown_def restored_def or.assoc)
qed

theorem allocuvm_all_or_nothing_witness:
  "returns (allocuvm 0x80400000 0 0x1000 demo_vm) (\<lambda>r t. r = 0x1000 \<or> r = 0)"
  by (rule returns_mono[OF allocuvm_all_or_nothing[OF demo_uvm demo_vm_wf(5)]])
    (auto simp: KERNBASE_def demo_vm_wf(3))

text \<open>C4: \<open>deallocuvm\<close> to a smaller size returns the new size, unmaps exactly the pages
  from \<open>PGROUNDUP new\<close> up to the old size, and gives exactly their frames back to the pool; the
  rest of the mapping is as before.\<close>

theorem deallocuvm_frees:
  assumes "uvm_wf s d F" and "pool s F" and "new < old" and "old \<le> KERNBASE"
  shows "returns (deallocuvm d old new s) (\<lambda>r t. r = new \<and> uvm_wf t d (F \<union> frames (mem s) d (PGROUNDUP new) old) \<and>
    pool t (F \<union> frames (mem s) d (PGROUNDUP new) old) \<and>
    (\<forall>x. present (pte_of (mem t) d x) = (present (pte_of (mem s) d x) \<and> \<not> in_pages (PGROUNDUP new) old x)) \<and>
    (\<forall>x. present (pte_of (mem t) d x) \<longrightarrow> pte_of (mem t) d x = pte_of (mem s) d x))"
  by (rule returns_mono[OF deallocuvm_run[OF assms]]) (auto simp: unmapped_def)

theorem deallocuvm_frees_witness:
  "returns (deallocuvm 0x80400000 0x5000 0x1000 demo_vm) (\<lambda>r t. r = 0x1000)"
  by (rule returns_mono[OF deallocuvm_frees[OF demo_uvm demo_vm_wf(5)]]) (auto simp: KERNBASE_def)

text \<open>C5: \<open>freevm\<close> leaks nothing: after it the pool holds what it held, every user frame of
  the address space, every page table and the page directory.\<close>

theorem freevm_frees_all:
  assumes "uvm_wf s d F" and "pool s F"
  shows "returns (freevm d s) (\<lambda>_ t. pool t (F \<union> frames (mem s) d 0 KERNBASE \<union> ptpages (mem s) d))"
  by (rule returns_mono[OF freevm_run[OF assms]]) simp

theorem freevm_frees_all_witness:
  "returns (freevm 0x80400000 demo_vm) (\<lambda>_ t. pool t {0x80200000, 0x80300000, 0x80400000})"
proof -
  have "frames (mem demo_vm) 0x80400000 0 KERNBASE = {}" by (simp add: frames_def demo_vm_wf(3))
  then show ?thesis
    using freevm_frees_all[OF demo_uvm demo_vm_wf(5)] by (simp add: demo_vm_wf(4) insert_commute)
qed

text \<open>C7: \<open>copyout\<close> to a range of mapped user pages returns 0 and writes exactly the
  \<open>length buf\<close> bytes of that range, across page boundaries; every other byte the user can read,
  in any page, is as before.\<close>

theorem copyout_exact:
  assumes "uvm_wf s d F" and "pool s F" and "unat va + length buf \<le> 2147483648"
    and "\<And>y. unat va \<le> unat y \<Longrightarrow> unat y < unat va + length buf \<Longrightarrow> user_ok (mem s) d y"
  shows "returns (copyout d va buf s) (\<lambda>r t. r = 0 \<and>
    (\<forall>y < KERNBASE. present (pte_of (mem s) d y) \<longrightarrow> ubyte (mem t) d y =
      (if unat va \<le> unat y \<and> unat y < unat va + length buf then buf ! (unat y - unat va) else ubyte (mem s) d y)))"
  by (rule returns_mono[OF copyout_run[OF assms]]) blast+

theorem copyout_exact_witness:
  "returns (mappages 0x80400000 0 0x1000 (V2P 0x80500000) 6 demo_vm)
    (\<lambda>r t. r = 0 \<and> returns (copyout 0x80400000 0x10 [1, 2, 3] t)
      (\<lambda>r u. r = 0 \<and> ubyte (mem u) 0x80400000 0x11 = 2))"
proof -
  let ?d = "0x80400000 :: u32" and ?p = "0x80500000 :: u32"
  have al: "aligned 0" by (simp add: aligned_def)
  have one: "mappages ?d 0 0x1000 (V2P ?p) 6 demo_vm = mappages_loop ?d 0 0 (V2P ?p) 6 demo_vm"
    by (simp add: mappages_def PGROUNDDOWN_def PGSIZE_def)
  have np: "\<not> present (pte_of (mem demo_vm) ?d 0)" by (simp add: demo_vm_wf(3))
  have sp: "spare demo_vm ?d {0x80200000, 0x80300000} ?p"
    by (simp add: spare_def demo_vm_wf(3,4))
      (simp add: demo_vm_def page_ok_demo aligned_def PGSIZE_def V2P_def KERNBASE_def PHYSTOP_def)
  let ?f = "map_pte 0 1 (V2P ?p) 6 (pte_of (mem demo_vm) ?d)"
  have f: "?f x = (if PGROUNDDOWN x = 0 then V2P ?p OR 6 OR PTE_P else pte_of (mem demo_vm) ?d x)" for x
    by (simp add: map_pte_def flip: pgidx_zero[OF al])
  have copy: "returns (copyout ?d 0x10 [1, 2, 3] t) (\<lambda>r u. r = 0 \<and> ubyte (mem u) ?d 0x11 = 2)"
    if m: "mapped_to ?d demo_vm {0x80200000, 0x80300000} ?f t F'" for t F'
  proof -
    have wf: "uvm_wf t ?d F'" by (rule uvm_of_mapped[OF demo_uvm m f sp]) simp
    have pl: "pool t F'" using m by (simp add: mapped_to_def)
    have base: "PGROUNDDOWN y = 0" if "unat y < 4096" for y
      using that by (simp add: word_unat_eq_iff unat_PGROUNDDOWN)
    have e: "pte_of (mem t) ?d y = 0x500007" if "unat y < 4096" for y
    proof -
      have "pte_of (mem t) ?d y = ?f y" using m unfolding mapped_to_def by blast
      then show ?thesis by (simp only: f base[OF that]) (simp add: V2P_def KERNBASE_def PTE_P_def)
    qed
    have ok: "user_ok (mem t) ?d y" if "unat y < 4096" for y
      using e[OF that] that by (simp add: user_ok_def present_def PTE_P_def PTE_U_def KERNBASE_def word_less_nat_alt)
    have "present (pte_of (mem t) ?d 0x11)" using ok[of "0x11"] by (simp add: user_ok_def)
    then show ?thesis
      by (intro returns_mono[OF copyout_exact[OF wf pl]]) (auto intro!: ok simp: KERNBASE_def)
  qed
  show ?thesis
    unfolding one by (intro mappages_loop_step[OF demo_vm_wf(5,2) al np]) (auto intro: copy)
qed

end
