(* ===== verification/Bytes.thy ===== *)
theory Bytes
  imports Prelude
begin

text \<open>
  Integers in blocks and user memory: the little-endian layout that the C code gets by casting a
  byte array to an array of \<^verbatim>\<open>uint\<close> or \<^verbatim>\<open>ushort\<close>.  \<open>get32 d k\<close> is the \<open>k\<close>-th 32-bit word of the
  bytes \<open>d\<close>, \<open>put32\<close> stores it.
\<close>

definition get32 :: "u8 list \<Rightarrow> nat \<Rightarrow> u32" where
  "get32 d k = ucast (d ! (4 * k)) OR push_bit 8 (ucast (d ! (4 * k + 1)))
     OR push_bit 16 (ucast (d ! (4 * k + 2))) OR push_bit 24 (ucast (d ! (4 * k + 3)))"

definition put32 :: "u8 list \<Rightarrow> nat \<Rightarrow> u32 \<Rightarrow> u8 list" where
  "put32 d k v = d[4 * k := ucast v, 4 * k + 1 := ucast (drop_bit 8 v),
     4 * k + 2 := ucast (drop_bit 16 v), 4 * k + 3 := ucast (drop_bit 24 v)]"

definition get16 :: "u8 list \<Rightarrow> nat \<Rightarrow> u16" where
  "get16 d k = ucast (d ! (2 * k)) OR push_bit 8 (ucast (d ! (2 * k + 1)))"

definition put16 :: "u8 list \<Rightarrow> nat \<Rightarrow> u16 \<Rightarrow> u8 list" where
  "put16 d k v = d[2 * k := ucast v, 2 * k + 1 := ucast (drop_bit 8 v)]"

lemma length_put32 [simp]: "length (put32 d k v) = length d"
  by (simp add: put32_def)

lemma length_put16 [simp]: "length (put16 d k v) = length d"
  by (simp add: put16_def)

lemma get32_put32:
  assumes "4 * k + 3 < length d" and "4 * j + 3 < length d"
  shows "get32 (put32 d k v) j = (if j = k then v else get32 d j)"
proof (cases "j = k")
  case True
  have "ucast (ucast v :: u8) OR push_bit 8 (ucast (ucast (drop_bit 8 v) :: u8))
     OR push_bit 16 (ucast (ucast (drop_bit 16 v) :: u8)) OR push_bit 24 (ucast (ucast (drop_bit 24 v) :: u8)) = v"
  proof (rule bit_word_eqI)
    fix n assume "n < LENGTH(32)"
    then consider "n < 8" | "8 \<le> n \<and> n < 16" | "16 \<le> n \<and> n < 24" | "24 \<le> n \<and> n < 32" by fastforce
    then show "bit (ucast (ucast v :: u8) OR push_bit 8 (ucast (ucast (drop_bit 8 v) :: u8))
       OR push_bit 16 (ucast (ucast (drop_bit 16 v) :: u8))
       OR push_bit 24 (ucast (ucast (drop_bit 24 v) :: u8)) :: u32) n = bit v n"
      by cases (auto simp: bit_simps)
  qed
  then show ?thesis using True assms by (simp add: get32_def put32_def)
next
  case False
  then have "4 * j + a \<noteq> 4 * k + b" if "a < 4" "b < 4" for a b using that by presburger
  from this[of 0] this[of 1] this[of 2] this[of 3] show ?thesis
    using False assms by (simp add: get32_def put32_def nth_list_update)
qed

lemma get16_put16:
  assumes "2 * k + 1 < length d" and "2 * j + 1 < length d"
  shows "get16 (put16 d k v) j = (if j = k then v else get16 d j)"
proof (cases "j = k")
  case True
  have "ucast (ucast v :: u8) OR push_bit 8 (ucast (ucast (drop_bit 8 v) :: u8)) = v"
  proof (rule bit_word_eqI)
    fix n assume "n < LENGTH(16)"
    then consider "n < 8" | "8 \<le> n \<and> n < 16" by fastforce
    then show "bit (ucast (ucast v :: u8) OR push_bit 8 (ucast (ucast (drop_bit 8 v) :: u8)) :: u16) n = bit v n"
      by cases (auto simp: bit_simps)
  qed
  then show ?thesis using True assms by (simp add: get16_def put16_def)
next
  case False
  then have "2 * j + a \<noteq> 2 * k + b" if "a < 2" "b < 2" for a b using that by presburger
  from this[of 0] this[of 1] show ?thesis
    using False assms by (simp add: get16_def put16_def nth_list_update)
qed

text \<open>Storing a list of words one after the other.\<close>

fun put32s :: "u8 list \<Rightarrow> nat \<Rightarrow> u32 list \<Rightarrow> u8 list" where
  "put32s d k [] = d"
| "put32s d k (v # vs) = put32s (put32 d k v) (Suc k) vs"

lemma length_put32s [simp]: "length (put32s d k vs) = length d"
  by (induction d k vs rule: put32s.induct) auto

lemma get32_put32s:
  assumes "4 * (k + length vs) \<le> length d" and "4 * j + 3 < length d"
  shows "get32 (put32s d k vs) j = (if k \<le> j \<and> j < k + length vs then vs ! (j - k) else get32 d j)"
  using assms
proof (induction d k vs rule: put32s.induct)
  case (2 d k v vs)
  then show ?case by (auto simp: get32_put32 nth_Cons')
qed auto

end
