(* ===== verification/Bio.thy ===== *)
theory Bio
  imports Uvm Bytes
begin

text \<open>
  \<^verbatim>\<open>bio.c\<close>, the cache of disk blocks, and \<^verbatim>\<open>memide.c\<close>, the disk driver that keeps the disk
  in memory.

  A buffer is named by its index in \<^verbatim>\<open>bcache.buf\<close>, the list of buffers from most to least
  recently used is the list \<open>lru\<close> of indices (theory LRU relates it to the pointers of the C
  code), and the lock of buffer \<open>i\<close> is the sleep-lock \<open>SlBuf i\<close>.  A disk is a map from block
  numbers to blocks of 512 bytes; \<open>wlog\<close> is a history variable, the sequence of all block writes the
  driver has done, so that a crash can be modelled: it leaves the disk after some prefix of them.

  \<open>bview s b\<close> is the content of block \<open>b\<close> that a reader gets; the contract \<open>block_store\<close> says what
  the log and the file system rely on.
\<close>

definition BSIZE :: nat where "BSIZE = 512"

type_synonym block = "u8 list"

record buf =
  b_valid :: bool
  b_dirty :: bool
  b_dev :: nat
  b_blockno :: nat
  b_refcnt :: u32
  b_data :: block

record bst = mst +
  bufs :: "buf list"
  lru :: "nat list"
  disk :: "nat \<Rightarrow> block"
  disksize :: nat
  wlog :: "(nat \<times> block) list"

definition upd_buf :: "nat \<Rightarrow> (buf \<Rightarrow> buf) \<Rightarrow> 'z bst_scheme \<Rightarrow> 'z bst_scheme" where
  "upd_buf i f s = s\<lparr>bufs := (bufs s)[i := f (bufs s ! i)]\<rparr>"

fun initbuf_locks :: "nat list \<Rightarrow> 'z bst_scheme \<Rightarrow> 'z bst_scheme" where
  "initbuf_locks [] s = s"
| "initbuf_locks (i # is) s = initbuf_locks is (initsleeplock (SlBuf i) s)"

text \<open>Each buffer goes to the front of the list.\<close>

definition binit :: "'z bst_scheme \<Rightarrow> 'z bst_scheme" where
  "binit s = initbuf_locks [0..<NBUF] (s\<lparr>lru := rev [0..<NBUF]\<rparr>)"

subsection \<open>The disk driver\<close>

definition iderw :: "nat \<Rightarrow> 'z bst_scheme \<Rightarrow> (unit, 'z bst_scheme) outcome" where
  "iderw i s =
     bnd (holdingsleep (SlBuf i) s) (\<lambda>h s.
     let b = bufs s ! i in
     if \<not> h then Panic ''iderw: buf not locked''
     else if b_valid b \<and> \<not> b_dirty b then Panic ''iderw: nothing to do''
     else if b_dev b \<noteq> 1 then Panic ''iderw: request not for disk 1''
     else if b_blockno b \<ge> disksize s then Panic ''iderw: block out of range''
     else if b_dirty b then
       let s = upd_buf i (\<lambda>b. b\<lparr>b_dirty := False\<rparr>) s;
           s = s\<lparr>disk := (disk s)(b_blockno b := b_data b), wlog := wlog s @ [(b_blockno b, b_data b)]\<rparr>
       in Ret () (upd_buf i (\<lambda>b. b\<lparr>b_valid := True\<rparr>) s)
     else
       let s = upd_buf i (\<lambda>b. b\<lparr>b_data := disk s (b_blockno b)\<rparr>) s
       in Ret () (upd_buf i (\<lambda>b. b\<lparr>b_valid := True\<rparr>) s))"

subsection \<open>The cache\<close>

definition bfind :: "nat \<Rightarrow> nat \<Rightarrow> 'z bst_scheme \<Rightarrow> nat option" where
  "bfind dev blockno s =
     find (\<lambda>i. b_dev (bufs s ! i) = dev \<and> b_blockno (bufs s ! i) = blockno) (lru s)"

definition bvictim :: "'z bst_scheme \<Rightarrow> nat option" where
  "bvictim s = find (\<lambda>i. b_refcnt (bufs s ! i) = 0 \<and> \<not> b_dirty (bufs s ! i)) (rev (lru s))"

definition bget :: "nat \<Rightarrow> nat \<Rightarrow> 'z bst_scheme \<Rightarrow> (nat, 'z bst_scheme) outcome" where
  "bget dev blockno s =
     bnd (acquire LkBcache s) (\<lambda>_ s.
     case bfind dev blockno s of
       Some i \<Rightarrow>
         bnd (release LkBcache (upd_buf i (\<lambda>b. b\<lparr>b_refcnt := b_refcnt b + 1\<rparr>) s)) (\<lambda>_ s.
         bnd (acquiresleep (SlBuf i) s) (\<lambda>_ s. Ret i s))
     | None \<Rightarrow>
        (case bvictim s of
           Some i \<Rightarrow>
             bnd (release LkBcache (upd_buf i (\<lambda>b. b\<lparr>b_dev := dev, b_blockno := blockno,
               b_valid := False, b_dirty := False, b_refcnt := 1\<rparr>) s)) (\<lambda>_ s.
             bnd (acquiresleep (SlBuf i) s) (\<lambda>_ s. Ret i s))
         | None \<Rightarrow> Panic ''bget: no buffers''))"

definition bread :: "nat \<Rightarrow> nat \<Rightarrow> 'z bst_scheme \<Rightarrow> (nat, 'z bst_scheme) outcome" where
  "bread dev blockno s =
     bnd (bget dev blockno s) (\<lambda>i s.
     if \<not> b_valid (bufs s ! i) then bnd (iderw i s) (\<lambda>_ s. Ret i s) else Ret i s)"

definition bwrite :: "nat \<Rightarrow> 'z bst_scheme \<Rightarrow> (unit, 'z bst_scheme) outcome" where
  "bwrite i s =
     bnd (holdingsleep (SlBuf i) s) (\<lambda>h s.
     if \<not> h then Panic ''bwrite''
     else iderw i (upd_buf i (\<lambda>b. b\<lparr>b_dirty := True\<rparr>) s))"

definition brelse :: "nat \<Rightarrow> 'z bst_scheme \<Rightarrow> (unit, 'z bst_scheme) outcome" where
  "brelse i s =
     bnd (holdingsleep (SlBuf i) s) (\<lambda>h s.
     if \<not> h then Panic ''brelse''
     else
       bnd (releasesleep (SlBuf i) s) (\<lambda>_ s.
       bnd (acquire LkBcache s) (\<lambda>_ s.
       let s = upd_buf i (\<lambda>b. b\<lparr>b_refcnt := b_refcnt b - 1\<rparr>) s;
           s = (if b_refcnt (bufs s ! i) = 0 then s\<lparr>lru := i # remove1 i (lru s)\<rparr> else s)
       in release LkBcache s)))"

text \<open>What the callers do with the buffer they hold.\<close>

definition set_data :: "nat \<Rightarrow> block \<Rightarrow> 'z bst_scheme \<Rightarrow> 'z bst_scheme" where
  "set_data i d s = upd_buf i (\<lambda>b. b\<lparr>b_data := d\<rparr>) s"

subsection \<open>The invariant of the cache\<close>

text \<open>\<open>H\<close> is the set of buffers the running process holds; other processes may hold others.\<close>

definition cached :: "'z bst_scheme \<Rightarrow> nat \<Rightarrow> nat \<Rightarrow> bool" where
  "cached s b i = (i < NBUF \<and> b_dev (bufs s ! i) = 1 \<and> b_blockno (bufs s ! i) = b)"

definition bclean :: "'z bst_scheme \<Rightarrow> nat \<Rightarrow> bool" where
  "bclean s i = (b_valid (bufs s ! i) \<and> \<not> b_dirty (bufs s ! i) \<and> b_dev (bufs s ! i) = 1 \<longrightarrow>
     b_data (bufs s ! i) = disk s (b_blockno (bufs s ! i)))"

definition bio_inv :: "'z bst_scheme \<Rightarrow> nat set \<Rightarrow> bool" where
  "bio_inv s H = (
     length (bufs s) = NBUF \<and> distinct (lru s) \<and> set (lru s) = {..<NBUF} \<and>
     (\<forall>i j b. cached s b i \<and> cached s b j \<longrightarrow> i = j) \<and>
     (\<forall>i b. cached s b i \<longrightarrow> b < disksize s) \<and>
     (\<forall>b. length (disk s b) = BSIZE) \<and>
     (\<forall>i < NBUF. (b_valid (bufs s ! i) \<longrightarrow> length (b_data (bufs s ! i)) = BSIZE) \<and>
        (b_dirty (bufs s ! i) \<longrightarrow> b_valid (bufs s ! i) \<and> b_dev (bufs s ! i) = 1) \<and>
        (b_refcnt (bufs s ! i) \<noteq> 0 \<longrightarrow> b_dev (bufs s ! i) = 1)) \<and>
     (\<forall>i \<in> H. i < NBUF \<and> mine (SlBuf i) s \<and> b_refcnt (bufs s ! i) = 1 \<and>
        b_valid (bufs s ! i) \<and> b_dev (bufs s ! i) = 1) \<and>
     (\<forall>i < NBUF. b_refcnt (bufs s ! i) = 0 \<longrightarrow> \<not> locked (slk s (SlBuf i)) \<and> bclean s i))"

definition bview :: "'z bst_scheme \<Rightarrow> nat \<Rightarrow> block" where
  "bview s b = (case bfind 1 b s of
     Some i \<Rightarrow> if b_valid (bufs s ! i) then b_data (bufs s ! i) else disk s b
   | None \<Rightarrow> disk s b)"

definition dirtyb :: "'z bst_scheme \<Rightarrow> nat \<Rightarrow> bool" where
  "dirtyb s b = (\<exists>i. cached s b i \<and> b_dirty (bufs s ! i))"

definition free_bufs :: "'z bst_scheme \<Rightarrow> nat set" where
  "free_bufs s = {i. i < NBUF \<and> b_refcnt (bufs s ! i) = 0 \<and> \<not> b_dirty (bufs s ! i)}"

text \<open>A process runs and holds no spinlock; what the cache operations may change.\<close>

definition inctx :: "'z kst_scheme \<Rightarrow> bool" where
  "inctx s = (held s = [] \<and> (\<exists>p. cur s = Some p \<and> p < length (procs s)))"

definition woken :: "proc list \<Rightarrow> proc list \<Rightarrow> bool" where
  "woken ps qs = (length qs = length ps \<and>
     (\<forall>i < length ps. qs ! i = ps ! i \<or> state (ps ! i) = SLEEPING \<and> qs ! i = (ps ! i)\<lparr>state := RUNNABLE\<rparr>))"

definition bio_frame :: "'z bst_scheme \<Rightarrow> 'z bst_scheme \<Rightarrow> bool" where
  "bio_frame s t = (woken (procs s) (procs t) \<and> (\<forall>i. slk t (SlInode i) = slk s (SlInode i)) \<and>
     t = s\<lparr>procs := procs t, slk := slk t, bufs := bufs t, lru := lru t, disk := disk t, wlog := wlog t\<rparr>)"

lemma woken_refl [simp]: "woken ps ps"
  by (simp add: woken_def)

lemma woken_trans: "woken ps qs \<Longrightarrow> woken qs rs \<Longrightarrow> woken ps rs"
  unfolding woken_def
proof (intro conjI allI impI, goal_cases)
  case (2 i)
  then have "qs ! i = ps ! i \<or> state (ps ! i) = SLEEPING \<and> qs ! i = (ps ! i)\<lparr>state := RUNNABLE\<rparr>"
    and "rs ! i = qs ! i \<or> state (qs ! i) = SLEEPING \<and> rs ! i = (qs ! i)\<lparr>state := RUNNABLE\<rparr>"
    by auto
  then show ?case by (elim disjE conjE) simp_all
qed auto

lemma woken_wake: "woken (procs s) (procs (wakeup1 ch s))"
  by (simp add: woken_def wakeup1_def wake_def)

lemma woken_pid: "woken ps qs \<Longrightarrow> i < length ps \<Longrightarrow> pid (qs ! i) = pid (ps ! i)"
  by (auto simp: woken_def)

lemma bio_frame_refl [simp]: "bio_frame s s"
  by (simp add: bio_frame_def)

lemma bio_frameE:
  assumes "bio_frame s t"
  obtains p k b l d w where "t = s\<lparr>procs := p, slk := k, bufs := b, lru := l, disk := d, wlog := w\<rparr>"
    and "woken (procs s) p" and "\<And>i. k (SlInode i) = slk s (SlInode i)"
proof (rule that)
  show "t = s\<lparr>procs := procs t, slk := slk t, bufs := bufs t, lru := lru t, disk := disk t, wlog := wlog t\<rparr>"
    "woken (procs s) (procs t)" "\<And>i. slk t (SlInode i) = slk s (SlInode i)"
    using assms unfolding bio_frame_def by blast+
qed

lemma bio_frameI:
  assumes "t = s\<lparr>procs := p, slk := k, bufs := b, lru := l, disk := d, wlog := w\<rparr>"
    and "woken (procs s) p" and "\<And>i. k (SlInode i) = slk s (SlInode i)"
  shows "bio_frame s t"
  using assms by (simp add: bio_frame_def)

lemma bio_frame_trans:
  assumes "bio_frame s t" and "bio_frame t u"
  shows "bio_frame s u"
proof -
  obtain p k b l d w where t: "t = s\<lparr>procs := p, slk := k, bufs := b, lru := l, disk := d, wlog := w\<rparr>"
    "woken (procs s) p" "\<And>i. k (SlInode i) = slk s (SlInode i)" 
    by (rule bio_frameE[OF assms(1)], rule that)
  obtain p' k' b' l' d' w' where u: "u = t\<lparr>procs := p', slk := k', bufs := b', lru := l', disk := d', wlog := w'\<rparr>"
    "woken (procs t) p'" "\<And>i. k' (SlInode i) = slk t (SlInode i)" 
    by (rule bio_frameE[OF assms(2)], rule that)
  have e: "u = s\<lparr>procs := p', slk := k', bufs := b', lru := l', disk := d', wlog := w'\<rparr>" by (simp add: u(1) t(1))
  show ?thesis
    by (rule bio_frameI[OF e]) (use t u woken_trans[OF t(2), of p'] in simp_all)
qed

lemma bio_frame_fields:
  assumes "bio_frame s t"
  shows "held t = held s" "cur t = cur s" "disksize t = disksize s" "length (procs t) = length (procs s)"
    "slk t (SlInode i) = slk s (SlInode i)" "bst.more t = bst.more s" "mem t = mem s" "freelist t = freelist s"
    "myproc t = myproc s"
  using assms by (auto elim!: bio_frameE simp: woken_def myproc_def)

lemma inctx_frame: "bio_frame s t \<Longrightarrow> inctx s \<Longrightarrow> inctx t"
  by (auto simp: inctx_def bio_frame_fields)

lemma mypid_frame: "bio_frame s t \<Longrightarrow> inctx s \<Longrightarrow> mypid t = mypid s"
  by (erule bio_frameE) (auto simp: mypid_def inctx_def myproc_def woken_pid)

lemma find_in: "find P xs = Some x \<Longrightarrow> P x \<and> x \<in> set xs"
  by (induction xs) (auto split: if_splits)

lemma find_none: "find P xs = None \<longleftrightarrow> (\<forall>x \<in> set xs. \<not> P x)"
  by (induction xs) auto

lemma bio_invD:
  assumes "bio_inv s H"
  shows "length (bufs s) = NBUF" "distinct (lru s)" "set (lru s) = {..<NBUF}"
    "cached s b i \<Longrightarrow> cached s b j \<Longrightarrow> i = j" "cached s b i \<Longrightarrow> b < disksize s"
    "length (disk s b) = BSIZE" "i < NBUF \<Longrightarrow> b_valid (bufs s ! i) \<Longrightarrow> length (b_data (bufs s ! i)) = BSIZE"
    "i < NBUF \<Longrightarrow> b_dirty (bufs s ! i) \<Longrightarrow> b_valid (bufs s ! i) \<and> b_dev (bufs s ! i) = 1"
    "i \<in> H \<Longrightarrow> i < NBUF \<and> mine (SlBuf i) s \<and> b_refcnt (bufs s ! i) = 1 \<and> b_valid (bufs s ! i) \<and> b_dev (bufs s ! i) = 1"
    "i < NBUF \<Longrightarrow> b_refcnt (bufs s ! i) = 0 \<Longrightarrow> \<not> locked (slk s (SlBuf i)) \<and> bclean s i"
    "i < NBUF \<Longrightarrow> b_refcnt (bufs s ! i) \<noteq> 0 \<Longrightarrow> b_dev (bufs s ! i) = 1"
  using assms unfolding bio_inv_def by (blast+)

lemma bfind_iff:
  assumes "bio_inv s H"
  shows "bfind 1 b s = Some i \<longleftrightarrow> cached s b i" and "bfind 1 b s = None \<longleftrightarrow> (\<forall>i. \<not> cached s b i)"
proof -
  note D = bio_invD[OF assms]
  show n: "bfind 1 b s = None \<longleftrightarrow> (\<forall>i. \<not> cached s b i)"
    using D(3) by (auto simp: bfind_def find_none cached_def)
  have c: "cached s b j" if "bfind 1 b s = Some j" for j
    using find_in[of _ "lru s" j] that D(3) by (auto simp: bfind_def cached_def)
  show "bfind 1 b s = Some i \<longleftrightarrow> cached s b i"
  proof
    assume "cached s b i"
    then obtain j where "bfind 1 b s = Some j" using n by (cases "bfind 1 b s") auto
    then show "bfind 1 b s = Some i" using c D(4)[of b i j] \<open>cached s b i\<close> by auto
  qed (rule c)
qed

lemma bview_cached:
  assumes "bio_inv s H" and "cached s b i"
  shows "bview s b = (if b_valid (bufs s ! i) then b_data (bufs s ! i) else disk s b)"
  using bfind_iff(1)[OF assms(1), of b i] assms(2) by (simp add: bview_def)

lemma bview_uncached:
  assumes "bio_inv s H" and "\<And>i. \<not> cached s b i"
  shows "bview s b = disk s b"
  using bfind_iff(2)[OF assms(1), of b] assms(2) by (simp add: bview_def)

lemma bview_clean:
  assumes "bio_inv s H" and "\<not> dirtyb s b" and "\<And>i. cached s b i \<Longrightarrow> b_refcnt (bufs s ! i) = 0"
  shows "bview s b = disk s b"
proof (cases "\<exists>i. cached s b i")
  case True
  then obtain i where i: "cached s b i" by blast
  then have "i < NBUF" "\<not> b_dirty (bufs s ! i)" using assms(2) by (auto simp: cached_def dirtyb_def)
  then show ?thesis
    using bio_invD(10)[OF assms(1)] assms(3)[OF i] i
    by (auto simp: bview_cached[OF assms(1) i] bclean_def cached_def)
qed (simp add: bview_uncached[OF assms(1)])

subsection \<open>bread\<close>

lemma NBUF_30: "NBUF = 30" by (simp add: NBUF_def MAXOPBLOCKS_def)

lemma take_buf:
  assumes inv: "bio_inv s H" and i: "i < NBUF" "i \<notin> H" "b_refcnt (bufs s ! i) = 0"
    and nb: "b_valid nb" "b_dev nb = 1" "b_blockno nb = b" "b_refcnt nb = 1" "b_data nb = bview s b" "b_dirty nb = dirtyb s b"
    and b: "b < disksize s" "\<And>j. cached s b j \<Longrightarrow> j = i" "cached s b i \<or> \<not> b_dirty (bufs s ! i)"
    and len: "length (b_data nb) = BSIZE"
  defines "t \<equiv> s\<lparr>bufs := (bufs s)[i := nb], slk := (slk s)(SlBuf i := \<lparr>locked = True, lpid = mypid s\<rparr>)\<rparr>"
  shows "bio_inv t (insert i H)" and "cached t b i" and "bview t c = bview s c" and "dirtyb t c = dirtyb s c"
proof -
  note D = bio_invD[OF inv]
  have L: "length (bufs s) = NBUF" by (rule D(1))
  have bt: "bufs t ! j = (if j = i then nb else bufs s ! j)" if "j < NBUF" for j
    using that L by (simp add: t_def)
  have ct: "cached t c j \<longleftrightarrow> (if j = i then c = b else cached s c j)" for c j
    using i(1) nb L by (auto simp: cached_def t_def nth_list_update)
  have mp: "mypid t = mypid s" by (simp add: t_def mypid_def myproc_def)
  show "cached t b i" by (simp add: ct)
  show it: "bio_inv t (insert i H)"
    unfolding bio_inv_def
  proof (intro conjI allI ballI impI)
    show "length (bufs t) = NBUF" "distinct (lru t)" "set (lru t) = {..<NBUF}" using L D(2,3) by (simp_all add: t_def)
  next
    fix j k c assume "cached t c j \<and> cached t c k"
    then show "j = k" using b(2)[of j] b(2)[of k] D(4)[of c j k] by (auto simp: ct split: if_splits)
  next
    fix j c assume "cached t c j"
    then have "c < disksize s" using b(1) D(5)[of c j] by (auto simp: ct split: if_splits)
    then show "c < disksize t" by (simp add: t_def)
  next
    fix c show "length (disk t c) = BSIZE" using D(6) by (simp add: t_def)
  next
    fix j assume "j < NBUF" "b_valid (bufs t ! j)"
    then show "length (b_data (bufs t ! j)) = BSIZE" using len D(7) by (simp add: bt split: if_splits)
  next
    fix j assume j: "j < NBUF" "b_dirty (bufs t ! j)"
    show "b_valid (bufs t ! j)" "b_dev (bufs t ! j) = 1" using j nb D(8)[of j] by (auto simp: bt split: if_splits)
  next
    fix j assume "j < NBUF" "b_refcnt (bufs t ! j) \<noteq> 0"
    then show "b_dev (bufs t ! j) = 1" using nb D(11)[of j] by (auto simp: bt split: if_splits)
  next
    fix j assume j: "j \<in> insert i H"
    have jn: "j < NBUF" using j i(1) D(9) by auto
    show "j < NBUF" by (rule jn)
    show "mine (SlBuf j) t" using j D(9)[of j] by (auto simp: mine_def mp) (auto simp: t_def)
    show "b_refcnt (bufs t ! j) = 1" "b_valid (bufs t ! j)" "b_dev (bufs t ! j) = 1"
      using j jn nb D(9)[of j] by (auto simp: bt)
  next
    fix j assume j: "j < NBUF" "b_refcnt (bufs t ! j) = 0"
    then have ji: "j \<noteq> i" using nb(4) by (auto simp: bt)
    then show "\<not> locked (slk t (SlBuf j))" using j D(10)[of j] by (simp add: t_def bt)
    show "bclean t j" using j ji D(10)[of j] by (simp add: bclean_def bt) (simp add: t_def)
  qed
  have dt: "disk t = disk s" by (simp add: t_def)
  show "bview t c = bview s c"
  proof (cases "c = b")
    case True
    then show ?thesis using bview_cached[OF it, of b i] nb i(1) by (simp add: ct bt)
  next
    case False
    show ?thesis
    proof (cases "\<exists>j. j \<noteq> i \<and> cached s c j")
      case True
      then obtain j where j: "j \<noteq> i" "cached s c j" by blast
      then have "bufs t ! j = bufs s ! j" by (simp add: bt cached_def)
      then show ?thesis using bview_cached[OF it, of c j] bview_cached[OF inv j(2)] j by (simp add: ct dt)
    next
      case none: False
      then have "\<not> cached t c j" for j using False by (auto simp: ct)
      then have tc: "bview t c = disk s c" using bview_uncached[OF it] dt by simp
      show ?thesis
      proof (cases "cached s c i")
        case True
        then have "\<not> b_dirty (bufs s ! i)" using b(3) False by (auto simp: cached_def)
        then have "\<not> dirtyb s c" using none by (auto simp: dirtyb_def)
        then have "bview s c = disk s c" using none i(3) by (intro bview_clean[OF inv]) auto
        then show ?thesis by (simp add: tc)
      next
        case False
        then have "\<not> cached s c j" for j using none by (cases "j = i") auto
        then show ?thesis using tc bview_uncached[OF inv] by simp
      qed
    qed
  qed
  show "dirtyb t c = dirtyb s c"
  proof (cases "c = b")
    case True
    have "dirtyb t b \<longleftrightarrow> b_dirty nb"
    proof
      assume "dirtyb t b"
      then obtain j where j: "cached t b j" "b_dirty (bufs t ! j)" by (auto simp: dirtyb_def)
      then have "j = i" using b(2)[of j] by (cases "j = i") (simp_all add: ct)
      then show "b_dirty nb" using j(2) bt[OF i(1)] by simp
    next
      assume "b_dirty nb"
      then show "dirtyb t b" using bt[OF i(1)] by (auto simp: dirtyb_def ct intro!: exI[of _ i])
    qed
    then show ?thesis using True nb(6) by simp
  next
    case False
    have bj: "bufs t ! j = bufs s ! j" if "cached s c j" "j \<noteq> i" for j using that by (simp add: cached_def bt)
    have "\<not> b_dirty (bufs s ! i)" if "cached s c i" using that b(3) False by (auto simp: cached_def)
    then show ?thesis using False bj unfolding dirtyb_def ct by metis
  qed
qed

definition bread_post :: "nat \<Rightarrow> 'z bst_scheme \<Rightarrow> nat set \<Rightarrow> nat \<Rightarrow> 'z bst_scheme \<Rightarrow> bool" where
  "bread_post b s H i t = (i \<notin> H \<and> cached t b i \<and> bio_inv t (insert i H) \<and> bio_frame s t \<and>
     disk t = disk s \<and> wlog t = wlog s \<and> lru t = lru s \<and> b_refcnt (bufs s ! i) = 0 \<and> b_refcnt (bufs t ! i) = 1 \<and>
     b_data (bufs t ! i) = bview s b \<and> b_dirty (bufs t ! i) = dirtyb s b \<and>
     (\<forall>c. bview t c = bview s c) \<and> (\<forall>c. dirtyb t c = dirtyb s c) \<and> (\<forall>j. j \<noteq> i \<longrightarrow> bufs t ! j = bufs s ! j))"

lemma inctx_acq: "inctx s \<Longrightarrow> l \<notin> set (held s)"
  by (simp add: inctx_def)

lemma bread_post_take:
  assumes "bio_inv s H" and "i < NBUF" and "b_refcnt (bufs s ! i) = 0"
    and "b_valid nb" and "b_dev nb = 1" and "b_blockno nb = b" and "b_refcnt nb = 1"
    and "b_data nb = bview s b" and "b_dirty nb = dirtyb s b"
    and "b < disksize s" and "\<And>j. cached s b j \<Longrightarrow> j = i" and "cached s b i \<or> \<not> b_dirty (bufs s ! i)"
  shows "bread_post b s H i (s\<lparr>bufs := (bufs s)[i := nb], slk := (slk s)(SlBuf i := \<lparr>locked = True, lpid = mypid s\<rparr>)\<rparr>)"
    (is "bread_post b s H i ?t")
proof -
  note D = bio_invD[OF assms(1)]
  have iH: "i \<notin> H" using D(9) assms(3) by auto
  have len: "length (b_data nb) = BSIZE"
  proof (cases "bfind 1 b s")
    case None
    then show ?thesis using D(6) assms(8) by (simp add: bview_def)
  next
    case (Some j)
    then have "cached s b j" using bfind_iff(1)[OF assms(1)] by blast
    then show ?thesis using Some D(6) D(7)[of j] assms(8) by (auto simp: bview_def cached_def split: if_splits)
  qed
  have "bio_frame s ?t"
    by (rule bio_frameI[where p = "procs s" and k = "slk ?t" and b = "bufs ?t" and l = "lru s" and d = "disk s" and w = "wlog s"])
      auto
  then show ?thesis
    unfolding bread_post_def
    using take_buf[OF assms(1,2) iH assms(3-12) len] iH assms D(1) by simp
qed

lemma mypid_bst [simp]: "mypid (s\<lparr>bufs := b\<rparr>) = mypid s" "mypid (s\<lparr>lru := l\<rparr>) = mypid s"
  "mypid (s\<lparr>disk := d\<rparr>) = mypid s" "mypid (s\<lparr>wlog := w\<rparr>) = mypid s"
  by (simp_all add: mypid_def myproc_def)

lemma held_upd_buf [simp]: "held (upd_buf i f s) = held s" "slk (upd_buf i f s) = slk s"
  "mypid (upd_buf i f s) = mypid s" "procs (upd_buf i f s) = procs s" "cur (upd_buf i f s) = cur s"
  by (simp_all add: upd_buf_def)

lemma bget_hit:
  assumes "inctx s" and "bfind dev b s = Some i" and "\<not> locked (slk s (SlBuf i))"
  shows "bget dev b s = Ret i (s\<lparr>bufs := (bufs s)[i := (bufs s ! i)\<lparr>b_refcnt := b_refcnt (bufs s ! i) + 1\<rparr>],
     slk := (slk s)(SlBuf i := \<lparr>locked = True, lpid = mypid s\<rparr>)\<rparr>)"
proof -
  have nl: "held s = []" using assms(1) by (simp add: inctx_def)
  have "bfind dev b (s\<lparr>held := h\<rparr>) = Some i" for h using assms(2) by (simp add: bfind_def)
  then show ?thesis
    using assms(3) nl by (simp add: bget_def acquire_def release_def acquiresleep_free) (simp add: upd_buf_def)
qed

lemma bget_miss:
  assumes "inctx s" and "bfind dev b s = None" and "bvictim s = Some i" and "\<not> locked (slk s (SlBuf i))"
  shows "bget dev b s = Ret i (s\<lparr>bufs := (bufs s)[i := (bufs s ! i)\<lparr>b_dev := dev, b_blockno := b, b_valid := False,
       b_dirty := False, b_refcnt := 1\<rparr>],
     slk := (slk s)(SlBuf i := \<lparr>locked = True, lpid = mypid s\<rparr>)\<rparr>)"
proof -
  have nl: "held s = []" using assms(1) by (simp add: inctx_def)
  have "bfind dev b (s\<lparr>held := h\<rparr>) = None" "bvictim (s\<lparr>held := h\<rparr>) = Some i" for h
    using assms(2,3) by (simp_all add: bfind_def bvictim_def)
  then show ?thesis
    using assms(4) nl by (simp add: bget_def acquire_def release_def acquiresleep_free) (simp add: upd_buf_def)
qed

lemma bget_none:
  assumes "inctx s" and "bfind dev b s = None" and "bvictim s = None"
  shows "bget dev b s = Panic ''bget: no buffers''"
  using assms by (simp add: bget_def acquire_def inctx_def bfind_def bvictim_def)

lemma iderw_read:
  assumes "inctx s" and "mine (SlBuf i) s" and "\<not> b_valid (bufs s ! i)" and "\<not> b_dirty (bufs s ! i)"
    and "b_dev (bufs s ! i) = 1" and "b_blockno (bufs s ! i) < disksize s" and "i < length (bufs s)"
  shows "iderw i s = Ret () (s\<lparr>bufs := (bufs s)[i := (bufs s ! i)\<lparr>b_data := disk s (b_blockno (bufs s ! i)), b_valid := True\<rparr>]\<rparr>)"
  using assms by (simp add: iderw_def holdingsleep_run inctx_def Let_def upd_buf_def)

lemma iderw_write:
  assumes "inctx s" and "mine (SlBuf i) s" and "b_dirty (bufs s ! i)"
    and "b_dev (bufs s ! i) = 1" and "b_blockno (bufs s ! i) < disksize s" and "i < length (bufs s)"
  shows "iderw i s = Ret () (s\<lparr>bufs := (bufs s)[i := (bufs s ! i)\<lparr>b_dirty := False, b_valid := True\<rparr>],
     disk := (disk s)(b_blockno (bufs s ! i) := b_data (bufs s ! i)),
     wlog := wlog s @ [(b_blockno (bufs s ! i), b_data (bufs s ! i))]\<rparr>)"
  using assms by (simp add: iderw_def holdingsleep_run inctx_def Let_def upd_buf_def)

lemma bread_run:
  assumes inv: "bio_inv s H" and ctx: "inctx s" and b: "b < disksize s"
    and idle: "\<And>i. cached s b i \<Longrightarrow> b_refcnt (bufs s ! i) = 0"
    and avail: "(\<exists>i. cached s b i) \<or> free_bufs s \<noteq> {}"
  shows "returns (bread 1 b s) (\<lambda>i t. bread_post b s H i t)"
proof -
  note D = bio_invD[OF inv]
  have L: "length (bufs s) = NBUF" by (rule D(1))
  have nl: "l \<notin> set (held s)" for l by (rule inctx_acq[OF ctx])
  show ?thesis
  proof (cases "\<exists>i. cached s b i")
    case True
    then obtain i where i: "cached s b i" by blast
    then have iN: "i < NBUF" and dv: "b_dev (bufs s ! i) = 1" "b_blockno (bufs s ! i) = b" by (auto simp: cached_def)
    have rc: "b_refcnt (bufs s ! i) = 0" by (rule idle[OF i])
    have bf: "bfind 1 b s = Some i" using bfind_iff(1)[OF inv] i by blast
    have unl: "\<not> locked (slk s (SlBuf i))" using D(10)[OF iN rc] by simp
    have bw: "bview s b = (if b_valid (bufs s ! i) then b_data (bufs s ! i) else disk s b)"
      by (rule bview_cached[OF inv i])
    have dw: "b_dirty (bufs s ! i) = dirtyb s b" unfolding dirtyb_def using i D(4) by blast
    have uniq: "\<And>j. cached s b j \<Longrightarrow> j = i" using D(4) i by blast
    let ?lk = "(slk s)(SlBuf i := \<lparr>locked = True, lpid = mypid s\<rparr>)"
    show ?thesis
    proof (cases "b_valid (bufs s ! i)")
      case True
      have "bread 1 b s = Ret i (s\<lparr>bufs := (bufs s)[i := (bufs s ! i)\<lparr>b_refcnt := 1\<rparr>], slk := ?lk\<rparr>)"
        using bget_hit[OF ctx bf unl] L iN rc True by (simp add: bread_def)
      moreover have "bread_post b s H i (s\<lparr>bufs := (bufs s)[i := (bufs s ! i)\<lparr>b_refcnt := 1\<rparr>], slk := ?lk\<rparr>)"
        by (rule bread_post_take[OF inv iN rc _ _ _ _ _ _ b uniq]) (use True dv bw dw i in simp_all)
      ultimately show ?thesis by simp
    next
      case False
      have nd: "\<not> b_dirty (bufs s ! i)" using D(8)[OF iN] False by blast
      have "bread 1 b s = Ret i (s\<lparr>bufs := (bufs s)[i := (bufs s ! i)\<lparr>b_refcnt := 1, b_data := disk s b, b_valid := True\<rparr>], slk := ?lk\<rparr>)"
        using bget_hit[OF ctx bf unl] ctx L iN rc False nd dv b
        by (simp add: bread_def) (simp add: iderw_read mine_def inctx_def)
      moreover have "bread_post b s H i (s\<lparr>bufs := (bufs s)[i := (bufs s ! i)\<lparr>b_refcnt := 1, b_data := disk s b, b_valid := True\<rparr>], slk := ?lk\<rparr>)"
        by (rule bread_post_take[OF inv iN rc _ _ _ _ _ _ b uniq]) (use False nd dv bw dw i in simp_all)
      ultimately show ?thesis by simp
    qed
  next
    case False
    then have bf: "bfind 1 b s = None" using bfind_iff(2)[OF inv] by blast
    obtain k where k: "k \<in> free_bufs s" using avail False by blast
    have "bvictim s \<noteq> None"
      using k D(3) by (auto simp: bvictim_def find_none free_bufs_def)
    then obtain i where v: "bvictim s = Some i" by blast
    then have i: "i < NBUF" "b_refcnt (bufs s ! i) = 0" "\<not> b_dirty (bufs s ! i)"
      using find_in[of _ "rev (lru s)" i] D(3) by (auto simp: bvictim_def)
    have unl: "\<not> locked (slk s (SlBuf i))" using D(10)[OF i(1,2)] by simp
    have bw: "bview s b = disk s b" using bview_uncached[OF inv] False by blast
    have dw: "\<not> dirtyb s b" using False by (auto simp: dirtyb_def)
    let ?lk = "(slk s)(SlBuf i := \<lparr>locked = True, lpid = mypid s\<rparr>)"
    let ?nb = "(bufs s ! i)\<lparr>b_dev := 1, b_blockno := b, b_dirty := False, b_refcnt := 1, b_data := disk s b, b_valid := True\<rparr>"
    have "bread 1 b s = Ret i (s\<lparr>bufs := (bufs s)[i := ?nb], slk := ?lk\<rparr>)"
      using bget_miss[OF ctx bf v unl] ctx L i b
      by (simp add: bread_def) (simp add: iderw_read mine_def inctx_def)
    moreover have "bread_post b s H i (s\<lparr>bufs := (bufs s)[i := ?nb], slk := ?lk\<rparr>)"
      by (rule bread_post_take[OF inv i(1,2) _ _ _ _ _ _ b]) (use False bw dw i in auto)
    ultimately show ?thesis by simp
  qed
qed

subsection \<open>bwrite, brelse and changes of a held buffer\<close>

lemma held_bview: "bio_inv s H \<Longrightarrow> i \<in> H \<Longrightarrow> bview s (b_blockno (bufs s ! i)) = b_data (bufs s ! i)"
  using bview_cached[of s H "b_blockno (bufs s ! i)" i] bio_invD(9)[of s H i] by (auto simp: cached_def)

lemma held_cached: "bio_inv s H \<Longrightarrow> i \<in> H \<Longrightarrow> cached s (b_blockno (bufs s ! i)) i"
  using bio_invD(9)[of s H i] by (auto simp: cached_def)

lemma held_dirtyb: "bio_inv s H \<Longrightarrow> i \<in> H \<Longrightarrow> dirtyb s (b_blockno (bufs s ! i)) = b_dirty (bufs s ! i)"
  unfolding dirtyb_def using held_cached bio_invD(4) by blast

text \<open>A state that differs in the held buffer \<open>i\<close> only, with the same block in it.\<close>

lemma change_buf:
  assumes inv: "bio_inv s H" and i: "i \<in> H"
    and nb: "b_valid nb" "b_dev nb = 1" "b_blockno nb = b_blockno (bufs s ! i)" "b_refcnt nb = 1"
      "length (b_data nb) = BSIZE"
    and t: "bufs t = (bufs s)[i := nb]" "lru t = lru s" "disksize t = disksize s" "slk t = slk s" "mypid t = mypid s"
    and dk: "disk t = disk s \<or> disk t = (disk s)(b_blockno nb := b_data nb)"
  shows "bio_inv t H" and "bview t c = (if c = b_blockno nb then b_data nb else bview s c)"
    and "dirtyb t c = (if c = b_blockno nb then b_dirty nb else dirtyb s c)"
    and "cached t c j = cached s c j"
proof -
  note D = bio_invD[OF inv]
  have iN: "i < NBUF" and iL: "i < length (bufs s)" using D(1,9) i by auto
  have bt: "bufs t ! j = (if j = i then nb else bufs s ! j)" if "j < NBUF" for j
    using that D(1) by (simp add: t(1))
  show ct: "cached t c j = cached s c j" for c j
    using nb D(9)[OF i] by (auto simp: cached_def bt split: if_splits)
  have other: "j = i" if "cached s (b_blockno nb) j" for j
    using that held_cached[OF inv i] D(4) nb(3) by metis
  show it: "bio_inv t H"
    unfolding bio_inv_def
  proof (intro conjI allI ballI impI)
    show "length (bufs t) = NBUF" "distinct (lru t)" "set (lru t) = {..<NBUF}" using D(1-3) by (simp_all add: t)
  next
    fix j k c assume "cached t c j \<and> cached t c k" then show "j = k" using D(4) by (auto simp: ct)
  next
    fix j c assume "cached t c j" then show "c < disksize t" using D(5) by (auto simp: ct t(3))
  next
    fix c show "length (disk t c) = BSIZE" using D(6) dk nb(5) by auto
  next
    fix j assume "j < NBUF" "b_valid (bufs t ! j)"
    then show "length (b_data (bufs t ! j)) = BSIZE" using D(7)[of j] nb(5) by (auto simp: bt split: if_splits)
  next
    fix j assume "j < NBUF" "b_dirty (bufs t ! j)"
    then show "b_valid (bufs t ! j)" "b_dev (bufs t ! j) = 1" using D(8)[of j] nb by (auto simp: bt split: if_splits)
  next
    fix j assume "j < NBUF" "b_refcnt (bufs t ! j) \<noteq> 0"
    then show "b_dev (bufs t ! j) = 1" using nb D(11)[of j] by (auto simp: bt split: if_splits)
  next
    fix j assume j: "j \<in> H"
    then show "j < NBUF" "b_refcnt (bufs t ! j) = 1" "b_valid (bufs t ! j)" "b_dev (bufs t ! j) = 1"
      using D(9)[of j] nb by (auto simp: bt)
    show "mine (SlBuf j) t" using D(9)[OF j] by (simp add: mine_def t)
  next
    fix j assume j: "j < NBUF" "b_refcnt (bufs t ! j) = 0"
    then have ji: "j \<noteq> i" using nb(4) by (auto simp: bt)
    then have z: "bufs t ! j = bufs s ! j" "b_refcnt (bufs s ! j) = 0" using j by (simp_all add: bt)
    then show "\<not> locked (slk t (SlBuf j))" using j D(10)[of j] by (simp add: t)
    show "bclean t j"
      using D(10)[of j] j z ji other[of j] dk unfolding bclean_def z(1) by (auto simp: cached_def)
  qed
  have hb: "cached s (b_blockno nb) i" using held_cached[OF inv i] nb(3) by simp
  show "bview t c = (if c = b_blockno nb then b_data nb else bview s c)"
  proof (cases "c = b_blockno nb")
    case True
    then show ?thesis using bview_cached[OF it, of c i] hb nb iN by (simp add: ct bt)
  next
    case False
    then have dc: "disk t c = disk s c" using dk by auto
    show ?thesis
    proof (cases "\<exists>j. cached s c j")
      case True
      then obtain j where j: "cached s c j" by blast
      then have "j \<noteq> i" using False nb(3) by (auto simp: cached_def)
      then have "bufs t ! j = bufs s ! j" using j by (simp add: bt cached_def)
      then show ?thesis using False bview_cached[OF it, of c j] bview_cached[OF inv j] j dc by (simp add: ct)
    next
      case False
      then show ?thesis
        using \<open>c \<noteq> b_blockno nb\<close> bview_uncached[OF it, of c] bview_uncached[OF inv, of c] dc by (simp add: ct)
    qed
  qed
  show "dirtyb t c = (if c = b_blockno nb then b_dirty nb else dirtyb s c)"
  proof (cases "c = b_blockno nb")
    case True
    have "dirtyb t c = b_dirty (bufs t ! i)"
      unfolding dirtyb_def ct True using hb other by blast
    then show ?thesis using True iN by (simp add: bt)
  next
    case False
    have "bufs t ! j = bufs s ! j" if "cached s c j" for j
      using that False nb(3) by (auto simp: cached_def bt)
    then show ?thesis using False unfolding dirtyb_def ct by auto
  qed
qed

lemma set_data_run:
  assumes "bio_inv s H" and "i \<in> H" and "length d = BSIZE"
  shows "bio_inv (set_data i d s) H"
    and "bview (set_data i d s) c = (if c = b_blockno (bufs s ! i) then d else bview s c)"
    and "dirtyb (set_data i d s) c = dirtyb s c"
    and "bio_frame s (set_data i d s)" and "disk (set_data i d s) = disk s" and "wlog (set_data i d s) = wlog s"
    and "lru (set_data i d s) = lru s"
    and "j \<noteq> i \<Longrightarrow> bufs (set_data i d s) ! j = bufs s ! j"
    and "bufs (set_data i d s) ! i = (bufs s ! i)\<lparr>b_data := d\<rparr>"
    and "cached (set_data i d s) c j = cached s c j"
proof -
  have iL: "i < length (bufs s)" using bio_invD(1,9)[OF assms(1)] assms(2) by auto
  have e: "set_data i d s = s\<lparr>bufs := (bufs s)[i := (bufs s ! i)\<lparr>b_data := d\<rparr>]\<rparr>"
    by (simp add: set_data_def upd_buf_def)
  note c = change_buf[OF assms(1,2), of "(bufs s ! i)\<lparr>b_data := d\<rparr>" "set_data i d s"]
  have h: "b_valid (bufs s ! i)" "b_dev (bufs s ! i) = 1" "b_refcnt (bufs s ! i) = 1"
    using bio_invD(9)[OF assms(1,2)] by auto
  show "bio_inv (set_data i d s) H" by (rule c(1)) (use h assms(3) in \<open>simp_all add: e\<close>)
  have "bview (set_data i d s) c = (if c = b_blockno ((bufs s ! i)\<lparr>b_data := d\<rparr>) then b_data ((bufs s ! i)\<lparr>b_data := d\<rparr>) else bview s c)"
    by (rule c(2)) (use h assms(3) in \<open>simp_all add: e\<close>)
  then show "bview (set_data i d s) c = (if c = b_blockno (bufs s ! i) then d else bview s c)" by simp
  have "dirtyb (set_data i d s) c = (if c = b_blockno ((bufs s ! i)\<lparr>b_data := d\<rparr>) then b_dirty ((bufs s ! i)\<lparr>b_data := d\<rparr>) else dirtyb s c)"
    by (rule c(3)) (use h assms(3) in \<open>simp_all add: e\<close>)
  then show "dirtyb (set_data i d s) c = dirtyb s c" using held_dirtyb[OF assms(1,2)] by simp
  show "cached (set_data i d s) c j = cached s c j" by (rule c(4)) (use h assms(3) in \<open>simp_all add: e\<close>)
  show "bio_frame s (set_data i d s)"
    by (rule bio_frameI[where p = "procs s" and k = "slk s" and l = "lru s" and d = "disk s" and w = "wlog s"
          and b = "bufs (set_data i d s)"]) (simp_all add: e)
  show "disk (set_data i d s) = disk s" "wlog (set_data i d s) = wlog s" "lru (set_data i d s) = lru s"
    "bufs (set_data i d s) ! i = (bufs s ! i)\<lparr>b_data := d\<rparr>"
    "j \<noteq> i \<Longrightarrow> bufs (set_data i d s) ! j = bufs s ! j" using iL by (simp_all add: e)
qed

lemma bwrite_run:
  assumes "bio_inv s H" and "inctx s" and "i \<in> H"
  shows "returns (bwrite i s) (\<lambda>_ t. bio_inv t H \<and> bio_frame s t \<and> lru t = lru s \<and>
    disk t = (disk s)(b_blockno (bufs s ! i) := b_data (bufs s ! i)) \<and>
    wlog t = wlog s @ [(b_blockno (bufs s ! i), b_data (bufs s ! i))] \<and>
    (\<forall>c. bview t c = bview s c) \<and> (\<forall>c. dirtyb t c = (dirtyb s c \<and> c \<noteq> b_blockno (bufs s ! i))) \<and>
    (\<forall>j. j \<noteq> i \<longrightarrow> bufs t ! j = bufs s ! j) \<and> (\<forall>c j. cached t c j = cached s c j) \<and>
    bufs t ! i = (bufs s ! i)\<lparr>b_dirty := False, b_valid := True\<rparr>)"
proof -
  have h: "i < NBUF" "mine (SlBuf i) s" "b_valid (bufs s ! i)" "b_dev (bufs s ! i) = 1" "b_refcnt (bufs s ! i) = 1"
    using bio_invD(9)[OF assms(1,3)] by auto
  have iL: "i < length (bufs s)" using h(1) bio_invD(1)[OF assms(1)] by simp
  have b: "b_blockno (bufs s ! i) < disksize s" using bio_invD(5)[OF assms(1) held_cached[OF assms(1,3)]] .
  let ?nb = "(bufs s ! i)\<lparr>b_dirty := False, b_valid := True\<rparr>"
  let ?t = "s\<lparr>bufs := (bufs s)[i := ?nb],
     disk := (disk s)(b_blockno (bufs s ! i) := b_data (bufs s ! i)),
     wlog := wlog s @ [(b_blockno (bufs s ! i), b_data (bufs s ! i))]\<rparr>"
  have run: "bwrite i s = Ret () ?t"
    using h b iL assms(2)
    by (simp add: bwrite_def holdingsleep_run inctx_def upd_buf_def iderw_write mine_def)
  note c = change_buf[OF assms(1,3), of ?nb ?t]
  have len: "length (b_data (bufs s ! i)) = BSIZE" using bio_invD(7)[OF assms(1) h(1,3)] .
  have "bio_inv ?t H" by (rule c(1)) (use h len in simp_all)
  moreover have "bview ?t c = bview s c" for c
  proof -
    have "bview ?t c = (if c = b_blockno ?nb then b_data ?nb else bview s c)" by (rule c(2)) (use h len in simp_all)
    then show ?thesis using held_bview[OF assms(1,3)] by auto
  qed
  moreover have "dirtyb ?t c = (dirtyb s c \<and> c \<noteq> b_blockno (bufs s ! i))" for c
  proof -
    have "dirtyb ?t c = (if c = b_blockno ?nb then b_dirty ?nb else dirtyb s c)" by (rule c(3)) (use h len in simp_all)
    then show ?thesis by auto
  qed
  moreover have "cached ?t c j = cached s c j" for c j by (rule c(4)) (use h len in simp_all)
  moreover have "bio_frame s ?t"
    by (rule bio_frameI[where p = "procs s" and k = "slk s" and l = "lru s" and d = "disk ?t" and w = "wlog ?t"
          and b = "bufs ?t"]) simp_all
  ultimately show ?thesis unfolding run using iL by simp
qed

lemma brelse_run:
  assumes inv: "bio_inv s H" and ctx: "inctx s" and i: "i \<in> H"
    and clean: "b_dirty (bufs s ! i) \<or> b_data (bufs s ! i) = disk s (b_blockno (bufs s ! i))"
  shows "returns (brelse i s) (\<lambda>_ t. bio_inv t (H - {i}) \<and> bio_frame s t \<and> disk t = disk s \<and> wlog t = wlog s \<and>
    (\<forall>c. bview t c = bview s c) \<and> (\<forall>c. dirtyb t c = dirtyb s c) \<and> (\<forall>c j. cached t c j = cached s c j) \<and>
    (\<forall>j. j \<noteq> i \<longrightarrow> bufs t ! j = bufs s ! j) \<and>
    bufs t ! i = (bufs s ! i)\<lparr>b_refcnt := 0\<rparr> \<and>
    lru t = i # remove1 i (lru s))"
proof -
  note D = bio_invD[OF inv]
  have h: "i < NBUF" "mine (SlBuf i) s" "b_valid (bufs s ! i)" "b_dev (bufs s ! i) = 1" "b_refcnt (bufs s ! i) = 1"
    using D(9)[OF i] by auto
  have iL: "i < length (bufs s)" using h(1) D(1) by simp
  let ?nb = "(bufs s ! i)\<lparr>b_refcnt := 0\<rparr>"
  let ?k = "(slk s)(SlBuf i := \<lparr>locked = False, lpid = 0\<rparr>)"
  let ?l = "i # remove1 i (lru s)"
  let ?w = "map (wake (ChSleep (SlBuf i))) (procs s)"
  let ?t = "s\<lparr>procs := ?w, slk := ?k, bufs := (bufs s)[i := ?nb], lru := ?l\<rparr>"
  have run: "brelse i s = Ret () ?t"
    using h(2,5) iL ctx
    by (simp add: brelse_def holdingsleep_run inctx_def releasesleep_run wakeup1_def acquire_def release_def
        upd_buf_def Let_def)
  have bt: "bufs ?t ! j = (if j = i then ?nb else bufs s ! j)" for j using iL by simp
  have ct: "cached ?t c j = cached s c j" for c j unfolding cached_def bt by auto
  have fr: "bio_frame s ?t"
    by (rule bio_frameI[where p = ?w and k = ?k and l = ?l and d = "disk s" and w = "wlog s" and b = "bufs ?t"])
      (use woken_wake[of s "ChSleep (SlBuf i)"] in \<open>simp_all add: wakeup1_def\<close>)
  have mp: "mypid ?t = mypid s" by (rule mypid_frame[OF fr ctx])
  have it: "bio_inv ?t (H - {i})"
    unfolding bio_inv_def
  proof (intro conjI allI ballI impI)
    show "length (bufs ?t) = NBUF" using D(1) by simp
    show "distinct (lru ?t)" "set (lru ?t) = {..<NBUF}" using D(2,3) h(1) by auto
  next
    fix j k c assume "cached ?t c j \<and> cached ?t c k" then show "j = k" using D(4) unfolding ct by blast
  next
    fix j c assume "cached ?t c j" then show "c < disksize ?t" using D(5) unfolding ct by simp
  next
    fix c show "length (disk ?t c) = BSIZE" using D(6) by simp
  next
    fix j assume "j < NBUF" "b_valid (bufs ?t ! j)"
    then show "length (b_data (bufs ?t ! j)) = BSIZE" using D(7)[of j] unfolding bt by (auto split: if_splits)
  next
    fix j assume "j < NBUF" "b_dirty (bufs ?t ! j)"
    then show "b_valid (bufs ?t ! j)" "b_dev (bufs ?t ! j) = 1" using D(8)[of j] unfolding bt by (auto split: if_splits)
  next
    fix j assume "j < NBUF" "b_refcnt (bufs ?t ! j) \<noteq> 0"
    then show "b_dev (bufs ?t ! j) = 1" using D(11)[of j] unfolding bt by (auto split: if_splits)
  next
    fix j assume j: "j \<in> H - {i}"
    then show "j < NBUF" "b_refcnt (bufs ?t ! j) = 1" "b_valid (bufs ?t ! j)" "b_dev (bufs ?t ! j) = 1"
      using D(9)[of j] unfolding bt by auto
    show "mine (SlBuf j) ?t" using D(9)[of j] j unfolding mine_def mp by auto
  next
    fix j assume j: "j < NBUF" "b_refcnt (bufs ?t ! j) = 0"
    show "\<not> locked (slk ?t (SlBuf j))" using j D(10)[of j] unfolding bt by (auto split: if_splits)
    show "bclean ?t j"
    proof (cases "j = i")
      case True
      then show ?thesis using clean by (auto simp: bclean_def bt iL)
    next
      case False
      then show ?thesis using j D(10)[of j] unfolding bt by (simp add: bclean_def)
    qed
  qed
  have "bview ?t c = bview s c" for c
  proof (cases "\<exists>j. cached s c j")
    case True
    then obtain j where j: "cached s c j" by blast
    have "b_valid (bufs ?t ! j) = b_valid (bufs s ! j)" "b_data (bufs ?t ! j) = b_data (bufs s ! j)"
      unfolding bt by auto
    then show ?thesis using bview_cached[OF it, of c j] bview_cached[OF inv j] j unfolding ct by simp
  next
    case False
    then have "bview ?t c = disk ?t c" using bview_uncached[OF it] unfolding ct by blast
    then show ?thesis using bview_uncached[OF inv, of c] False by simp
  qed
  moreover have "dirtyb ?t c = dirtyb s c" for c
  proof -
    have "b_dirty (bufs ?t ! j) = b_dirty (bufs s ! j)" for j unfolding bt by simp
    then show ?thesis unfolding dirtyb_def ct by simp
  qed
  ultimately have "bio_inv ?t (H - {i}) \<and> bio_frame s ?t \<and> disk ?t = disk s \<and> wlog ?t = wlog s \<and>
    (\<forall>c. bview ?t c = bview s c) \<and> (\<forall>c. dirtyb ?t c = dirtyb s c) \<and> (\<forall>c j. cached ?t c j = cached s c j) \<and>
    (\<forall>j. j \<noteq> i \<longrightarrow> bufs ?t ! j = bufs s ! j) \<and> bufs ?t ! i = ?nb \<and> lru ?t = ?l"
    using it fr ct bt by simp
  then show ?thesis unfolding run returns_Ret .
qed

subsection \<open>Sequences of block writes\<close>

definition apply_writes :: "(nat \<times> block) list \<Rightarrow> (nat \<Rightarrow> block) \<Rightarrow> nat \<Rightarrow> block" where
  "apply_writes ws v = fold (\<lambda>(b, d) v. v(b := d)) ws v"

lemma apply_writes_Nil [simp]: "apply_writes [] v = v"
  by (simp add: apply_writes_def)

lemma apply_writes_Cons [simp]: "apply_writes ((b, d) # ws) v = apply_writes ws (v(b := d))"
  by (simp add: apply_writes_def)

lemma apply_writes_append: "apply_writes (ws @ us) v = apply_writes us (apply_writes ws v)"
  by (simp add: apply_writes_def)

lemma apply_writes_out: "b \<notin> fst ` set ws \<Longrightarrow> apply_writes ws v b = v b"
  by (induction ws arbitrary: v) force+

lemma apply_writes_in: "distinct (map fst ws) \<Longrightarrow> (b, d) \<in> set ws \<Longrightarrow> apply_writes ws v b = d"
proof (induction ws arbitrary: v)
  case (Cons w ws)
  then show ?case by (cases w) (auto simp: apply_writes_out)
qed simp

text \<open>Writes of values that a map \<open>g\<close> gives: each block ends at \<open>g\<close> or is untouched.\<close>

lemma apply_writes_vals:
  assumes "\<And>b d. (b, d) \<in> set ws \<Longrightarrow> d = g b"
  shows "apply_writes ws v b = (if b \<in> fst ` set ws then g b else v b)"
  using assms
proof (induction ws arbitrary: v)
  case (Cons w ws)
  obtain c d where w: "w = (c, d)" by (cases w)
  have "d = g c" using Cons.prems[of c d] by (simp add: w)
  moreover have "apply_writes ws (v(c := d)) b = (if b \<in> fst ` set ws then g b else (v(c := d)) b)"
    by (rule Cons.IH) (use Cons.prems in auto)
  ultimately show ?case by (auto simp: w)
qed simp

lemma length_apply_writes:
  "(\<And>b. length (v b) = n) \<Longrightarrow> (\<And>b d. (b, d) \<in> set ws \<Longrightarrow> length d = n) \<Longrightarrow> length (apply_writes ws v b) = n"
proof (induction ws arbitrary: v)
  case (Cons w ws)
  obtain c e where w: "w = (c, e)" by (cases w)
  have "length e = n" using Cons.prems(2)[of c e] by (simp add: w)
  then have "length (apply_writes ws (v(c := e)) b) = n"
    by (intro Cons.IH) (use Cons.prems in auto)
  then show ?case by (simp add: w)
qed simp

subsection \<open>The contract of a block store\<close>

text \<open>What the log and the file system rely on.  \<open>ok s H\<close>: the store is consistent and the caller holds
  the handles \<open>H\<close>; \<open>blk s i\<close> is the block of handle \<open>i\<close>, \<open>got s i\<close> its content; \<open>view\<close> is the content of
  a block as readers see it, \<open>platter\<close> its content on the disk, \<open>hist\<close> the disk writes so far;
  blocks in \<open>pinned\<close> are modified in memory and not evicted; \<open>readable\<close> blocks are in range and not held;
  \<open>room\<close> counts the free buffers.\<close>

locale block_store =
  fixes rd :: "nat \<Rightarrow> 's \<Rightarrow> (nat, 's) outcome"
    and put :: "nat \<Rightarrow> block \<Rightarrow> 's \<Rightarrow> 's"
    and wr rel :: "nat \<Rightarrow> 's \<Rightarrow> (unit, 's) outcome"
    and ok :: "'s \<Rightarrow> nat set \<Rightarrow> bool"
    and blk :: "'s \<Rightarrow> nat \<Rightarrow> nat"
    and got :: "'s \<Rightarrow> nat \<Rightarrow> block"
    and view platter :: "'s \<Rightarrow> nat \<Rightarrow> block"
    and hist :: "'s \<Rightarrow> (nat \<times> block) list"
    and pinned :: "'s \<Rightarrow> nat set"
    and readable :: "'s \<Rightarrow> nat \<Rightarrow> bool"
    and room :: "'s \<Rightarrow> nat"
    and frame :: "'s \<Rightarrow> 's \<Rightarrow> bool"
  assumes rd_law: "ok s H \<Longrightarrow> readable s b \<Longrightarrow> b \<in> pinned s \<or> 0 < room s \<Longrightarrow>
      returns (rd b s) (\<lambda>i t. i \<notin> H \<and> ok t (insert i H) \<and> frame s t \<and> blk t i = b \<and> view t = view s \<and>
        platter t = platter s \<and> hist t = hist s \<and> pinned t = pinned s \<and>
        room s \<le> room t + (if b \<in> pinned s then 0 else 1) \<and> (\<forall>j \<in> H. blk t j = blk s j) \<and>
        (\<forall>c. readable t c = (readable s c \<and> c \<noteq> b)))"
    and got_law: "ok s H \<Longrightarrow> i \<in> H \<Longrightarrow> got s i = view s (blk s i) \<and> length (got s i) = BSIZE"
    and put_law: "ok s H \<Longrightarrow> i \<in> H \<Longrightarrow> length d = BSIZE \<Longrightarrow>
      ok (put i d s) H \<and> frame s (put i d s) \<and> view (put i d s) = (view s)(blk s i := d) \<and>
      platter (put i d s) = platter s \<and> hist (put i d s) = hist s \<and> pinned (put i d s) = pinned s \<and>
      room (put i d s) = room s \<and> (\<forall>j. blk (put i d s) j = blk s j) \<and> readable (put i d s) = readable s"
    and wr_law: "ok s H \<Longrightarrow> i \<in> H \<Longrightarrow> returns (wr i s) (\<lambda>_ t. ok t H \<and> frame s t \<and> view t = view s \<and>
      platter t = (platter s)(blk s i := view s (blk s i)) \<and> hist t = hist s @ [(blk s i, view s (blk s i))] \<and>
      pinned t = pinned s - {blk s i} \<and> room t = room s \<and> (\<forall>j. blk t j = blk s j) \<and> readable t = readable s)"
    and rel_law: "ok s H \<Longrightarrow> i \<in> H \<Longrightarrow> blk s i \<in> pinned s \<or> view s (blk s i) = platter s (blk s i) \<Longrightarrow>
      returns (rel i s) (\<lambda>_ t. ok t (H - {i}) \<and> frame s t \<and> view t = view s \<and> platter t = platter s \<and>
        hist t = hist s \<and> pinned t = pinned s \<and> room t = room s + (if blk s i \<in> pinned s then 0 else 1) \<and>
        (\<forall>j. blk t j = blk s j) \<and> (\<forall>c. readable t c = (readable s c \<or> c = blk s i)))"
    and clean_law: "ok s H \<Longrightarrow> readable s b \<Longrightarrow> b \<notin> pinned s \<Longrightarrow> view s b = platter s b"
    and frame_refl: "frame s s"
    and frame_trans: "frame s t \<Longrightarrow> frame t u \<Longrightarrow> frame s u"
begin

definition copied :: "'s \<Rightarrow> nat set \<Rightarrow> nat \<Rightarrow> nat \<Rightarrow> 's \<Rightarrow> bool" where
  "copied s H a b t = (ok t H \<and> frame s t \<and> view t = (view s)(b := view s a) \<and>
     platter t = (platter s)(b := view s a) \<and> hist t = hist s @ [(b, view s a)] \<and>
     pinned t = pinned s - {b} \<and> room s \<le> room t \<and> readable t = readable s \<and> (\<forall>j \<in> H. blk t j = blk s j))"

text \<open>Both blocks held: copy, write, release.\<close>

lemma copy_tail:
  assumes s: "ok s (insert i (insert j H))" "i \<noteq> j" "i \<notin> H" "j \<notin> H" "blk s i = a" "blk s j = b" "a \<noteq> b"
    and cl: "a \<in> pinned s \<or> view s a = platter s a"
  shows "returns (let s = put j (got s i) s in bnd (wr j s) (\<lambda>_ s. bnd (rel i s) (\<lambda>_ s. rel j s)))
    (\<lambda>_ t. ok t H \<and> frame s t \<and> view t = (view s)(b := view s a) \<and> platter t = (platter s)(b := view s a) \<and>
      hist t = hist s @ [(b, view s a)] \<and> pinned t = pinned s - {b} \<and>
      room t = room s + (if a \<in> pinned s then 0 else 1) + 1 \<and> (\<forall>k. blk t k = blk s k) \<and>
      (\<forall>c. readable t c = (readable s c \<or> c = a \<or> c = b)))"
proof -
  have g: "got s i = view s a" "length (view s a) = BSIZE" using got_law[OF s(1), of i] s(5) by auto
  define s1 where "s1 = put j (view s a) s"
  have p: "ok s1 (insert i (insert j H))" "frame s s1" "view s1 = (view s)(b := view s a)" "platter s1 = platter s"
    "hist s1 = hist s" "pinned s1 = pinned s" "room s1 = room s" "\<And>k. blk s1 k = blk s k" "readable s1 = readable s"
    using put_law[OF s(1), of j "view s a"] g(2) s(6) by (auto simp: s1_def)
  have "returns (bnd (wr j s1) (\<lambda>_ s. bnd (rel i s) (\<lambda>_ s. rel j s)))
    (\<lambda>_ t. ok t H \<and> frame s t \<and> view t = (view s)(b := view s a) \<and> platter t = (platter s)(b := view s a) \<and>
      hist t = hist s @ [(b, view s a)] \<and> pinned t = pinned s - {b} \<and>
      room t = room s + (if a \<in> pinned s then 0 else 1) + 1 \<and> (\<forall>k. blk t k = blk s k) \<and>
      (\<forall>c. readable t c = (readable s c \<or> c = a \<or> c = b)))"
  proof (rule returns_bnd[OF wr_law[OF p(1)]], goal_cases)
    case (2 x s2)
    then have w: "ok s2 (insert i (insert j H))" "frame s1 s2" "view s2 = view s1" "platter s2 = (platter s)(b := view s a)"
      "hist s2 = hist s @ [(b, view s a)]" "pinned s2 = pinned s - {b}" "room s2 = room s" "\<And>k. blk s2 k = blk s k"
      "readable s2 = readable s"
      by (simp_all add: p s)
    show ?case
    proof (rule returns_bnd[OF rel_law[OF w(1), of i]], goal_cases)
      case 2
      then show ?case using cl s by (auto simp: w p)
    next
      case (3 y s3)
      have d: "insert i (insert j H) - {i} = insert j H" using s by auto
      have r: "ok s3 (insert j H)" "frame s2 s3" "view s3 = view s2" "platter s3 = platter s2" "hist s3 = hist s2"
        "pinned s3 = pinned s2" "room s3 = room s + (if a \<in> pinned s then 0 else 1)" "\<And>k. blk s3 k = blk s k"
        "\<And>c. readable s3 c = (readable s c \<or> c = a)"
        using 3 s w by (auto simp: d)
      show ?case
      proof (rule returns_mono[OF rel_law[OF r(1), of j]], goal_cases)
        case 2
        then show ?case using s by (simp add: r w p)
      next
        case (3 z t)
        have d: "insert j H - {j} = H" using s by auto
        have "frame s t" using frame_trans[OF frame_trans[OF frame_trans[OF p(2) w(2)] r(2)]] 3 by blast
        then show ?case using 3 s by (simp add: d r w p)
      qed auto
    qed auto
  qed auto
  then show ?thesis by (simp add: g(1) s1_def)
qed

text \<open>Copy block \<open>a\<close> to block \<open>b\<close>, on the disk as well, reading \<open>a\<close> first.\<close>

lemma copy_block:
  assumes "ok s H" and "readable s a" and "readable s b" and "a \<noteq> b"
    and "(if a \<in> pinned s then 0 else 1) + (if b \<in> pinned s then 0 else 1) \<le> room s"
  shows "returns (bnd (rd a s) (\<lambda>i s. bnd (rd b s) (\<lambda>j s.
      let s = put j (got s i) s in bnd (wr j s) (\<lambda>_ s. bnd (rel i s) (\<lambda>_ s. rel j s)))))
    (\<lambda>_ t. copied s H a b t)"
proof (rule returns_bnd[OF rd_law[OF assms(1,2)]], goal_cases)
  case 1
  then show ?case using assms(5) by (auto split: if_splits)
next
  case (2 i s1)
  then have r1: "i \<notin> H" "ok s1 (insert i H)" "frame s s1" "blk s1 i = a" "view s1 = view s" "platter s1 = platter s"
    "hist s1 = hist s" "pinned s1 = pinned s" "room s \<le> room s1 + (if a \<in> pinned s then 0 else 1)"
    "\<And>j. j \<in> H \<Longrightarrow> blk s1 j = blk s j" "\<And>c. readable s1 c = (readable s c \<and> c \<noteq> a)" by auto
  show ?case
  proof (rule returns_bnd[OF rd_law[OF r1(2), of b]], goal_cases)
    case 1
    then show ?case using assms by (simp add: r1)
  next
    case 2
    then show ?case using assms(5) r1(8,9) by (auto split: if_splits)
  next
    case (3 j s2)
    then have r2: "j \<notin> insert i H" "ok s2 (insert j (insert i H))" "frame s1 s2" "blk s2 j = b" "blk s2 i = a"
      "view s2 = view s" "platter s2 = platter s" "hist s2 = hist s" "pinned s2 = pinned s"
      "room s1 \<le> room s2 + (if b \<in> pinned s then 0 else 1)"
      "\<And>j. j \<in> H \<Longrightarrow> blk s2 j = blk s j" "\<And>c. readable s2 c = (readable s c \<and> c \<noteq> a \<and> c \<noteq> b)" by (auto simp: r1)
    have cl: "a \<in> pinned s2 \<or> view s2 a = platter s2 a" using clean_law[OF assms(1,2)] by (auto simp: r2)
    have "i \<noteq> j" "j \<notin> H" using r2(1) by auto
    from copy_tail[OF r2(2)[unfolded insert_commute[of j]] this(1) r1(1) this(2) r2(5,4) assms(4) cl]
    show ?case
    proof (rule returns_mono)
      fix z t assume t: "ok t H \<and> frame s2 t \<and> view t = (view s2)(b := view s2 a) \<and> platter t = (platter s2)(b := view s2 a) \<and>
        hist t = hist s2 @ [(b, view s2 a)] \<and> pinned t = pinned s2 - {b} \<and>
        room t = room s2 + (if a \<in> pinned s2 then 0 else 1) + 1 \<and> (\<forall>k. blk t k = blk s2 k) \<and>
        (\<forall>c. readable t c = (readable s2 c \<or> c = a \<or> c = b))"
      have "frame s t" using frame_trans[OF frame_trans[OF r1(3) r2(3)]] t by blast
      moreover have "room s \<le> room t" using t r1(9) r2(10) by (auto simp: r2(9) split: if_splits)
      ultimately show "copied s H a b t" using t assms(2,3) by (auto simp: copied_def r2 fun_eq_iff)
    qed
  qed
qed

text \<open>The same with \<open>b\<close> read first.\<close>

lemma copy_block_back:
  assumes "ok s H" and "readable s a" and "readable s b" and "a \<noteq> b"
    and "(if a \<in> pinned s then 0 else 1) + (if b \<in> pinned s then 0 else 1) \<le> room s"
  shows "returns (bnd (rd b s) (\<lambda>j s. bnd (rd a s) (\<lambda>i s.
      let s = put j (got s i) s in bnd (wr j s) (\<lambda>_ s. bnd (rel i s) (\<lambda>_ s. rel j s)))))
    (\<lambda>_ t. copied s H a b t)"
proof (rule returns_bnd[OF rd_law[OF assms(1,3)]], goal_cases)
  case 1
  then show ?case using assms(5) by (auto split: if_splits)
next
  case (2 j s1)
  then have r1: "j \<notin> H" "ok s1 (insert j H)" "frame s s1" "blk s1 j = b" "view s1 = view s" "platter s1 = platter s"
    "hist s1 = hist s" "pinned s1 = pinned s" "room s \<le> room s1 + (if b \<in> pinned s then 0 else 1)"
    "\<And>j. j \<in> H \<Longrightarrow> blk s1 j = blk s j" "\<And>c. readable s1 c = (readable s c \<and> c \<noteq> b)" by auto
  show ?case
  proof (rule returns_bnd[OF rd_law[OF r1(2), of a]], goal_cases)
    case 1
    then show ?case using assms by (simp add: r1)
  next
    case 2
    then show ?case using assms(5) r1(8,9) by (auto split: if_splits)
  next
    case (3 i s2)
    then have r2: "i \<notin> insert j H" "ok s2 (insert i (insert j H))" "frame s1 s2" "blk s2 j = b" "blk s2 i = a"
      "view s2 = view s" "platter s2 = platter s" "hist s2 = hist s" "pinned s2 = pinned s"
      "room s1 \<le> room s2 + (if a \<in> pinned s then 0 else 1)"
      "\<And>j. j \<in> H \<Longrightarrow> blk s2 j = blk s j" "\<And>c. readable s2 c = (readable s c \<and> c \<noteq> a \<and> c \<noteq> b)" by (auto simp: r1)
    have cl: "a \<in> pinned s2 \<or> view s2 a = platter s2 a" using clean_law[OF assms(1,2)] by (auto simp: r2)
    have "i \<noteq> j" "i \<notin> H" using r2(1) by auto
    from copy_tail[OF r2(2) this r1(1) r2(5,4) assms(4) cl]
    show ?case
    proof (rule returns_mono)
      fix z t assume t: "ok t H \<and> frame s2 t \<and> view t = (view s2)(b := view s2 a) \<and> platter t = (platter s2)(b := view s2 a) \<and>
        hist t = hist s2 @ [(b, view s2 a)] \<and> pinned t = pinned s2 - {b} \<and>
        room t = room s2 + (if a \<in> pinned s2 then 0 else 1) + 1 \<and> (\<forall>k. blk t k = blk s2 k) \<and>
        (\<forall>c. readable t c = (readable s2 c \<or> c = a \<or> c = b))"
      have "frame s t" using frame_trans[OF frame_trans[OF r1(3) r2(3)]] t by blast
      moreover have "room s \<le> room t" using t r1(9) r2(10) by (auto simp: r2(9) split: if_splits)
      ultimately show "copied s H a b t" using t assms(2,3) by (auto simp: copied_def r2 fun_eq_iff)
    qed
  qed
qed

text \<open>A loop of copies whose targets are distinct and are not sources.\<close>

lemma copies_from:
  assumes "frame s0 s" and "ok s H" and "distinct (map dst xs)" and "src ` set xs \<inter> dst ` set xs = {}"
    and "\<And>x. x \<in> set xs \<Longrightarrow> readable s (src x) \<and> readable s (dst x)"
    and "\<And>x. x \<in> set xs \<Longrightarrow> (if src x \<in> pinned s then 0 else 1) + (if dst x \<in> pinned s then 0 else 1) \<le> room s"
    and step: "\<And>x t. x \<in> set xs \<Longrightarrow> frame s0 t \<Longrightarrow> ok t H \<Longrightarrow> readable t (src x) \<Longrightarrow> readable t (dst x) \<Longrightarrow>
      (if src x \<in> pinned t then 0 else 1) + (if dst x \<in> pinned t then 0 else 1) \<le> room t \<Longrightarrow>
      returns (f x t) (\<lambda>_ u. copied t H (src x) (dst x) u)"
  shows "returns (for_each f xs s) (\<lambda>_ t. ok t H \<and> frame s t \<and>
    view t = apply_writes (map (\<lambda>x. (dst x, view s (src x))) xs) (view s) \<and>
    platter t = apply_writes (map (\<lambda>x. (dst x, view s (src x))) xs) (platter s) \<and>
    hist t = hist s @ map (\<lambda>x. (dst x, view s (src x))) xs \<and>
    pinned t = pinned s - dst ` set xs \<and> room s \<le> room t \<and> readable t = readable s \<and> (\<forall>j \<in> H. blk t j = blk s j))"
  using assms
proof (induction xs arbitrary: s)
  case Nil
  then show ?case by (simp add: frame_refl)
next
  case (Cons x xs)
  have "returns (f x s) (\<lambda>_ u. copied s H (src x) (dst x) u)"
    by (rule Cons.prems(7)) (use Cons.prems(1,2) Cons.prems(5,6)[of x] in auto)
  then show ?case unfolding for_each.simps
  proof (rule returns_bnd)
    fix z :: unit and u assume "copied s H (src x) (dst x) u"
    then have u: "ok u H" "frame s u" "view u = (view s)(dst x := view s (src x))"
      "platter u = (platter s)(dst x := view s (src x))" "hist u = hist s @ [(dst x, view s (src x))]"
      "pinned u = pinned s - {dst x}" "room s \<le> room u" "readable u = readable s" "\<And>j. j \<in> H \<Longrightarrow> blk u j = blk s j"
      by (auto simp: copied_def)
    have ne: "src y \<noteq> dst x" "dst y \<noteq> dst x" if "y \<in> set xs" for y
    proof -
      have "src y \<in> src ` set (x # xs)" "dst x \<in> dst ` set (x # xs)" "dst y \<in> dst ` set xs" using that by simp_all
      moreover have "dst x \<notin> dst ` set xs" using Cons.prems(3) by simp
      ultimately show "src y \<noteq> dst x" "dst y \<noteq> dst x" using Cons.prems(4) by (metis disjoint_iff)+
    qed
    have vs: "map (\<lambda>y. (dst y, view u (src y))) xs = map (\<lambda>y. (dst y, view s (src y))) xs"
      using ne(1) by (simp add: u(3))
    have "returns (for_each f xs u) (\<lambda>_ t. ok t H \<and> frame u t \<and>
      view t = apply_writes (map (\<lambda>x. (dst x, view u (src x))) xs) (view u) \<and>
      platter t = apply_writes (map (\<lambda>x. (dst x, view u (src x))) xs) (platter u) \<and>
      hist t = hist u @ map (\<lambda>x. (dst x, view u (src x))) xs \<and>
      pinned t = pinned u - dst ` set xs \<and> room u \<le> room t \<and> readable t = readable u \<and> (\<forall>j \<in> H. blk t j = blk u j))"
    proof (rule Cons.IH)
      show "frame s0 u" using frame_trans[OF Cons.prems(1) u(2)] .
      show "ok u H" by (rule u(1))
      show "distinct (map dst xs)" "src ` set xs \<inter> dst ` set xs = {}" using Cons.prems(3,4) by auto
    next
      fix y assume y: "y \<in> set xs"
      then show "readable u (src y) \<and> readable u (dst y)" using Cons.prems(5)[of y] by (simp add: u(8))
      show "(if src y \<in> pinned u then 0 else 1) + (if dst y \<in> pinned u then 0 else 1) \<le> room u"
        using Cons.prems(6)[of y] y ne[OF y] u(7) by (simp add: u(6))
    next
      fix y t assume "y \<in> set xs" "frame s0 t" "ok t H" "readable t (src y)" "readable t (dst y)"
        "(if src y \<in> pinned t then 0 else 1) + (if dst y \<in> pinned t then 0 else 1) \<le> room t"
      then show "returns (f y t) (\<lambda>_ u. copied t H (src y) (dst y) u)" by (intro Cons.prems(7)) auto
    qed
    then show "returns (for_each f xs u) (\<lambda>_ t. ok t H \<and> frame s t \<and>
      view t = apply_writes (map (\<lambda>x. (dst x, view s (src x))) (x # xs)) (view s) \<and>
      platter t = apply_writes (map (\<lambda>x. (dst x, view s (src x))) (x # xs)) (platter s) \<and>
      hist t = hist s @ map (\<lambda>x. (dst x, view s (src x))) (x # xs) \<and>
      pinned t = pinned s - dst ` set (x # xs) \<and> room s \<le> room t \<and> readable t = readable s \<and> (\<forall>j \<in> H. blk t j = blk s j))"
      unfolding vs
    proof (rule returns_mono, elim conjE, goal_cases)
      case (1 z t)
      have "frame s t" using frame_trans[OF u(2)] 1 by blast
      then show ?case using 1 u by (auto simp: apply_writes_def)
    qed
  qed
qed

lemmas copies = copies_from[OF frame_refl]

text \<open>Reading a block: its content, and no change.\<close>

definition same_store :: "'s \<Rightarrow> nat set \<Rightarrow> 's \<Rightarrow> bool" where
  "same_store s H t = (ok t H \<and> frame s t \<and> view t = view s \<and> platter t = platter s \<and> hist t = hist s \<and>
     pinned t = pinned s \<and> room s \<le> room t \<and> readable t = readable s \<and> (\<forall>j \<in> H. blk t j = blk s j))"

lemma read_block:
  assumes "ok s H" and "readable s b" and "b \<in> pinned s \<or> 0 < room s"
  shows "returns (bnd (rd b s) (\<lambda>i s. bnd (rel i s) (\<lambda>_ t. Ret (f (got s i)) t)))
    (\<lambda>r t. r = f (view s b) \<and> same_store s H t)"
proof (rule returns_bnd[OF rd_law[OF assms]], goal_cases)
  case (1 i s1)
  then have r1: "i \<notin> H" "ok s1 (insert i H)" "frame s s1" "blk s1 i = b" "view s1 = view s" "platter s1 = platter s"
    "hist s1 = hist s" "pinned s1 = pinned s" "room s \<le> room s1 + (if b \<in> pinned s then 0 else 1)"
    "\<And>j. j \<in> H \<Longrightarrow> blk s1 j = blk s j" "\<And>c. readable s1 c = (readable s c \<and> c \<noteq> b)" by auto
  have d: "insert i H - {i} = H" using r1(1) by auto
  show ?case
  proof (rule returns_bnd[OF rel_law[OF r1(2), of i]], goal_cases)
    case 2
    show ?case using clean_law[OF assms(1,2)] by (auto simp: r1)
  next
    case (3 x t)
    have "frame s t" using frame_trans[OF r1(3)] 3 by blast
    then show ?case
      using 3 got_law[OF r1(2), of i] r1(9) assms(2) by (auto simp: same_store_def r1 d fun_eq_iff)
  qed simp
qed

text \<open>Overwriting a block on the disk with a function of its content.\<close>

lemma write_block:
  assumes "ok s H" and "readable s b" and "b \<in> pinned s \<or> 0 < room s" and "length (f (view s b)) = BSIZE"
  shows "returns (bnd (rd b s) (\<lambda>i s. let s = put i (f (got s i)) s in bnd (wr i s) (\<lambda>_ s. rel i s)))
    (\<lambda>_ t. ok t H \<and> frame s t \<and> view t = (view s)(b := f (view s b)) \<and> platter t = (platter s)(b := f (view s b)) \<and>
      hist t = hist s @ [(b, f (view s b))] \<and> pinned t = pinned s - {b} \<and> room s \<le> room t \<and> readable t = readable s \<and>
      (\<forall>j \<in> H. blk t j = blk s j))"
proof (rule returns_bnd[OF rd_law[OF assms(1-3)]], goal_cases)
  case (1 i s1)
  then have r1: "i \<notin> H" "ok s1 (insert i H)" "frame s s1" "blk s1 i = b" "view s1 = view s" "platter s1 = platter s"
    "hist s1 = hist s" "pinned s1 = pinned s" "room s \<le> room s1 + (if b \<in> pinned s then 0 else 1)"
    "\<And>j. j \<in> H \<Longrightarrow> blk s1 j = blk s j" "\<And>c. readable s1 c = (readable s c \<and> c \<noteq> b)" by auto
  have d: "insert i H - {i} = H" using r1(1) by auto
  have rm: "room s \<le> Suc (room s1)" using r1(9) by (auto split: if_splits)
  let ?d = "f (view s b)"
  have g: "got s1 i = view s b" using got_law[OF r1(2), of i] by (simp add: r1)
  define s2 where "s2 = put i ?d s1"
  have p: "ok s2 (insert i H)" "frame s1 s2" "view s2 = (view s)(b := ?d)" "platter s2 = platter s" "hist s2 = hist s"
    "pinned s2 = pinned s" "room s2 = room s1" "\<And>j. blk s2 j = blk s1 j" "\<And>c. readable s2 c = (readable s c \<and> c \<noteq> b)"
    using put_law[OF r1(2), of i ?d] assms(4) by (auto simp: s2_def r1)
  have "returns (bnd (wr i s2) (\<lambda>_ s. rel i s))
    (\<lambda>_ t. ok t H \<and> frame s t \<and> view t = (view s)(b := ?d) \<and> platter t = (platter s)(b := ?d) \<and>
      hist t = hist s @ [(b, ?d)] \<and> pinned t = pinned s - {b} \<and> room s \<le> room t \<and> readable t = readable s \<and>
      (\<forall>j \<in> H. blk t j = blk s j))"
  proof (rule returns_bnd[OF wr_law[OF p(1)]], goal_cases)
    case (2 x s3)
    then have w: "ok s3 (insert i H)" "frame s2 s3" "view s3 = (view s)(b := ?d)" "platter s3 = (platter s)(b := ?d)"
      "hist s3 = hist s @ [(b, ?d)]" "pinned s3 = pinned s - {b}" "room s3 = room s1" "\<And>j. blk s3 j = blk s1 j"
      "\<And>c. readable s3 c = (readable s c \<and> c \<noteq> b)" by (auto simp: p r1 fun_eq_iff)
    show ?case
    proof (rule returns_mono[OF rel_law[OF w(1), of i]], goal_cases)
      case 2
      show ?case by (simp add: w r1)
    next
      case (3 y t)
      have "frame s t" using frame_trans[OF frame_trans[OF frame_trans[OF r1(3) p(2)] w(2)]] 3 by blast
      then show ?case using 3 assms(2) rm by (auto simp: w r1 d fun_eq_iff)
    qed simp
  qed simp
  then show ?case by (simp add: g s2_def)
qed

end

subsection \<open>The cache is a block store\<close>

definition bio_ok :: "'z bst_scheme \<Rightarrow> nat set \<Rightarrow> bool" where
  "bio_ok s H = (bio_inv s H \<and> inctx s)"

definition b_readable :: "'z bst_scheme \<Rightarrow> nat \<Rightarrow> bool" where
  "b_readable s b = (b < disksize s \<and> (\<forall>i. cached s b i \<longrightarrow> b_refcnt (bufs s ! i) = 0))"

definition b_room :: "'z bst_scheme \<Rightarrow> nat" where
  "b_room s = card (free_bufs s)"

lemma finite_bfree [simp]: "finite (free_bufs s)"
  by (simp add: free_bufs_def)

lemma dirty_cached: "dirtyb s b \<Longrightarrow> \<exists>i. cached s b i"
  by (auto simp: dirtyb_def)

lemma bread_store:
  assumes "bio_ok s H" and rb: "b_readable s b" and rm: "b \<in> Collect (dirtyb s) \<or> 0 < b_room s"
  shows "returns (bread 1 b s) (\<lambda>i t. i \<notin> H \<and> bio_ok t (insert i H) \<and> bio_frame s t \<and> b_blockno (bufs t ! i) = b \<and>
    bview t = bview s \<and> disk t = disk s \<and> wlog t = wlog s \<and> Collect (dirtyb t) = Collect (dirtyb s) \<and>
    b_room s \<le> b_room t + (if b \<in> Collect (dirtyb s) then 0 else 1) \<and>
    (\<forall>j \<in> H. b_blockno (bufs t ! j) = b_blockno (bufs s ! j)) \<and>
    (\<forall>c. b_readable t c = (b_readable s c \<and> c \<noteq> b)))"
proof -
  have inv: "bio_inv s H" and ctx: "inctx s" using assms(1) by (auto simp: bio_ok_def)
  have av: "(\<exists>i. cached s b i) \<or> free_bufs s \<noteq> {}"
    using rm dirty_cached by (auto simp: b_room_def card_gt_0_iff)
  have idle: "\<And>i. cached s b i \<Longrightarrow> b_refcnt (bufs s ! i) = 0" and lt: "b < disksize s"
    using rb by (auto simp: b_readable_def)
  show ?thesis
  proof (rule returns_mono[OF bread_run[OF inv ctx lt idle av]])
    fix i t assume p: "bread_post b s H i t"
    then have P: "i \<notin> H" "cached t b i" "bio_inv t (insert i H)" "bio_frame s t" "disk t = disk s" "wlog t = wlog s"
      "b_refcnt (bufs s ! i) = 0" "b_refcnt (bufs t ! i) = 1" "b_dirty (bufs t ! i) = dirtyb s b"
      "\<And>c. bview t c = bview s c" "\<And>c. dirtyb t c = dirtyb s c" "\<And>j. j \<noteq> i \<Longrightarrow> bufs t ! j = bufs s ! j"
      by (auto simp: bread_post_def)
    note D = bio_invD[OF P(3)]
    have iN: "i < NBUF" using P(2) by (simp add: cached_def)
    have bf: "free_bufs t = free_bufs s - {i}"
    proof (rule set_eqI)
      fix j show "j \<in> free_bufs t \<longleftrightarrow> j \<in> free_bufs s - {i}"
        using P(8) P(12)[of j] by (cases "j = i") (auto simp: free_bufs_def)
    qed
    have "b_room s \<le> b_room t + (if dirtyb s b then 0 else 1)"
    proof (cases "i \<in> free_bufs s")
      case True
      have "\<not> dirtyb s b"
      proof
        assume "dirtyb s b"
        then obtain j where j: "cached s b j" "b_dirty (bufs s ! j)" by (auto simp: dirtyb_def)
        have "j \<noteq> i" using j(2) True by (auto simp: free_bufs_def)
        then have "cached t b j" using j(1) P(12)[of j] by (simp add: cached_def)
        then show False using D(4)[OF P(2)] \<open>j \<noteq> i\<close> by blast
      qed
      then show ?thesis using True by (simp add: b_room_def bf card_Diff_singleton)
    next
      case False
      then show ?thesis by (simp add: b_room_def bf)
    qed
    moreover have "b_readable t c = (b_readable s c \<and> c \<noteq> b)" for c
    proof (cases "c = b")
      case True
      then show ?thesis using P(2,8) by (auto simp: b_readable_def)
    next
      case False
      have "cached t c j \<longleftrightarrow> cached s c j \<and> j \<noteq> i" for j
        using P(2) P(12)[of j] False by (cases "j = i") (auto simp: cached_def)
      then show ?thesis
        using False P(7,12) bio_frame_fields(3)[OF P(4)] unfolding b_readable_def by metis
    qed
    moreover have "inctx t" using inctx_frame[OF P(4) ctx] .
    moreover have "b_blockno (bufs t ! j) = b_blockno (bufs s ! j)" if "j \<in> H" for j
      using that P(1,12) by metis
    ultimately show "i \<notin> H \<and> bio_ok t (insert i H) \<and> bio_frame s t \<and> b_blockno (bufs t ! i) = b \<and>
      bview t = bview s \<and> disk t = disk s \<and> wlog t = wlog s \<and> Collect (dirtyb t) = Collect (dirtyb s) \<and>
      b_room s \<le> b_room t + (if b \<in> Collect (dirtyb s) then 0 else 1) \<and>
      (\<forall>j \<in> H. b_blockno (bufs t ! j) = b_blockno (bufs s ! j)) \<and>
      (\<forall>c. b_readable t c = (b_readable s c \<and> c \<noteq> b))"
      using P by (auto simp: bio_ok_def cached_def)
  qed
qed

lemma readable_same:
  assumes "disksize t = disksize s" and "\<And>c j. cached t c j = cached s c j"
    and "\<And>j. b_refcnt (bufs t ! j) = b_refcnt (bufs s ! j)"
  shows "b_readable t = b_readable s"
  using assms by (simp add: b_readable_def fun_eq_iff)

lemma room_same:
  assumes "\<And>j. b_refcnt (bufs t ! j) = b_refcnt (bufs s ! j)"
    and "\<And>j. b_refcnt (bufs s ! j) = 0 \<Longrightarrow> b_dirty (bufs t ! j) = b_dirty (bufs s ! j)"
  shows "b_room t = b_room s"
proof -
  have "free_bufs t = free_bufs s" using assms by (auto simp: free_bufs_def)
  then show ?thesis by (simp add: b_room_def)
qed

interpretation bio: block_store "bread 1" set_data bwrite brelse bio_ok
  "\<lambda>s i. b_blockno (bufs s ! i)" "\<lambda>s i. b_data (bufs s ! i)" bview disk wlog "\<lambda>s. Collect (dirtyb s)" b_readable b_room
  bio_frame
proof (unfold_locales, goal_cases)
  case (1 s H b)
  then show ?case by (rule bread_store)
next
  case (2 s H i)
  then have inv: "bio_inv s H" by (simp add: bio_ok_def)
  then show ?case
    using held_bview[OF inv 2(2)] bio_invD(7)[OF inv, of i] bio_invD(9)[OF inv 2(2)] by simp
next
  case (3 s H i d)
  then have inv: "bio_inv s H" and ctx: "inctx s" by (auto simp: bio_ok_def)
  note r = set_data_run[OF inv 3(2,3)]
  have rc: "b_refcnt (bufs (set_data i d s) ! j) = b_refcnt (bufs s ! j)"
    "b_dirty (bufs (set_data i d s) ! j) = b_dirty (bufs s ! j)" "b_blockno (bufs (set_data i d s) ! j) = b_blockno (bufs s ! j)" for j
    using r(8)[of j] r(9) by (cases "j = i"; simp)+
  show ?case
    using r inctx_frame[OF r(4) ctx] readable_same[of "set_data i d s" s] room_same[of "set_data i d s" s] rc
      bio_frame_fields(3)[OF r(4)]
    by (auto simp: bio_ok_def fun_eq_iff)
next
  case (4 s H i)
  then have inv: "bio_inv s H" and ctx: "inctx s" by (auto simp: bio_ok_def)
  have h: "b_refcnt (bufs s ! i) = 1" "b_valid (bufs s ! i)" using bio_invD(9)[OF inv 4(2)] by auto
  show ?case
  proof (rule returns_mono[OF bwrite_run[OF inv ctx 4(2)]], elim conjE, goal_cases)
    case (1 x t)
    have rc: "b_refcnt (bufs t ! j) = b_refcnt (bufs s ! j)" "b_blockno (bufs t ! j) = b_blockno (bufs s ! j)" for j
      using 1 by (cases "j = i"; simp)+
    have "b_dirty (bufs t ! j) = b_dirty (bufs s ! j)" if "b_refcnt (bufs s ! j) = 0" for j
      using 1 that h by (cases "j = i") auto
    then have "b_room t = b_room s" using rc by (intro room_same) auto
    moreover have "b_readable t = b_readable s" using rc 1 by (intro readable_same) (auto simp: bio_frame_fields)
    moreover have "inctx t" using 1 ctx by (auto intro: inctx_frame)
    ultimately show ?case using 1 rc held_bview[OF inv 4(2)] by (auto simp: bio_ok_def fun_eq_iff)
  qed
next
  case (5 s H i)
  then have inv: "bio_inv s H" and ctx: "inctx s" by (auto simp: bio_ok_def)
  have h: "i < NBUF" "b_refcnt (bufs s ! i) = 1" using bio_invD(9)[OF inv 5(2)] by auto
  have cl: "b_dirty (bufs s ! i) \<or> b_data (bufs s ! i) = disk s (b_blockno (bufs s ! i))"
    using 5(3) held_bview[OF inv 5(2)] held_dirtyb[OF inv 5(2)] by auto
  have hd: "dirtyb s (b_blockno (bufs s ! i)) = b_dirty (bufs s ! i)" by (rule held_dirtyb[OF inv 5(2)])
  have hc: "cached s (b_blockno (bufs s ! i)) i" by (rule held_cached[OF inv 5(2)])
  show ?case
  proof (rule returns_mono[OF brelse_run[OF inv ctx 5(2) cl]], elim conjE, goal_cases)
    case (1 x t)
    have bj: "bufs t ! j = (if j = i then (bufs s ! i)\<lparr>b_refcnt := 0\<rparr> else bufs s ! j)" for j using 1 by auto
    have "free_bufs t = (if b_dirty (bufs s ! i) then free_bufs s else insert i (free_bufs s))" and "i \<notin> free_bufs s"
      using h by (auto simp: free_bufs_def bj split: if_splits)
    then have "b_room t = b_room s + (if b_dirty (bufs s ! i) then 0 else 1)" by (simp add: b_room_def)
    moreover have "b_readable t c = (b_readable s c \<or> c = b_blockno (bufs s ! i))" for c
    proof (cases "c = b_blockno (bufs s ! i)")
      case True
      have "\<forall>j. cached s c j \<longrightarrow> j = i" using hc bio_invD(4)[OF inv] True by blast
      then show ?thesis using 1 True bio_invD(5)[OF inv hc] bj unfolding b_readable_def
        by (simp add: bio_frame_fields)
    next
      case False
      then have "\<And>j. cached s c j \<Longrightarrow> j \<noteq> i" by (auto simp: cached_def)
      then show ?thesis using 1 False bj unfolding b_readable_def by (auto simp: bio_frame_fields)
    qed
    moreover have "inctx t" using 1 ctx by (auto intro: inctx_frame)
    moreover have "b_blockno (bufs t ! j) = b_blockno (bufs s ! j)" for j by (simp add: bj)
    ultimately show ?case using 1 hd by (auto simp: bio_ok_def fun_eq_iff)
  qed
next
  case (6 s H b)
  then show ?case using bview_clean[of s H b] by (auto simp: bio_ok_def b_readable_def)
next
  case (7 s)
  show ?case by simp
next
  case (8 s t u)
  then show ?case by (rule bio_frame_trans)
qed

subsection \<open>A quiet cache\<close>

text \<open>No process holds or uses a buffer.\<close>

definition quiet :: "'z bst_scheme \<Rightarrow> bool" where
  "quiet s = (\<forall>b < disksize s. b_readable s b)"

lemma quietD: "quiet s \<Longrightarrow> b_readable s b = (b < disksize s)"
  by (auto simp: quiet_def b_readable_def)

lemma quiet_refcnt:
  assumes "bio_ok s {}" and "quiet s" and "i < NBUF"
  shows "b_refcnt (bufs s ! i) = 0"
proof (rule ccontr)
  assume r: "b_refcnt (bufs s ! i) \<noteq> 0"
  have inv: "bio_inv s {}" using assms(1) by (simp add: bio_ok_def)
  have c: "cached s (b_blockno (bufs s ! i)) i" using bio_invD(11)[OF inv assms(3) r] assms(3) by (simp add: cached_def)
  then have "b_readable s (b_blockno (bufs s ! i))" using bio_invD(5)[OF inv c] assms(2) by (simp add: quietD)
  then show False using c r by (simp add: b_readable_def)
qed

lemma quiet_room:
  assumes "bio_ok s {}" and "quiet s"
  shows "NBUF \<le> b_room s + card (Collect (dirtyb s))"
proof -
  have inv: "bio_inv s {}" using assms(1) by (simp add: bio_ok_def)
  let ?d = "{i. i < NBUF \<and> b_dirty (bufs s ! i)}"
  have c: "cached s (b_blockno (bufs s ! i)) i" if "i \<in> ?d" for i
    using that bio_invD(8)[OF inv, of i] by (simp add: cached_def)
  have fin: "finite (Collect (dirtyb s))"
    by (rule finite_subset[of _ "(\<lambda>i. b_blockno (bufs s ! i)) ` {..<NBUF}"]) (auto simp: dirtyb_def cached_def)
  have "card ?d \<le> card (Collect (dirtyb s))"
  proof (rule card_inj_on_le[where f = "\<lambda>i. b_blockno (bufs s ! i)", OF _ _ fin])
    show "inj_on (\<lambda>i. b_blockno (bufs s ! i)) ?d" by (rule inj_onI) (metis bio_invD(4)[OF inv] c)
    show "(\<lambda>i. b_blockno (bufs s ! i)) ` ?d \<subseteq> Collect (dirtyb s)"
      using c unfolding dirtyb_def by blast
  qed
  moreover have "free_bufs s = {..<NBUF} - ?d" using quiet_refcnt[OF assms] by (auto simp: free_bufs_def)
  then have "b_room s = NBUF - card ?d" by (simp add: b_room_def card_Diff_subset subset_eq)
  ultimately show ?thesis by linarith
qed

text \<open>States, perhaps of different extensions, that agree on all that the cache depends on.\<close>

definition same_bst :: "'z bst_scheme \<Rightarrow> 'y bst_scheme \<Rightarrow> bool" where
  "same_bst s t = (mypid t = mypid s \<and> length (procs t) = length (procs s) \<and> slk t = slk s \<and> bufs t = bufs s \<and> lru t = lru s \<and> disk t = disk s \<and>
     wlog t = wlog s \<and> disksize t = disksize s \<and> held t = held s \<and> cur t = cur s)"

lemma same_bst_eqs:
  assumes "same_bst s t"
  shows "cached t = cached s" "bclean t = bclean s" "bio_inv t = bio_inv s" "bview t = bview s" "dirtyb t = dirtyb s"
    "b_readable t = b_readable s" "b_room t = b_room s" "inctx t = inctx s" "bio_ok t = bio_ok s" "quiet t = quiet s"
proof -
  note S = assms[unfolded same_bst_def]
  show c: "cached t = cached s" and bc: "bclean t = bclean s" and ic: "inctx t = inctx s"
    using S by (simp_all add: cached_def bclean_def inctx_def fun_eq_iff)
  have m: "mine i t = mine i s" for i using S by (simp add: mine_def)
  show i: "bio_inv t = bio_inv s" using S by (simp add: bio_inv_def c bc m fun_eq_iff)
  show "bview t = bview s" using S by (simp add: bview_def bfind_def fun_eq_iff split: option.split)
  show "dirtyb t = dirtyb s" using S by (simp add: dirtyb_def c fun_eq_iff)
  show r: "b_readable t = b_readable s" using S by (simp add: b_readable_def c fun_eq_iff)
  show "b_room t = b_room s" using S by (simp add: b_room_def free_bufs_def)
  show "bio_ok t = bio_ok s" by (simp add: bio_ok_def i ic fun_eq_iff)
  show "quiet t = quiet s" using S by (simp add: quiet_def r)
qed

lemma same_bst_wakeup:
  assumes "inctx s"
  shows "same_bst s (wakeup1 ch s)"
  using assms by (auto simp: same_bst_def inctx_def myproc_def intro!: mypid_wakeup1) (simp_all add: wakeup1_def)

subsection \<open>What the file system sees\<close>

text \<open>C29: \<open>bread\<close> of a block that no process uses, while some buffer is free or the block is pinned, returns a locked buffer
  with the block's current content, and changes the content of no block, nor the disk.\<close>

theorem bread_gives_block:
  assumes "bio_ok s {}" and "b_readable s b" and "dirtyb s b \<or> 0 < b_room s"
  shows "returns (bread 1 b s) (\<lambda>i t. b_blockno (bufs t ! i) = b \<and> b_data (bufs t ! i) = bview s b \<and> mine (SlBuf i) t \<and>
    bview t = bview s \<and> disk t = disk s \<and> wlog t = wlog s)"
proof (rule returns_mono[OF bio.rd_law[OF assms(1,2)]])
  show "b \<in> Collect (dirtyb s) \<or> 0 < b_room s" using assms(3) by simp
next
  fix i t assume r: "i \<notin> {} \<and> bio_ok t (insert i {}) \<and> bio_frame s t \<and> b_blockno (bufs t ! i) = b \<and> bview t = bview s \<and>
    disk t = disk s \<and> wlog t = wlog s \<and> Collect (dirtyb t) = Collect (dirtyb s) \<and>
    b_room s \<le> b_room t + (if b \<in> Collect (dirtyb s) then 0 else 1) \<and>
    (\<forall>j \<in> {}. b_blockno (bufs t ! j) = b_blockno (bufs s ! j)) \<and> (\<forall>c. b_readable t c = (b_readable s c \<and> c \<noteq> b))"
  then have "mine (SlBuf i) t" using bio_invD(9)[of t "{i}" i] by (simp add: bio_ok_def)
  then show "b_blockno (bufs t ! i) = b \<and> b_data (bufs t ! i) = bview s b \<and> mine (SlBuf i) t \<and>
    bview t = bview s \<and> disk t = disk s \<and> wlog t = wlog s"
    using r bio.got_law[of t "{i}" i] by auto
qed

text \<open>C28: a block written with \<open>bwrite\<close> is on the disk and is what the next \<open>bread\<close> of it gives.\<close>

theorem bwrite_bread:
  assumes "bio_ok s {}" and "b_readable s b" and "0 < b_room s" and "length d = BSIZE"
  shows "returns (bnd (bread 1 b s) (\<lambda>i s. let s = set_data i d s in bnd (bwrite i s) (\<lambda>_ s.
      bnd (brelse i s) (\<lambda>_ s. bread 1 b s))))
    (\<lambda>j t. b_data (bufs t ! j) = d \<and> disk t = (disk s)(b := d) \<and> wlog t = wlog s @ [(b, d)] \<and> bview t = (bview s)(b := d))"
proof -
  have w: "returns (bnd (bread 1 b s) (\<lambda>i s. let s = set_data i ((\<lambda>_. d) (b_data (bufs s ! i))) s in bnd (bwrite i s) (\<lambda>_ s. brelse i s)))
    (\<lambda>_ t. bio_ok t {} \<and> bio_frame s t \<and> bview t = (bview s)(b := d) \<and> disk t = (disk s)(b := d) \<and>
      wlog t = wlog s @ [(b, d)] \<and> Collect (dirtyb t) = Collect (dirtyb s) - {b} \<and> b_room s \<le> b_room t \<and>
      b_readable t = b_readable s \<and> (\<forall>j \<in> {}. b_blockno (bufs t ! j) = b_blockno (bufs s ! j)))"
    using bio.write_block[OF assms(1,2), of "\<lambda>_. d"] assms(3,4) by simp
  have "returns (bnd (bnd (bread 1 b s) (\<lambda>i s. let s = set_data i d s in bnd (bwrite i s) (\<lambda>_ s. brelse i s))) (\<lambda>_ s. bread 1 b s))
    (\<lambda>j t. b_data (bufs t ! j) = d \<and> disk t = (disk s)(b := d) \<and> wlog t = wlog s @ [(b, d)] \<and> bview t = (bview s)(b := d))"
  proof (rule returns_bnd[OF w], elim conjE, goal_cases)
    case (1 x t)
    have "returns (bread 1 b t) (\<lambda>i u. b_blockno (bufs u ! i) = b \<and> b_data (bufs u ! i) = bview t b \<and>
        bview u = bview t \<and> disk u = disk t \<and> wlog u = wlog t)"
    proof (rule returns_mono[OF bio.rd_law[of t "{}" b]])
      fix i u assume "i \<notin> {} \<and> bio_ok u (insert i {}) \<and> bio_frame t u \<and> b_blockno (bufs u ! i) = b \<and> bview u = bview t \<and>
        disk u = disk t \<and> wlog u = wlog t \<and> Collect (dirtyb u) = Collect (dirtyb t) \<and>
        b_room t \<le> b_room u + (if b \<in> Collect (dirtyb t) then 0 else 1) \<and>
        (\<forall>j \<in> {}. b_blockno (bufs u ! j) = b_blockno (bufs t ! j)) \<and> (\<forall>c. b_readable u c = (b_readable t c \<and> c \<noteq> b))"
      then show "b_blockno (bufs u ! i) = b \<and> b_data (bufs u ! i) = bview t b \<and>
        bview u = bview t \<and> disk u = disk t \<and> wlog u = wlog t"
        using bio.got_law[of u "{i}" i] by auto
    qed (use 1 assms in auto)
    then show ?case by (rule returns_mono) (use 1 in auto)
  qed
  then show ?thesis by (simp add: bnd_assoc Let_def)
qed

text \<open>With every buffer in use or pinned, \<open>bread\<close> of a block that is not cached panics; it evicts nothing.\<close>

lemma bread_no_buffers:
  assumes "bio_ok s H" and "\<And>i. \<not> cached s b i" and "b_room s = 0"
  shows "bread 1 b s = Panic ''bget: no buffers''"
proof -
  have inv: "bio_inv s H" and ctx: "inctx s" using assms(1) by (auto simp: bio_ok_def)
  have f: "bfind 1 b s = None" using bfind_iff(2)[OF inv] assms(2) by simp
  have e: "free_bufs s = {}" using assms(3) by (simp add: b_room_def)
  have "bvictim s = None"
    using bio_invD(3)[OF inv] e by (auto simp: bvictim_def find_none free_bufs_def)
  then show ?thesis using bget_none[OF _ f] ctx by (simp add: bread_def inctx_def)
qed

subsection \<open>A concrete machine\<close>

text \<open>A disk of 1000 blocks with the superblock that \<^verbatim>\<open>mkfs\<close> writes, and block 700, modified in buffer 0.\<close>

definition demo_disk :: "nat \<Rightarrow> block" where
  "demo_disk b = (if b = 1 then put32s (replicate BSIZE 0) 0 [1000, 941, 200, 30, 2, 32, 58] else replicate BSIZE 0)"

definition demo_bufs :: "buf list" where
  "demo_bufs = \<lparr>b_valid = True, b_dirty = True, b_dev = 1, b_blockno = 700, b_refcnt = 0, b_data = replicate BSIZE 7\<rparr>
     # replicate 29 \<lparr>b_valid = False, b_dirty = False, b_dev = 0, b_blockno = 0, b_refcnt = 0, b_data = []\<rparr>"

definition demo_bst :: bst where
  "demo_bst = mst.extend (demo_mst (\<lambda>_. 0) 0)
     \<lparr>bufs = demo_bufs, lru = [0..<30], disk = demo_disk, disksize = 1000, wlog = []\<rparr>"

lemma demo_bst_fields [simp]:
  "bufs demo_bst = demo_bufs" "lru demo_bst = [0..<30]" "disk demo_bst = demo_disk" "disksize demo_bst = 1000"
  "wlog demo_bst = []" "held demo_bst = []" "cur demo_bst = Some 0" "procs demo_bst = [demo_proc RUNNING 1 10]"
  "slk demo_bst i = \<lparr>locked = False, lpid = 0\<rparr>"
  by (simp_all add: demo_bst_def demo_mst_def demo_slst_def demo_kst_def kst.defs slst.defs mst.defs)

lemma length_demo_disk: "length (demo_disk b) = BSIZE"
  by (simp add: demo_disk_def)

lemma length_demo_bufs: "length demo_bufs = 30"
  by (simp add: demo_bufs_def)

lemma demo_bufs_nth: "i < 30 \<Longrightarrow> demo_bufs ! i = (if i = 0
    then \<lparr>b_valid = True, b_dirty = True, b_dev = 1, b_blockno = 700, b_refcnt = 0, b_data = replicate BSIZE 7\<rparr>
    else \<lparr>b_valid = False, b_dirty = False, b_dev = 0, b_blockno = 0, b_refcnt = 0, b_data = []\<rparr>)"
  by (simp add: demo_bufs_def nth_Cons')

lemma demo_cached: "cached demo_bst b i \<longleftrightarrow> i = 0 \<and> b = 700"
  by (cases "i = 0") (auto simp: cached_def NBUF_30 demo_bufs_nth)

lemma demo_dirty: "dirtyb demo_bst b \<longleftrightarrow> b = 700"
  by (simp add: dirtyb_def demo_cached demo_bufs_nth)

lemma demo_ok: "bio_ok demo_bst {}"
proof -
  have "bio_inv demo_bst {}"
    by (simp add: bio_inv_def demo_cached NBUF_30 length_demo_disk bclean_def demo_bufs_nth)
      (auto simp: demo_bufs_def demo_cached)
  then show ?thesis by (simp add: bio_ok_def inctx_def)
qed

lemma demo_bst_quiet: "quiet demo_bst"
  by (simp add: quiet_def b_readable_def demo_cached demo_bufs_nth)

lemma demo_bview: "bview demo_bst 700 = replicate BSIZE 7"
proof -
  have inv: "bio_inv demo_bst {}" using demo_ok by (simp add: bio_ok_def)
  then show ?thesis using bview_cached[OF inv, of 700 0] by (simp add: demo_cached demo_bufs_nth)
qed

lemma demo_room: "0 < b_room demo_bst"
proof -
  have "1 \<in> free_bufs demo_bst" by (simp add: free_bufs_def NBUF_30 demo_bufs_nth)
  then show ?thesis by (auto simp: b_room_def card_gt_0_iff)
qed

theorem bread_gives_block_witness:
  "returns (bread 1 700 demo_bst) (\<lambda>i t. b_data (bufs t ! i) = replicate BSIZE 7)"
  by (rule returns_mono[OF bread_gives_block[OF demo_ok]]) (use demo_bst_quiet demo_dirty demo_bview in \<open>auto simp: quietD\<close>)

theorem bwrite_bread_witness:
  "returns (bnd (bread 1 9 demo_bst) (\<lambda>i s. let s = set_data i (replicate BSIZE 5) s in bnd (bwrite i s) (\<lambda>_ s.
      bnd (brelse i s) (\<lambda>_ s. bread 1 9 s))))
    (\<lambda>j t. b_data (bufs t ! j) = replicate BSIZE 5)"
  by (rule returns_mono[OF bwrite_bread[OF demo_ok]]) (use demo_bst_quiet demo_room in \<open>auto simp: quietD\<close>)

definition demo_full :: bst where
  "demo_full = demo_bst\<lparr>bufs := map (\<lambda>i. \<lparr>b_valid = True, b_dirty = True, b_dev = 1, b_blockno = 100 + i, b_refcnt = 0,
     b_data = replicate BSIZE 7\<rparr>) [0..<30]\<rparr>"

lemma bread_no_buffers_witness:
  "bread 1 9 demo_full = Panic ''bget: no buffers''"
proof (rule bread_no_buffers[of _ "{}"])
  have c: "cached demo_full b i \<longleftrightarrow> i < 30 \<and> b = 100 + i" for b i by (auto simp: cached_def demo_full_def NBUF_30)
  show "\<not> cached demo_full 9 i" for i by (simp add: c)
  have "bio_inv demo_full {}"
    by (simp add: bio_inv_def c NBUF_30 bclean_def) (auto simp: demo_full_def length_demo_disk)
  then show "bio_ok demo_full {}" by (simp add: bio_ok_def inctx_def) (simp add: demo_full_def)
  have "free_bufs demo_full = {}" by (auto simp: free_bufs_def demo_full_def NBUF_30)
  then show "b_room demo_full = 0" by (simp add: b_room_def)
qed

end
