(* ===== verification/Log.thy ===== *)
theory Log
  imports Bio
begin

text \<open>
  \<^verbatim>\<open>log.c\<close>, the write-ahead log that makes the updates of a file-system call atomic with
  respect to crashes, and \<^verbatim>\<open>readsb\<close> of \<^verbatim>\<open>fs.c\<close>.

  The state is that of the block cache with the fields of \<^verbatim>\<open>struct log\<close>; \<open>l_n\<close> and \<open>l_block\<close> are
  its \<^verbatim>\<open>lh\<close>.  The proofs use the cache only through the contract \<open>block_store\<close>.  What a crash leaves is
  the disk after some prefix of the block writes done so far (\<open>apply_writes\<close> of a prefix of
  \<open>wlog\<close>); \<open>recovered\<close> is the disk that recovery makes of it.
\<close>

record superblock =
  sb_size :: u32
  sb_nblocks :: u32
  sb_ninodes :: u32
  sb_nlog :: u32
  sb_logstart :: u32
  sb_inodestart :: u32
  sb_bmapstart :: u32

record lgst = bst +
  l_start :: u32
  l_size :: int
  l_outstanding :: int
  l_committing :: bool
  l_dev :: nat
  l_n :: int
  l_block :: "u32 list"

definition decode_sb :: "block \<Rightarrow> superblock" where
  "decode_sb d = \<lparr>sb_size = get32 d 0, sb_nblocks = get32 d 1, sb_ninodes = get32 d 2, sb_nlog = get32 d 3,
     sb_logstart = get32 d 4, sb_inodestart = get32 d 5, sb_bmapstart = get32 d 6\<rparr>"

definition readsb :: "nat \<Rightarrow> 'z bst_scheme \<Rightarrow> (superblock, 'z bst_scheme) outcome" where
  "readsb dev s =
     bnd (bread dev 1 s) (\<lambda>i s.
     let sb = decode_sb (b_data (bufs s ! i)) in
     bnd (brelse i s) (\<lambda>_ s. Ret sb s))"

subsection \<open>The header block\<close>

definition head_n :: "block \<Rightarrow> int" where
  "head_n d = sint (get32 d 0)"

definition head_block :: "block \<Rightarrow> nat \<Rightarrow> u32" where
  "head_block d i = get32 d (i + 1)"

text \<open>The copy of the header's entries into \<^verbatim>\<open>log.lh\<close>, and back.  Indices past \<^verbatim>\<open>LOGSIZE\<close> are
  outside the array: C gives them no meaning, and the model stops.\<close>

definition read_head :: "'z lgst_scheme \<Rightarrow> (unit, 'z lgst_scheme) outcome" where
  "read_head s =
     bnd (bread (l_dev s) (unat (l_start s)) s) (\<lambda>b s.
     let lh = b_data (bufs s ! b); n = head_n lh in
     if n > int LOGSIZE then Panic ''undefined behaviour: log.lh.block overrun''
     else brelse b (s\<lparr>l_n := n,
       l_block := foldl (\<lambda>bs i. bs[i := head_block lh i]) (l_block s) [0..<nat n]\<rparr>))"

definition write_head :: "'z lgst_scheme \<Rightarrow> (unit, 'z lgst_scheme) outcome" where
  "write_head s =
     bnd (bread (l_dev s) (unat (l_start s)) s) (\<lambda>b s.
     let hb = put32 (b_data (bufs s ! b)) 0 (word_of_int (l_n s));
         s = set_data b (foldl (\<lambda>hb i. put32 hb (i + 1) (l_block s ! i)) hb [0..<nat (l_n s)]) s
     in bnd (bwrite b s) (\<lambda>_ s. brelse b s))"

definition install_trans_step :: "nat \<Rightarrow> 'z lgst_scheme \<Rightarrow> (unit, 'z lgst_scheme) outcome" where
  "install_trans_step tail s =
     bnd (bread (l_dev s) (unat (l_start s + of_nat tail + 1)) s) (\<lambda>lbuf s.
     bnd (bread (l_dev s) (unat (l_block s ! tail)) s) (\<lambda>dbuf s.
     let s = set_data dbuf (b_data (bufs s ! lbuf)) s in
     bnd (bwrite dbuf s) (\<lambda>_ s.
     bnd (brelse lbuf s) (\<lambda>_ s.
     brelse dbuf s))))"

definition install_trans :: "'z lgst_scheme \<Rightarrow> (unit, 'z lgst_scheme) outcome" where
  "install_trans s = for_each install_trans_step [0..<nat (l_n s)] s"

definition write_log_step :: "nat \<Rightarrow> 'z lgst_scheme \<Rightarrow> (unit, 'z lgst_scheme) outcome" where
  "write_log_step tail s =
     bnd (bread (l_dev s) (unat (l_start s + of_nat tail + 1)) s) (\<lambda>tob s.
     bnd (bread (l_dev s) (unat (l_block s ! tail)) s) (\<lambda>fromb s.
     let s = set_data tob (b_data (bufs s ! fromb)) s in
     bnd (bwrite tob s) (\<lambda>_ s.
     bnd (brelse fromb s) (\<lambda>_ s.
     brelse tob s))))"

definition write_log :: "'z lgst_scheme \<Rightarrow> (unit, 'z lgst_scheme) outcome" where
  "write_log s = for_each write_log_step [0..<nat (l_n s)] s"

definition recover_from_log :: "'z lgst_scheme \<Rightarrow> (unit, 'z lgst_scheme) outcome" where
  "recover_from_log s =
     bnd (read_head s) (\<lambda>_ s.
     bnd (install_trans s) (\<lambda>_ s.
     write_head (s\<lparr>l_n := 0\<rparr>)))"

definition commit :: "'z lgst_scheme \<Rightarrow> (unit, 'z lgst_scheme) outcome" where
  "commit s =
     (if l_n s > 0 then
        bnd (write_log s) (\<lambda>_ s.
        bnd (write_head s) (\<lambda>_ s.
        bnd (install_trans s) (\<lambda>_ s.
        write_head (s\<lparr>l_n := 0\<rparr>))))
      else Ret () s)"

text \<open>\<^verbatim>\<open>sizeof(struct logheader)\<close> is four bytes for \<open>n\<close> and four for each entry.\<close>

definition initlog :: "nat \<Rightarrow> 'z lgst_scheme \<Rightarrow> (unit, 'z lgst_scheme) outcome" where
  "initlog dev s =
     (if 4 + 4 * LOGSIZE \<ge> BSIZE then Panic ''initlog: too big logheader''
      else
        bnd (readsb dev s) (\<lambda>sb s.
        recover_from_log (s\<lparr>l_start := sb_logstart sb, l_size := sint (sb_nlog sb), l_dev := dev\<rparr>)))"

subsection \<open>Transactions\<close>

text \<open>\<open>begin_op_loop\<close> is the loop from its head with \<^verbatim>\<open>log.lock\<close> held, up to \<open>sleep\<close>;
  \<open>begin_op_resume\<close> is what runs when the process is woken.\<close>

definition begin_op_loop :: "'z lgst_scheme \<Rightarrow> (unit, 'z lgst_scheme) outcome" where
  "begin_op_loop s =
     (if l_committing s then sleep ChLog (Some LkLog) s
      else if l_n s + (l_outstanding s + 1) * int MAXOPBLOCKS > int LOGSIZE then sleep ChLog (Some LkLog) s
      else release LkLog (s\<lparr>l_outstanding := l_outstanding s + 1\<rparr>))"

definition begin_op :: "'z lgst_scheme \<Rightarrow> (unit, 'z lgst_scheme) outcome" where
  "begin_op s = bnd (acquire LkLog s) (\<lambda>_ s. begin_op_loop s)"

definition begin_op_resume :: "'z lgst_scheme \<Rightarrow> (unit, 'z lgst_scheme) outcome" where
  "begin_op_resume s = bnd (sleep_return LkLog s) (\<lambda>_ s. begin_op_loop s)"

definition end_op :: "'z lgst_scheme \<Rightarrow> (unit, 'z lgst_scheme) outcome" where
  "end_op s =
     bnd (acquire LkLog s) (\<lambda>_ s.
     let s = s\<lparr>l_outstanding := l_outstanding s - 1\<rparr> in
     if l_committing s then Panic ''log.committing''
     else if l_outstanding s = 0 then
       bnd (release LkLog (s\<lparr>l_committing := True\<rparr>)) (\<lambda>_ s.
       bnd (commit s) (\<lambda>_ s.
       bnd (acquire LkLog s) (\<lambda>_ s.
       bnd (wakeup ChLog (s\<lparr>l_committing := False\<rparr>)) (\<lambda>_ s.
       release LkLog s))))
     else
       bnd (wakeup ChLog s) (\<lambda>_ s.
       release LkLog s))"

text \<open>The slot of a block in the log: that of an earlier write of it, or a new one.\<close>

definition log_slot :: "u32 \<Rightarrow> 'z lgst_scheme \<Rightarrow> nat" where
  "log_slot b s = (case find_index (\<lambda>x. x = b) (take (nat (l_n s)) (l_block s)) of
     Some i \<Rightarrow> i | None \<Rightarrow> nat (l_n s))"

definition log_write :: "nat \<Rightarrow> 'z lgst_scheme \<Rightarrow> (unit, 'z lgst_scheme) outcome" where
  "log_write b s =
     (if l_n s \<ge> int LOGSIZE \<or> l_n s \<ge> l_size s - 1 then Panic ''too big a transaction''
      else if l_outstanding s < 1 then Panic ''log_write outside of trans''
      else
        bnd (acquire LkLog s) (\<lambda>_ s.
        let bn = of_nat (b_blockno (bufs s ! b));
            i = log_slot bn s;
            s = s\<lparr>l_block := (l_block s)[i := bn]\<rparr>;
            s = (if int i = l_n s then s\<lparr>l_n := l_n s + 1\<rparr> else s);
            s = upd_buf b (\<lambda>b. b\<lparr>b_dirty := True\<rparr>) s
        in release LkLog s))"

subsection \<open>Encoding of the header\<close>

definition put_head :: "int \<Rightarrow> u32 list \<Rightarrow> block \<Rightarrow> block" where
  "put_head n bs d = foldl (\<lambda>hb i. put32 hb (i + 1) (bs ! i)) (put32 d 0 (word_of_int n)) [0..<nat n]"

lemma length_foldl_put [simp]: "length (foldl (\<lambda>hb i. put32 hb (Suc i) (bs ! i)) d xs) = length d"
  by (induction xs arbitrary: d) auto

lemma length_put_head [simp]: "length (put_head n bs d) = length d"
  by (simp add: put_head_def)

lemma foldl_put_get:
  assumes "4 * m + 4 \<le> length d" and "4 * j + 3 < length d"
  shows "get32 (foldl (\<lambda>hb i. put32 hb (Suc i) (bs ! i)) d [0..<m]) j =
    (if 0 < j \<and> j \<le> m then bs ! (j - 1) else get32 d j)"
  using assms
proof (induction m)
  case (Suc m)
  then show ?case by (auto simp: get32_put32 le_Suc_eq)
qed auto

lemma head_put_head:
  assumes "0 \<le> n" and "n \<le> int LOGSIZE" and "length d = BSIZE"
  shows "head_n (put_head n bs d) = n" and "i < nat n \<Longrightarrow> head_block (put_head n bs d) i = bs ! i"
proof -
  have L: "LOGSIZE = 30" by (simp add: LOGSIZE_def MAXOPBLOCKS_def)
  have m: "4 * nat n + 4 \<le> length (put32 d 0 (word_of_int n))" using assms by (simp add: L BSIZE_def)
  have "get32 (put_head n bs d) 0 = word_of_int n"
    using foldl_put_get[OF m, of 0 bs] assms by (simp add: put_head_def get32_put32 BSIZE_def)
  then have "head_n (put_head n bs d) = sint (word_of_int n :: u32)" by (simp add: head_n_def)
  also have "\<dots> = n" using assms(1,2) by (simp add: L int_word_sint)
  finally show "head_n (put_head n bs d) = n" .
  assume "i < nat n"
  then show "head_block (put_head n bs d) i = bs ! i"
    using foldl_put_get[OF m, of "Suc i" bs] assms by (simp add: put_head_def head_block_def L BSIZE_def)
qed

lemma foldl_read_head:
  assumes "m \<le> length bs"
  shows "foldl (\<lambda>bs i. bs[i := f i]) bs [0..<m] = map f [0..<m] @ drop m bs"
  using assms
proof (induction m)
  case (Suc m)
  then show ?case by (simp add: list_update_append Cons_nth_drop_Suc[symmetric])
qed simp

subsection \<open>Where the log is\<close>

definition logno :: "'z lgst_scheme \<Rightarrow> nat" where "logno s = unat (l_start s)"

definition home :: "'z lgst_scheme \<Rightarrow> nat \<Rightarrow> nat" where "home s i = unat (l_block s ! i)"

definition logged :: "'z lgst_scheme \<Rightarrow> nat set" where "logged s = home s ` {..<nat (l_n s)}"

definition in_log :: "'z lgst_scheme \<Rightarrow> nat \<Rightarrow> bool" where
  "in_log s b = (logno s \<le> b \<and> int b < int (logno s) + l_size s)"

definition log_geom :: "'z lgst_scheme \<Rightarrow> bool" where
  "log_geom s = (l_dev s = 1 \<and> 0 < l_size s \<and> int (logno s) + l_size s \<le> int (disksize s) \<and> disksize s \<le> 2 ^ 32)"

definition log_lh :: "'z lgst_scheme \<Rightarrow> bool" where
  "log_lh s = (0 \<le> l_n s \<and> l_n s \<le> int LOGSIZE \<and> l_n s < l_size s \<and> length (l_block s) = LOGSIZE \<and>
     inj_on (home s) {..<nat (l_n s)} \<and> (\<forall>b \<in> logged s. b < disksize s \<and> \<not> in_log s b))"

lemma logged_home: "log_lh s \<Longrightarrow> i < nat (l_n s) \<Longrightarrow> home s i < disksize s \<and> \<not> in_log s (home s i)"
  by (auto simp: log_lh_def logged_def)

lemma log_addr:
  assumes "log_geom s" and "int i < l_size s - 1"
  shows "unat (l_start s + of_nat i + 1) = logno s + i + 1" and "in_log s (logno s + i + 1)"
proof -
  have b: "logno s + i + 1 < 2 ^ 32" using assms by (simp add: log_geom_def)
  have "l_start s + of_nat i + 1 = (of_nat (logno s + i + 1) :: u32)" by (simp add: logno_def)
  then show "unat (l_start s + of_nat i + 1) = logno s + i + 1"
    using unat_of_nat_small[of "logno s + i + 1", where 'a = 32] b by (simp only: len32)
  show "in_log s (logno s + i + 1)" using assms(2) by (simp add: in_log_def)
qed

lemma bio_frame_log:
  assumes "bio_frame s (t :: 'z lgst_scheme)"
  shows "l_start t = l_start s" "l_size t = l_size s" "l_outstanding t = l_outstanding s"
    "l_committing t = l_committing s" "l_dev t = l_dev s" "l_n t = l_n s" "l_block t = l_block s"
  by (rule bio_frameE[OF assms], simp)+

lemma bio_frame_logno:
  assumes "bio_frame s (t :: 'z lgst_scheme)"
  shows "logno t = logno s" "home t = home s" "logged t = logged s" "in_log t = in_log s"
    "log_geom t = log_geom s" "log_lh t = log_lh s"
proof -
  note L = bio_frame_log[OF assms] bio_frame_fields(3)[OF assms]
  show l: "logno t = logno s" and h: "home t = home s" by (auto simp: logno_def home_def L)
  show g: "logged t = logged s" and i: "in_log t = in_log s" by (auto simp: logged_def in_log_def fun_eq_iff h l L)
  show "log_geom t = log_geom s" by (simp add: log_geom_def l L)
  show "log_lh t = log_lh s" unfolding log_lh_def h g i by (simp add: L)
qed

lemma bread_framed:
  assumes "bio_ok s H" and "b_readable s b" and "dirtyb s b \<or> 0 < b_room s"
  shows "returns (bread 1 b s) (\<lambda>_ t. bio_frame s t)"
  by (rule returns_mono[OF bio.rd_law[OF assms(1,2)]]) (use assms(3) in auto)

abbreviation bio_copied :: "'z bst_scheme \<Rightarrow> nat \<Rightarrow> nat \<Rightarrow> 'z bst_scheme \<Rightarrow> bool" where
  "bio_copied s a b t \<equiv> bio.copied s {} a b t"

definition roomy :: "'z bst_scheme \<Rightarrow> nat \<Rightarrow> nat \<Rightarrow> bool" where
  "roomy s a b = ((if dirtyb s a then 0 else 1) + (if dirtyb s b then 0 else 1) \<le> b_room s)"

lemma install_step_copies:
  assumes f: "bio_frame s t" and g: "log_geom s" "log_lh s" and i: "i < nat (l_n s)"
    and t: "bio_ok t {}" "b_readable t (logno s + i + 1)" "b_readable t (home s i)" "roomy t (logno s + i + 1) (home s i)"
  shows "returns (install_trans_step i t) (\<lambda>_ u. bio_copied t (logno s + i + 1) (home s i) u)"
proof -
  note L = bio_frame_log[OF f]
  have "l_n s < l_size s" using g(2) by (simp add: log_lh_def)
  then have il: "int i < l_size s - 1" using i by linarith
  have a: "unat (l_start t + of_nat i + 1) = logno s + i + 1" "in_log s (logno s + i + 1)"
    using log_addr[OF g(1) il] by (simp_all add: L)
  have ne: "logno s + i + 1 \<noteq> home s i" using a(2) logged_home[OF g(2) i] by metis
  have d: "l_dev t = 1" using g(1) by (simp add: L log_geom_def)
  have "returns (bread 1 (logno s + i + 1) t) (\<lambda>_ u. bio_frame t u)"
    by (rule bread_framed[OF t(1,2)]) (use t(4) in \<open>auto simp: roomy_def split: if_splits\<close>)
  then show ?thesis
    unfolding install_trans_step_def a(1) d
  proof (rule returns_bnd_cong[OF _ _ bio.copy_block[OF t(1-3) ne]], goal_cases)
    case (1 x u)
    have "home t i = home s i" using bio_frame_logno(2)[OF f] by simp
    then show ?case using bio_frame_log[OF 1] d by (simp add: home_def[symmetric])
  next
    case 2
    then show ?case using t(4) by (simp add: roomy_def)
  qed
qed

lemma write_log_step_copies:
  assumes f: "bio_frame s t" and g: "log_geom s" "log_lh s" and i: "i < nat (l_n s)"
    and t: "bio_ok t {}" "b_readable t (home s i)" "b_readable t (logno s + i + 1)" "roomy t (home s i) (logno s + i + 1)"
  shows "returns (write_log_step i t) (\<lambda>_ u. bio_copied t (home s i) (logno s + i + 1) u)"
proof -
  note L = bio_frame_log[OF f]
  have "l_n s < l_size s" using g(2) by (simp add: log_lh_def)
  then have il: "int i < l_size s - 1" using i by linarith
  have a: "unat (l_start t + of_nat i + 1) = logno s + i + 1" "in_log s (logno s + i + 1)"
    using log_addr[OF g(1) il] by (simp_all add: L)
  have ne: "home s i \<noteq> logno s + i + 1" using a(2) logged_home[OF g(2) i] by metis
  have d: "l_dev t = 1" using g(1) by (simp add: L log_geom_def)
  have "returns (bread 1 (logno s + i + 1) t) (\<lambda>_ u. bio_frame t u)"
    by (rule bread_framed[OF t(1,3)]) (use t(4) in \<open>auto simp: roomy_def split: if_splits\<close>)
  then show ?thesis
    unfolding write_log_step_def a(1) d
  proof (rule returns_bnd_cong[OF _ _ bio.copy_block_back[OF t(1-3) ne]], goal_cases)
    case (1 x u)
    have "home t i = home s i" using bio_frame_logno(2)[OF f] by simp
    then show ?case using bio_frame_log[OF 1] d by (simp add: home_def[symmetric])
  next
    case 2
    then show ?case using t(4) by (simp add: roomy_def)
  qed
qed

subsection \<open>The loops of commit and recovery\<close>

definition install_writes :: "nat \<Rightarrow> (nat \<Rightarrow> nat) \<Rightarrow> nat \<Rightarrow> (nat \<Rightarrow> block) \<Rightarrow> (nat \<times> block) list" where
  "install_writes st h n v = map (\<lambda>i. (h i, v (st + i + 1))) [0..<n]"

definition log_writes :: "nat \<Rightarrow> (nat \<Rightarrow> nat) \<Rightarrow> nat \<Rightarrow> (nat \<Rightarrow> block) \<Rightarrow> (nat \<times> block) list" where
  "log_writes st h n v = map (\<lambda>i. (st + i + 1, v (h i))) [0..<n]"

text \<open>\<open>wrote s ws t\<close>: from \<open>s\<close> to \<open>t\<close> the disk writes \<open>ws\<close> were done and readers see them.\<close>

definition wrote :: "'z bst_scheme \<Rightarrow> (nat \<times> block) list \<Rightarrow> 'z bst_scheme \<Rightarrow> bool" where
  "wrote s ws t = (bio_ok t {} \<and> bview t = apply_writes ws (bview s) \<and> disk t = apply_writes ws (disk s) \<and>
     wlog t = wlog s @ ws \<and> Collect (dirtyb t) = Collect (dirtyb s) - fst ` set ws \<and> b_room s \<le> b_room t \<and>
     b_readable t = b_readable s)"

lemma log_lh_n: "log_lh s \<Longrightarrow> i < nat (l_n s) \<Longrightarrow> int i < l_size s - 1"
  unfolding log_lh_def by linarith

lemma log_not_home:
  assumes "log_geom s" and "log_lh s"
  shows "(\<lambda>i. logno s + i + 1) ` {..<nat (l_n s)} \<inter> home s ` {..<nat (l_n s)} = {}"
proof -
  have False if "i < nat (l_n s)" "j < nat (l_n s)" "logno s + i + 1 = home s j" for i j
    using log_addr(2)[OF assms(1) log_lh_n[OF assms(2) that(1)]] logged_home[OF assms(2) that(2)] that(3) by metis
  then show ?thesis by (fastforce simp: image_iff)
qed

lemma install_trans_run:
  assumes s: "bio_ok s {}" "log_geom s" "log_lh s"
    and rb: "\<And>i. i < nat (l_n s) \<Longrightarrow> b_readable s (logno s + i + 1) \<and> b_readable s (home s i)"
    and rm: "\<And>i. i < nat (l_n s) \<Longrightarrow> roomy s (logno s + i + 1) (home s i)"
  shows "returns (install_trans s)
    (\<lambda>_ t. bio_frame s t \<and> wrote s (install_writes (logno s) (home s) (nat (l_n s)) (bview s)) t)"
proof -
  let ?xs = "[0..<nat (l_n s)]"
  have "returns (for_each install_trans_step ?xs s) (\<lambda>_ t. bio_ok t {} \<and> bio_frame s t \<and>
    bview t = apply_writes (map (\<lambda>x. (home s x, bview s (logno s + x + 1))) ?xs) (bview s) \<and>
    disk t = apply_writes (map (\<lambda>x. (home s x, bview s (logno s + x + 1))) ?xs) (disk s) \<and>
    wlog t = wlog s @ map (\<lambda>x. (home s x, bview s (logno s + x + 1))) ?xs \<and>
    Collect (dirtyb t) = Collect (dirtyb s) - home s ` set ?xs \<and> b_room s \<le> b_room t \<and> b_readable t = b_readable s \<and>
    (\<forall>j \<in> {}. b_blockno (bufs t ! j) = b_blockno (bufs s ! j)))"
  proof (rule bio.copies)
    show "distinct (map (home s) ?xs)"
      using s(3) by (simp add: distinct_map log_lh_def atLeast0LessThan)
    show "(\<lambda>x. logno s + x + 1) ` set ?xs \<inter> home s ` set ?xs = {}"
      using log_not_home[OF s(2,3)] by (simp add: atLeast0LessThan)
  next
    fix x t assume "x \<in> set ?xs" "bio_frame s t" "bio_ok t {}" "b_readable t (logno s + x + 1)" "b_readable t (home s x)"
      "(if logno s + x + 1 \<in> Collect (dirtyb t) then 0 else 1) + (if home s x \<in> Collect (dirtyb t) then 0 else 1) \<le> b_room t"
    then show "returns (install_trans_step x t) (\<lambda>_ u. bio_copied t (logno s + x + 1) (home s x) u)"
      by (intro install_step_copies[OF _ s(2,3)]) (simp_all add: roomy_def)
  qed (use s rb rm in \<open>simp_all add: roomy_def\<close>)
  then show ?thesis
    unfolding install_trans_def by (rule returns_mono) (force simp: wrote_def install_writes_def image_image)
qed

lemma write_log_run:
  assumes s: "bio_ok s {}" "log_geom s" "log_lh s"
    and rb: "\<And>i. i < nat (l_n s) \<Longrightarrow> b_readable s (logno s + i + 1) \<and> b_readable s (home s i)"
    and rm: "\<And>i. i < nat (l_n s) \<Longrightarrow> roomy s (home s i) (logno s + i + 1)"
  shows "returns (write_log s)
    (\<lambda>_ t. bio_frame s t \<and> wrote s (log_writes (logno s) (home s) (nat (l_n s)) (bview s)) t)"
proof -
  let ?xs = "[0..<nat (l_n s)]"
  have "returns (for_each write_log_step ?xs s) (\<lambda>_ t. bio_ok t {} \<and> bio_frame s t \<and>
    bview t = apply_writes (map (\<lambda>x. (logno s + x + 1, bview s (home s x))) ?xs) (bview s) \<and>
    disk t = apply_writes (map (\<lambda>x. (logno s + x + 1, bview s (home s x))) ?xs) (disk s) \<and>
    wlog t = wlog s @ map (\<lambda>x. (logno s + x + 1, bview s (home s x))) ?xs \<and>
    Collect (dirtyb t) = Collect (dirtyb s) - (\<lambda>x. logno s + x + 1) ` set ?xs \<and> b_room s \<le> b_room t \<and>
    b_readable t = b_readable s \<and> (\<forall>j \<in> {}. b_blockno (bufs t ! j) = b_blockno (bufs s ! j)))"
  proof (rule bio.copies)
    show "distinct (map (\<lambda>x. logno s + x + 1) ?xs)" by (simp add: distinct_map inj_on_def)
    show "home s ` set ?xs \<inter> (\<lambda>x. logno s + x + 1) ` set ?xs = {}"
      using log_not_home[OF s(2,3)] by (simp add: atLeast0LessThan Int_commute)
  next
    fix x t assume "x \<in> set ?xs" "bio_frame s t" "bio_ok t {}" "b_readable t (home s x)" "b_readable t (logno s + x + 1)"
      "(if home s x \<in> Collect (dirtyb t) then 0 else 1) + (if logno s + x + 1 \<in> Collect (dirtyb t) then 0 else 1) \<le> b_room t"
    then show "returns (write_log_step x t) (\<lambda>_ u. bio_copied t (home s x) (logno s + x + 1) u)"
      by (intro write_log_step_copies[OF _ s(2,3)]) (simp_all add: roomy_def)
  qed (use s rb rm in \<open>simp_all add: roomy_def\<close>)
  then show ?thesis
    unfolding write_log_def by (rule returns_mono) (force simp: wrote_def log_writes_def image_image)
qed

lemma write_head_run:
  assumes s: "bio_ok s {}" "log_geom s" "b_readable s (logno s)" and rm: "0 < b_room s"
  shows "returns (write_head s)
    (\<lambda>_ t. bio_frame s t \<and> wrote s [(logno s, put_head (l_n s) (l_block s) (bview s (logno s)))] t)"
proof -
  have d: "l_dev s = 1" using s(2) by (simp add: log_geom_def)
  have len: "length (bview s (logno s)) = BSIZE"
  proof (cases "dirtyb s (logno s)")
    case True
    then obtain i where i: "cached s (logno s) i" "b_dirty (bufs s ! i)" by (auto simp: dirtyb_def)
    have inv: "bio_inv s {}" using s(1) by (simp add: bio_ok_def)
    have "i < NBUF" using i(1) by (simp add: cached_def)
    then show ?thesis using bio_invD(7,8)[OF inv, of i] i bview_cached[OF inv i(1)] by simp
  next
    case False
    then show ?thesis using bio.clean_law[OF s(1,3)] s(1) bio_invD(6) by (auto simp: bio_ok_def)
  qed
  have fr: "returns (bread 1 (logno s) s) (\<lambda>_ t. bio_frame s t)" by (rule bread_framed[OF s(1,3)]) (use rm in simp)
  have wb: "returns (bnd (bread 1 (logno s) s) (\<lambda>i t. let t = set_data i (put_head (l_n s) (l_block s) (b_data (bufs t ! i))) t in
      bnd (bwrite i t) (\<lambda>_ t. brelse i t)))
    (\<lambda>_ t. bio_ok t {} \<and> bio_frame s t \<and> bview t = (bview s)(logno s := put_head (l_n s) (l_block s) (bview s (logno s))) \<and>
      disk t = (disk s)(logno s := put_head (l_n s) (l_block s) (bview s (logno s))) \<and>
      wlog t = wlog s @ [(logno s, put_head (l_n s) (l_block s) (bview s (logno s)))] \<and>
      Collect (dirtyb t) = Collect (dirtyb s) - {logno s} \<and> b_room s \<le> b_room t \<and> b_readable t = b_readable s \<and>
      (\<forall>j \<in> {}. b_blockno (bufs t ! j) = b_blockno (bufs s ! j)))"
    by (rule bio.write_block[OF s(1,3)]) (use rm len in auto)
  have "returns (write_head s) (\<lambda>_ t. bio_ok t {} \<and> bio_frame s t \<and> bview t = (bview s)(logno s := put_head (l_n s) (l_block s) (bview s (logno s))) \<and>
      disk t = (disk s)(logno s := put_head (l_n s) (l_block s) (bview s (logno s))) \<and>
      wlog t = wlog s @ [(logno s, put_head (l_n s) (l_block s) (bview s (logno s)))] \<and>
      Collect (dirtyb t) = Collect (dirtyb s) - {logno s} \<and> b_room s \<le> b_room t \<and> b_readable t = b_readable s \<and>
      (\<forall>j \<in> {}. b_blockno (bufs t ! j) = b_blockno (bufs s ! j)))"
    unfolding write_head_def d logno_def[symmetric]
  proof (rule returns_bnd_cong[OF fr _ wb], goal_cases)
    case (1 x u)
    then show ?case using bio_frame_log[OF 1] by (simp add: put_head_def Let_def)
  qed
  then show ?thesis by (rule returns_mono) (auto simp: wrote_def)
qed

subsection \<open>Changing the header in memory\<close>

definition set_lh :: "int \<Rightarrow> u32 list \<Rightarrow> 'z lgst_scheme \<Rightarrow> 'z lgst_scheme" where
  "set_lh n bs s = s\<lparr>l_n := n, l_block := bs\<rparr>"

lemma set_lh_fields [simp]:
  "procs (set_lh n bs s) = procs s" "slk (set_lh n bs s) = slk s" "bufs (set_lh n bs s) = bufs s" "lru (set_lh n bs s) = lru s"
  "disk (set_lh n bs s) = disk s" "wlog (set_lh n bs s) = wlog s" "disksize (set_lh n bs s) = disksize s"
  "held (set_lh n bs s) = held s" "cur (set_lh n bs s) = cur s" "mem (set_lh n bs s) = mem s" "freelist (set_lh n bs s) = freelist s"
  "l_start (set_lh n bs s) = l_start s" "l_size (set_lh n bs s) = l_size s" "l_outstanding (set_lh n bs s) = l_outstanding s"
  "l_committing (set_lh n bs s) = l_committing s" "l_dev (set_lh n bs s) = l_dev s" "l_n (set_lh n bs s) = n"
  "l_block (set_lh n bs s) = bs" "set_lh m cs (set_lh n bs s) = set_lh m cs s" "logno (set_lh n bs s) = logno s"
  "in_log (set_lh n bs s) = in_log s" "log_geom (set_lh n bs s) = log_geom s" "home (set_lh n bs s) i = unat (bs ! i)"
  by (simp_all add: set_lh_def logno_def in_log_def log_geom_def home_def fun_eq_iff)

lemma set_lh_same [simp]: "set_lh (l_n s) (l_block s) s = s"
  by (simp add: set_lh_def)

lemma mypid_set_lh [simp]: "mypid (set_lh n bs s) = mypid s" "myproc (set_lh n bs s) = myproc s"
  by (simp_all add: mypid_def myproc_def)

lemma bio_set_lh [simp]:
  "cached (set_lh n bs s) = cached s" "bclean (set_lh n bs s) = bclean s" "bio_inv (set_lh n bs s) = bio_inv s"
  "bview (set_lh n bs s) = bview s" "dirtyb (set_lh n bs s) = dirtyb s" "b_readable (set_lh n bs s) = b_readable s"
  "b_room (set_lh n bs s) = b_room s" "inctx (set_lh n bs s) = inctx s" "bio_ok (set_lh n bs s) = bio_ok s"
  "quiet (set_lh n bs s) = quiet s"
  by (rule same_bst_eqs, simp add: same_bst_def)+

lemma bio_frame_set_lh:
  assumes "bio_frame s t"
  shows "bio_frame (set_lh n bs s) (set_lh n bs t)"
proof -
  obtain p k b l d w where t: "t = s\<lparr>procs := p, slk := k, bufs := b, lru := l, disk := d, wlog := w\<rparr>"
    "woken (procs s) p" "\<And>i. k (SlInode i) = slk s (SlInode i)"
    by (rule bio_frameE[OF assms], rule that)
  show ?thesis
    by (rule bio_frameI[where p = p and k = k and b = b and l = l and d = d and w = w])
      (use t in \<open>simp_all add: set_lh_def\<close>)
qed

definition log_frame :: "'z lgst_scheme \<Rightarrow> 'z lgst_scheme \<Rightarrow> bool" where
  "log_frame s t = bio_frame (set_lh (l_n t) (l_block t) s) t"

lemma log_frame_bio: "bio_frame s t \<Longrightarrow> log_frame s t"
  by (simp add: log_frame_def bio_frame_log[of s t])

lemma log_frame_set [simp]: "log_frame s (set_lh n bs s)"
  by (simp add: log_frame_def)

lemma log_frame_trans:
  assumes "log_frame s t" and "log_frame t u"
  shows "log_frame s u"
proof -
  have "bio_frame (set_lh (l_n u) (l_block u) s) (set_lh (l_n u) (l_block u) t)"
    using bio_frame_set_lh[OF assms(1)[unfolded log_frame_def], of "l_n u" "l_block u"] by simp
  then show ?thesis using bio_frame_trans assms(2) unfolding log_frame_def by blast
qed

lemma log_frame_fields:
  assumes "log_frame s t"
  shows "l_start t = l_start s" "l_size t = l_size s" "l_outstanding t = l_outstanding s" "l_committing t = l_committing s"
    "l_dev t = l_dev s" "logno t = logno s" "in_log t = in_log s" "log_geom t = log_geom s" "held t = held s" "cur t = cur s"
    "disksize t = disksize s" "length (procs t) = length (procs s)" "slk t (SlInode i) = slk s (SlInode i)"
    "lgst.more t = lgst.more s" "mem t = mem s" "freelist t = freelist s" "myproc t = myproc s"
proof -
  note f = assms[unfolded log_frame_def]
  show "l_start t = l_start s" "l_size t = l_size s" "l_outstanding t = l_outstanding s" "l_committing t = l_committing s"
    "l_dev t = l_dev s" using bio_frame_log[OF f] by simp_all
  show "logno t = logno s" "in_log t = in_log s" "log_geom t = log_geom s" using bio_frame_logno[OF f] by simp_all
  show "held t = held s" "cur t = cur s"
    "disksize t = disksize s" "length (procs t) = length (procs s)" "slk t (SlInode i) = slk s (SlInode i)"
    "mem t = mem s" "freelist t = freelist s" "myproc t = myproc s" using bio_frame_fields[OF f] by simp_all
  obtain p k b l d w where
    "t = (set_lh (l_n t) (l_block t) s)\<lparr>procs := p, slk := k, bufs := b, lru := l, disk := d, wlog := w\<rparr>"
    by (rule bio_frameE[OF f], rule that)
  from arg_cong[OF this, of lgst.more] show "lgst.more t = lgst.more s" by (simp add: set_lh_def)
qed

lemma wrote_Nil: "bio_ok s {} \<Longrightarrow> wrote s [] s"
  by (simp add: wrote_def)

lemma wrote_trans: "wrote s ws t \<Longrightarrow> wrote t us u \<Longrightarrow> wrote s (ws @ us) u"
  by (auto simp: wrote_def apply_writes_append)

lemma wrote_set_lh [simp]:
  "wrote (set_lh n bs s) ws t = wrote s ws t" "wrote s ws (set_lh n bs t) = wrote s ws t"
  by (simp_all add: wrote_def)

lemma read_head_run:
  assumes s: "bio_ok s {}" "log_geom s" "b_readable s (logno s)" and rm: "0 < b_room s"
    and cl: "\<not> dirtyb s (logno s)" and n: "head_n (disk s (logno s)) \<le> int LOGSIZE" and len: "length (l_block s) = LOGSIZE"
  shows "returns (read_head s) (\<lambda>_ t. log_frame s t \<and> wrote s [] t \<and> l_n t = head_n (disk s (logno s)) \<and>
    length (l_block t) = LOGSIZE \<and> (\<forall>i < nat (l_n t). l_block t ! i = head_block (disk s (logno s)) i))"
proof -
  have d: "l_dev s = 1" using s(2) by (simp add: log_geom_def)
  have v: "bview s (logno s) = disk s (logno s)" using bio.clean_law[OF s(1,3)] cl by simp
  let ?n = "head_n (disk s (logno s))"
  have nn: "nat ?n \<le> LOGSIZE" using n by simp
  show ?thesis
    unfolding read_head_def d logno_def[symmetric]
  proof (rule returns_bnd[OF bio.rd_law[OF s(1,3)]], goal_cases)
    case 1
    then show ?case using rm by simp
  next
    case (2 b t)
    then have r: "bio_ok t {b}" "bio_frame s t" "b_blockno (bufs t ! b) = logno s" "bview t = bview s" "disk t = disk s"
      "wlog t = wlog s" "Collect (dirtyb t) = Collect (dirtyb s)" "b_room s \<le> b_room t + 1"
      "\<And>c. b_readable t c = (b_readable s c \<and> c \<noteq> logno s)" using cl by auto
    have g: "b_data (bufs t ! b) = disk s (logno s)" using bio.got_law[OF r(1), of b] r(3,4) v by simp
    let ?bs = "map (head_block (disk s (logno s))) [0..<nat ?n] @ drop (nat ?n) (l_block s)"
    have lb: "foldl (\<lambda>bs i. bs[i := head_block (disk s (logno s)) i]) (l_block t) [0..<nat ?n] = ?bs"
      using foldl_read_head[of "nat ?n" "l_block s"] nn len bio_frame_log(7)[OF r(2)] by simp
    have eq: "t\<lparr>l_n := ?n, l_block := ?bs\<rparr> = set_lh ?n ?bs t" by (simp add: set_lh_def)
    have "returns (brelse b (set_lh ?n ?bs t)) (\<lambda>_ u. log_frame s u \<and> wrote s [] u \<and> l_n u = ?n \<and>
      length (l_block u) = LOGSIZE \<and> (\<forall>i < nat (l_n u). l_block u ! i = head_block (disk s (logno s)) i))"
    proof (rule returns_mono[OF bio.rel_law[of _ "{b}" b]], goal_cases)
      case 1
      show ?case using r(1) by simp
    next
      case 3
      show ?case by (simp add: r v)
    next
      case (4 x u)
      have f: "bio_frame (set_lh ?n ?bs t) u" using 4 by blast
      have "log_frame s u" using log_frame_trans[OF log_frame_trans[OF log_frame_bio[OF r(2)] log_frame_set] log_frame_bio[OF f]] .
      moreover have "wrote s [] u" using 4 r cl s(3) by (auto simp: wrote_def fun_eq_iff)
      ultimately show ?case using bio_frame_log(6,7)[OF f] len nn by (simp add: nth_append)
    qed simp
    then show ?case using n unfolding g Let_def lb eq by simp
  qed
qed

subsection \<open>What recovery makes of a disk\<close>

definition head_home :: "block \<Rightarrow> nat \<Rightarrow> nat" where
  "head_home d i = unat (head_block d i)"

definition recovered :: "nat \<Rightarrow> (nat \<Rightarrow> block) \<Rightarrow> nat \<Rightarrow> block" where
  "recovered st D = apply_writes (install_writes st (head_home (D st)) (nat (head_n (D st))) D) D"

definition log_range :: "nat \<Rightarrow> nat \<Rightarrow> nat set" where
  "log_range st lsz = {st..<st + lsz}"

definition head_ok :: "nat \<Rightarrow> nat \<Rightarrow> nat \<Rightarrow> block \<Rightarrow> bool" where
  "head_ok st lsz lim d = (let n = nat (head_n d) in
     0 \<le> head_n d \<and> head_n d \<le> int LOGSIZE \<and> n < lsz \<and> inj_on (head_home d) {..<n} \<and>
     (\<forall>i < n. head_home d i < lim \<and> head_home d i \<notin> log_range st lsz))"

lemma recovered_clean: "head_n (D st) = 0 \<Longrightarrow> recovered st D = D"
  by (simp add: recovered_def install_writes_def)

lemma recovered_at:
  assumes "\<And>i. i < nat (head_n (D st)) \<Longrightarrow> D (st + i + 1) = g (head_home (D st) i)"
  shows "recovered st D b = (if b \<in> head_home (D st) ` {..<nat (head_n (D st))} then g b else D b)"
proof -
  have "fst ` set (install_writes st (head_home (D st)) (nat (head_n (D st))) D) = head_home (D st) ` {..<nat (head_n (D st))}"
    by (auto simp: install_writes_def image_image)
  moreover have "d = g c" if "(c, d) \<in> set (install_writes st (head_home (D st)) (nat (head_n (D st))) D)" for c d
    using that assms by (auto simp: install_writes_def)
  ultimately show ?thesis unfolding recovered_def by (subst apply_writes_vals[where g = g]) auto
qed

text \<open>The disk writes of \<open>commit\<close>, and the disk that a crash after \<open>k\<close> of them leaves.\<close>

definition commit_writes :: "nat \<Rightarrow> (nat \<Rightarrow> nat) \<Rightarrow> nat \<Rightarrow> block \<Rightarrow> block \<Rightarrow> (nat \<Rightarrow> block) \<Rightarrow> (nat \<times> block) list" where
  "commit_writes st h n hdr hdr0 v =
     log_writes st h n v @ [(st, hdr)] @ map (\<lambda>i. (h i, v (h i))) [0..<n] @ [(st, hdr0)]"

lemma log_writes_at:
  "apply_writes (log_writes st h n v) w b = (if st < b \<and> b \<le> st + n then v (h (b - st - 1)) else w b)"
proof -
  have "apply_writes (log_writes st h n v) w b = (if b \<in> fst ` set (log_writes st h n v) then v (h (b - st - 1)) else w b)"
    by (rule apply_writes_vals[where g = "\<lambda>b. v (h (b - st - 1))"]) (auto simp: log_writes_def)
  moreover have "b \<in> fst ` set (log_writes st h n v) \<longleftrightarrow> st < b \<and> b \<le> st + n"
  proof
    assume "st < b \<and> b \<le> st + n"
    then have "b = st + (b - st - 1) + 1" "b - st - 1 < n" by auto
    then show "b \<in> fst ` set (log_writes st h n v)" unfolding log_writes_def by (force simp: image_image)
  qed (auto simp: log_writes_def)
  ultimately show ?thesis by simp
qed

lemma commit_crash:
  assumes n: "n < lsz" and out: "\<And>i. i < n \<Longrightarrow> h i \<notin> log_range st lsz" and d0: "head_n (D st) = 0"
    and clean: "\<And>b. b \<notin> h ` {..<n} \<Longrightarrow> b \<notin> log_range st lsz \<Longrightarrow> v b = D b"
    and hdr: "head_n hdr = int n" "\<And>i. i < n \<Longrightarrow> head_home hdr i = h i" and hdr0: "head_n hdr0 = 0"
    and b: "b \<notin> log_range st lsz" and D': "D' = apply_writes (take k (commit_writes st h n hdr hdr0 v)) D"
  shows "recovered st D' b = (if k \<le> n then D b else v b)"
    and "D' st = (if k \<le> n then D st else if k \<le> 2 * n + 1 then hdr else hdr0)"
proof -
  let ?L = "log_writes st h n v" and ?I = "map (\<lambda>i. (h i, v (h i))) [0..<n]"
  have lenL: "length ?L = n" by (simp add: log_writes_def)
  have stL: "st \<in> log_range st lsz" using n by (simp add: log_range_def)
  have hst: "st \<notin> h ` {..<n}" using out stL by auto
  have inst: "apply_writes (take m ?I) w c = (if c \<in> h ` {..<min m n} then v c else w c)" for m w c
  proof -
    have "take m [0..<n] = [0..<min m n]" by (cases "m \<le> n") (simp_all add: min_def)
    then have "fst ` set (take m ?I) = h ` {..<min m n}" by (simp add: take_map image_image atLeast0LessThan)
    moreover have "d = v c'" if "(c', d) \<in> set (take m ?I)" for c' d using that by (auto simp: take_map)
    ultimately show ?thesis using apply_writes_vals[of "take m ?I" v w c] by (simp only:)
  qed
  consider "k \<le> n" | "n < k" "k \<le> 2 * n + 1" | "2 * n + 1 < k" by linarith
  then have "recovered st D' b = (if k \<le> n then D b else v b) \<and>
    D' st = (if k \<le> n then D st else if k \<le> 2 * n + 1 then hdr else hdr0)"
  proof cases
    case 1
    then have e: "take k (commit_writes st h n hdr hdr0 v) = log_writes st h k v"
      by (simp add: commit_writes_def lenL) (simp add: log_writes_def take_map)
    have "D' st = D st" by (simp add: D' e log_writes_at)
    moreover have "D' b = D b" using b 1 n by (auto simp: D' e log_writes_at log_range_def)
    ultimately show ?thesis using 1 d0 by (simp add: recovered_clean)
  next
    case 2
    let ?m = "k - n - 1"
    have e: "take k (commit_writes st h n hdr hdr0 v) = ?L @ [(st, hdr)] @ take ?m ?I"
      using 2 by (simp add: commit_writes_def lenL take_Cons')
    have D'c: "D' c = (if c \<in> h ` {..<min ?m n} then v c else if c = st then hdr
        else if st < c \<and> c \<le> st + n then v (h (c - st - 1)) else D c)" for c
      by (simp add: D' e apply_writes_append inst log_writes_at)
    have sub: "h ` {..<min ?m n} \<subseteq> h ` {..<n}" by auto
    have st': "D' st = hdr" using hst sub by (auto simp: D'c)
    have "D' (st + i + 1) = v (h i)" if "i < n" for i
    proof -
      have "st + i + 1 \<in> log_range st lsz" using that n by (simp add: log_range_def)
      then have "st + i + 1 \<notin> h ` {..<min ?m n}" using out sub by auto
      then show ?thesis using that by (simp add: D'c)
    qed
    then have r: "recovered st D' b = (if b \<in> head_home hdr ` {..<n} then v b else D' b)"
      using recovered_at[of D' st v b] hdr by (simp add: st')
    have hh: "head_home hdr ` {..<n} = h ` {..<n}" using hdr(2) by (intro image_cong) auto
    have "b \<noteq> st" "\<not> (st < b \<and> b \<le> st + n)" using b n by (auto simp: log_range_def)
    then have "b \<notin> h ` {..<n} \<Longrightarrow> D' b = v b" using clean[OF _ b] sub by (auto simp: D'c)
    then show ?thesis using 2 r st' by (simp add: hh)
  next
    case 3
    then have e: "take k (commit_writes st h n hdr hdr0 v) = commit_writes st h n hdr hdr0 v"
      by (simp add: commit_writes_def lenL)
    have D'c: "D' c = (if c = st then hdr0 else if c \<in> h ` {..<n} then v c
        else if st < c \<and> c \<le> st + n then v (h (c - st - 1)) else D c)" for c
      unfolding D' e using inst[of n] by (simp add: commit_writes_def apply_writes_append log_writes_at)
    have st': "D' st = hdr0" by (simp add: D'c)
    have "b \<noteq> st" "\<not> (st < b \<and> b \<le> st + n)" using b n by (auto simp: log_range_def)
    then have "D' b = v b" using clean[OF _ b] by (auto simp: D'c)
    then show ?thesis using 3 st' hdr0 by (simp add: recovered_clean)
  qed
  then show "recovered st D' b = (if k \<le> n then D b else v b)"
    and "D' st = (if k \<le> n then D st else if k \<le> 2 * n + 1 then hdr else hdr0)" by auto
qed

subsection \<open>commit\<close>

text \<open>Between operations: the pinned blocks are the logged ones and the header on the disk is empty.
  \<^verbatim>\<open>mkfs\<close> makes a log of \<^verbatim>\<open>LOGSIZE\<close> blocks, one of them the header.\<close>

definition log_wf :: "'z lgst_scheme \<Rightarrow> bool" where
  "log_wf s = (bio_ok s {} \<and> log_geom s \<and> l_size s \<le> int LOGSIZE \<and> log_lh s \<and>
     Collect (dirtyb s) = logged s \<and> head_n (disk s (logno s)) = 0)"

lemma logged_card: "card (logged s) \<le> nat (l_n s)"
  using card_image_le[of "{..<nat (l_n s)}" "home s"] by (simp add: logged_def)

lemma LOGSIZE_30: "LOGSIZE = 30" by (simp add: LOGSIZE_def MAXOPBLOCKS_def)

lemma log_wfD:
  assumes "log_wf s"
  shows "bio_ok s {}" "log_geom s" "l_size s \<le> int LOGSIZE" "log_lh s" "Collect (dirtyb s) = logged s"
    "head_n (disk s (logno s)) = 0" "0 \<le> l_n s" "l_n s < l_size s" "l_n s < 30" "l_dev s = 1"
  using assms by (simp_all add: log_wf_def log_lh_def log_geom_def LOGSIZE_30)

lemma not_logged_in_log: "log_lh s \<Longrightarrow> in_log s b \<Longrightarrow> b \<notin> logged s"
  by (auto simp: log_lh_def)

lemma in_log_bound: "log_geom s \<Longrightarrow> in_log s b \<Longrightarrow> b < disksize s"
  unfolding log_geom_def in_log_def by linarith

lemma log_wf_room:
  assumes "log_wf s" and "quiet s"
  shows "0 < b_room s" and "b < disksize s \<Longrightarrow> b_readable s b"
    and "b \<notin> logged s \<Longrightarrow> bview s b = disk s b"
proof -
  note D = log_wfD[OF assms(1)]
  have "card (Collect (dirtyb s)) \<le> nat (l_n s)" using logged_card[of s] by (simp add: D(5))
  then show "0 < b_room s" using quiet_room[OF D(1) assms(2)] D(9) by (simp add: NBUF_30)
  show "b < disksize s \<Longrightarrow> b_readable s b" by (simp add: quietD[OF assms(2)])
  have inv: "bio_inv s {}" using D(1) by (simp add: bio_ok_def)
  assume "b \<notin> logged s"
  then have "\<not> dirtyb s b" using D(5) by blast
  then show "bview s b = disk s b"
    by (rule bview_clean[OF inv]) (use quiet_refcnt[OF D(1) assms(2)] in \<open>auto simp: cached_def\<close>)
qed

definition commit_hdr :: "'z lgst_scheme \<Rightarrow> block" where
  "commit_hdr s = put_head (l_n s) (l_block s) (disk s (logno s))"

definition writes_of_commit :: "'z lgst_scheme \<Rightarrow> (nat \<times> block) list" where
  "writes_of_commit s = (if l_n s > 0 then commit_writes (logno s) (home s) (nat (l_n s)) (commit_hdr s)
     (put_head 0 (l_block s) (commit_hdr s)) (bview s) else [])"

lemma commit_run:
  assumes wf: "log_wf s" and q: "quiet s"
  shows "returns (commit s) (\<lambda>_ t. log_frame s t \<and> l_n t = 0 \<and> l_block t = l_block s \<and> wrote s (writes_of_commit s) t)"
proof (cases "l_n s > 0")
  case False
  then have "l_n s = 0" using log_wfD(7)[OF wf] by simp
  then show ?thesis using log_wfD(1)[OF wf] log_frame_bio[of s s]
    by (simp add: commit_def writes_of_commit_def wrote_Nil)
next
  case True
  note D = log_wfD[OF wf]
  note R = log_wf_room[OF wf q]
  let ?n = "nat (l_n s)"
  have lg: "in_log s (logno s)" using D(2) by (simp add: in_log_def log_geom_def)
  have rlog: "b_readable s (logno s)" using R(2) in_log_bound[OF D(2) lg] .
  have loc: "in_log s (logno s + i + 1)" if "i < ?n" for i using log_addr(2)[OF D(2) log_lh_n[OF D(4) that]] .
  have rb: "b_readable s (logno s + i + 1) \<and> b_readable s (home s i)" if "i < ?n" for i
    using R(2) in_log_bound[OF D(2) loc[OF that]] logged_home[OF D(4) that] by simp
  have dh: "dirtyb s (home s i)" if "i < ?n" for i using that D(5) by (auto simp: logged_def)
  have nd: "\<not> dirtyb s b" if "in_log s b" for b using not_logged_in_log[OF D(4) that] D(5) by blast
  let ?W1 = "log_writes (logno s) (home s) ?n (bview s)"
  have f1: "fst ` set ?W1 \<subseteq> Collect (in_log s)" using loc by (auto simp: log_writes_def)
  have stv: "bview s (logno s) = disk s (logno s)" using R(3) not_logged_in_log[OF D(4) lg] by blast
  show ?thesis
    unfolding commit_def using True
  proof (simp, intro returns_bnd[OF write_log_run[OF D(1,2,4)]], goal_cases)
    case (1 i)
    then show ?case using rb by simp
  next
    case (2 i)
    then show ?case using dh nd[OF loc] R(1) by (simp add: roomy_def)
  next
    case (3 x t)
    then have f: "bio_frame s t" and w: "wrote s ?W1 t" by auto
    note L = bio_frame_log[OF f] bio_frame_logno[OF f]
    have t: "bio_ok t {}" "bview t = apply_writes ?W1 (bview s)" "Collect (dirtyb t) = logged s" "0 < b_room t"
      "b_readable t = b_readable s"
      using w R(1) not_logged_in_log[OF D(4)] f1 by (auto simp: wrote_def D(5))
    have tv: "bview t (logno s) = disk s (logno s)" by (simp add: t(2) log_writes_at stv)
    show ?case
    proof (rule returns_bnd[OF write_head_run], goal_cases)
      case (5 y u)
      then have f2: "bio_frame t u" and w2: "wrote t [(logno s, commit_hdr s)] u"
        by (auto simp: L commit_hdr_def tv)
      note L2 = bio_frame_log[OF f2] bio_frame_logno[OF f2]
      have u: "bio_ok u {}" "bview u = (bview t)(logno s := commit_hdr s)" "Collect (dirtyb u) = logged s" "0 < b_room u"
        "b_readable u = b_readable s"
        using w2 t lg not_logged_in_log[OF D(4) lg] by (auto simp: wrote_def)
      have du: "dirtyb u (home s i)" if "i < ?n" for i using that u(3) by (auto simp: logged_def)
      show ?case
      proof (rule returns_bnd[OF install_trans_run], goal_cases)
        case (6 z r)
        have iw: "install_writes (logno u) (home u) (nat (l_n u)) (bview u) = map (\<lambda>i. (home s i, bview s (home s i))) [0..<?n]"
          unfolding install_writes_def
          by (rule map_cong) (auto simp: L L2 u(2) t(2) log_writes_at)
        let ?W3 = "map (\<lambda>i. (home s i, bview s (home s i))) [0..<?n]"
        have f3: "bio_frame u r" and w3: "wrote u ?W3 r" using 6 unfolding iw by auto
        note L3 = bio_frame_log[OF f3] bio_frame_logno[OF f3]
        have r: "bio_ok r {}" "0 < b_room r" "b_readable r = b_readable s" using w3 u by (auto simp: wrote_def)
        have nl: "logno s \<notin> fst ` set ?W3" using logged_home[OF D(4)] lg by auto
        have rv: "bview r (logno s) = commit_hdr s"
          using w3 apply_writes_out[OF nl] by (simp add: wrote_def u(2))
        have eq: "r\<lparr>l_n := 0\<rparr> = set_lh 0 (l_block s) r" by (simp add: set_lh_def L L2 L3)
        have "returns (write_head (set_lh 0 (l_block s) r)) (\<lambda>_ q. log_frame s q \<and> l_n q = 0 \<and> l_block q = l_block s \<and>
          wrote s (writes_of_commit s) q)"
        proof (rule returns_mono[OF write_head_run], goal_cases)
          case (5 x q)
          then have f4: "bio_frame (set_lh 0 (l_block s) r) q"
            and w4: "wrote r [(logno s, put_head 0 (l_block s) (commit_hdr s))] q" by (auto simp: L L2 L3 rv)
          have "log_frame s q"
            using log_frame_trans[OF log_frame_trans[OF log_frame_bio[OF bio_frame_trans[OF bio_frame_trans[OF f f2] f3]] log_frame_set]
                log_frame_bio[OF f4]] .
          moreover have "wrote s (writes_of_commit s) q"
            using wrote_trans[OF wrote_trans[OF wrote_trans[OF w w2] w3] w4] True by (simp add: writes_of_commit_def commit_writes_def)
          ultimately show ?case using bio_frame_log(6,7)[OF f4] by simp
        qed (use r rlog D(2) in \<open>simp_all add: L L2 L3\<close>)
        then show ?case by (simp add: eq)
      qed (use u du rb D(2,4) in \<open>simp_all add: L L2 roomy_def\<close>)
    qed (use t rlog D(2) in \<open>simp_all add: L\<close>)
  qed
qed

subsection \<open>Recovery\<close>

text \<open>A kernel that has just started: nothing cached is modified, no buffer is in use.\<close>

definition booted :: "(nat \<Rightarrow> block) \<Rightarrow> nat \<Rightarrow> 'z lgst_scheme \<Rightarrow> bool" where
  "booted D lim r = (bio_ok r {} \<and> quiet r \<and> Collect (dirtyb r) = {} \<and> disk r = D \<and> disksize r = lim \<and>
     length (l_block r) = LOGSIZE)"

definition recover_writes :: "nat \<Rightarrow> u32 list \<Rightarrow> (nat \<Rightarrow> block) \<Rightarrow> (nat \<times> block) list" where
  "recover_writes st bs D = install_writes st (head_home (D st)) (nat (head_n (D st))) D @ [(st, put_head 0 bs (D st))]"

lemma bview_disk:
  assumes "bio_ok s {}" and "quiet s" and "Collect (dirtyb s) = {}"
  shows "bview s = disk s"
proof
  fix b
  have "bio_inv s {}" using assms(1) by (simp add: bio_ok_def)
  then show "bview s b = disk s b"
    by (rule bview_clean) (use quiet_refcnt[OF assms(1,2)] assms(3) in \<open>auto simp: cached_def\<close>)
qed

lemma booted_room: "booted D lim r \<Longrightarrow> 2 \<le> b_room r"
proof -
  assume "booted D lim r"
  then have "bio_ok r {}" "quiet r" "Collect (dirtyb r) = {}" unfolding booted_def by blast+
  then have "NBUF \<le> b_room r + 0" using quiet_room[of r] by (simp only: card.empty)
  then show ?thesis by (simp add: NBUF_30)
qed

lemma in_log_range: "log_geom s \<Longrightarrow> in_log s b \<longleftrightarrow> b \<in> log_range (logno s) (nat (l_size s))"
  by (auto simp: in_log_def log_range_def log_geom_def)

lemma recover_run:
  assumes r: "booted D lim r" and g: "log_geom r" "l_size r \<le> int LOGSIZE"
    and h: "head_ok (logno r) (nat (l_size r)) lim (D (logno r))"
  shows "returns (recover_from_log r) (\<lambda>_ t. log_frame r t \<and> log_wf t \<and> l_n t = 0 \<and> wrote r (recover_writes (logno r) (l_block t) D) t)"
proof -
  let ?st = "logno r" and ?d = "D (logno r)"
  let ?n = "nat (head_n ?d)"
  have B: "bio_ok r {}" "quiet r" "Collect (dirtyb r) = {}" "disk r = D" "disksize r = lim" "length (l_block r) = LOGSIZE"
    using r by (auto simp: booted_def)
  have v: "bview r = D" using bview_disk[OF B(1-3)] B(4) by simp
  have H: "0 \<le> head_n ?d" "head_n ?d \<le> int LOGSIZE" "?n < nat (l_size r)" "inj_on (head_home ?d) {..<?n}"
    "\<And>i. i < ?n \<Longrightarrow> head_home ?d i < lim \<and> \<not> in_log r (head_home ?d i)"
    using h by (auto simp: head_ok_def Let_def in_log_range[OF g(1)])
  have lg: "in_log r ?st" using g by (simp add: in_log_def log_geom_def)
  have hl: "head_home ?d i \<noteq> ?st" if "i < ?n" for i using H(5)[OF that] lg by metis
  have rd: "b_readable r b" if "b < lim" for b using that B(2,5) by (simp add: quietD)
  have rlog: "b_readable r b" if "in_log r b" for b using in_log_bound[OF g(1) that] rd B(5) by simp
  have len: "length ?d = BSIZE" using bio_invD(6)[of r "{}" ?st] B(1,4) by (simp add: bio_ok_def)
  show ?thesis
    unfolding recover_from_log_def
  proof (rule returns_bnd[OF read_head_run], goal_cases)
    case 4
    show ?case using booted_room[OF r] by simp
  next
    case 5
    show ?case using B(3) by blast
  next
    case (8 x s)
    then have s: "log_frame r s" "wrote r [] s" "l_n s = head_n ?d" "length (l_block s) = LOGSIZE"
      "\<And>i. i < ?n \<Longrightarrow> home s i = head_home ?d i" by (auto simp: B(4) home_def head_home_def)
    note F = log_frame_fields[OF s(1)]
    have w: "bio_ok s {}" "bview s = D" "disk s = D" "Collect (dirtyb s) = {}" "2 \<le> b_room s" "b_readable s = b_readable r"
      using s(2) v booted_room[OF r] B(3,4) by (auto simp: wrote_def)
    have ld: "logged s = head_home ?d ` {..<?n}" using s(3,5) by (auto simp: logged_def)
    have lh: "log_lh s"
      unfolding log_lh_def
    proof (intro conjI ballI)
      show "inj_on (home s) {..<nat (l_n s)}" using H(4) s(3,5) by (simp add: inj_on_def)
      show "l_n s < l_size s" using H(1,3) s(3) F(2) by linarith
    qed (use H(1,2,5) s(3,4) F(7,11) B(5) in \<open>auto simp: ld\<close>)
    have loc: "in_log r (?st + i + 1)" if "i < ?n" for i
      using log_addr(2)[of s i] log_lh_n[OF lh, of i] that g(1) by (simp add: F s(3))
    have iw: "install_writes (logno s) (home s) (nat (l_n s)) (bview s) = install_writes ?st (head_home ?d) ?n D"
      using s(5) by (simp add: install_writes_def F s(3) w(2))
    show ?case
    proof (rule returns_bnd[OF install_trans_run], goal_cases)
      case (6 y t)
      then have t: "bio_frame s t" "wrote s (install_writes ?st (head_home ?d) ?n D) t" by (auto simp: iw)
      note L = bio_frame_log[OF t(1)] bio_frame_logno[OF t(1)]
      have nl: "?st \<notin> fst ` set (install_writes ?st (head_home ?d) ?n D)" using hl by (fastforce simp: install_writes_def)
      have tv: "bio_ok t {}" "bview t ?st = ?d" "0 < b_room t" "b_readable t = b_readable r" "Collect (dirtyb t) = {}"
        using t(2) w apply_writes_out[OF nl] by (auto simp: wrote_def)
      have eq: "t\<lparr>l_n := 0\<rparr> = set_lh 0 (l_block s) t" by (simp add: set_lh_def L)
      have "returns (write_head (set_lh 0 (l_block s) t)) (\<lambda>_ q. log_frame r q \<and> log_wf q \<and> l_n q = 0 \<and>
        wrote r (recover_writes ?st (l_block q) D) q)"
      proof (rule returns_mono[OF write_head_run], goal_cases)
        case (5 z q)
        then have f: "bio_frame (set_lh 0 (l_block s) t) q"
          and w4: "wrote t [(?st, put_head 0 (l_block s) ?d)] q" by (auto simp: L F tv(2))
        have fq: "log_frame r q"
          using log_frame_trans[OF log_frame_trans[OF log_frame_trans[OF s(1) log_frame_bio[OF t(1)]] log_frame_set]
              log_frame_bio[OF f]] .
        note Q = log_frame_fields[OF fq] bio_frame_log[OF f]
        have wq: "wrote r (recover_writes ?st (l_block q) D) q"
          using wrote_trans[OF wrote_trans[OF s(2) t(2)] w4] by (simp add: recover_writes_def Q)
        have "disk q ?st = put_head 0 (l_block s) ?d" using wq by (simp add: wrote_def recover_writes_def apply_writes_append Q)
        then have h0: "head_n (disk q (logno q)) = 0" using head_put_head(1)[of 0 ?d] len by (simp add: Q)
        have "log_lh q" using lh g by (simp add: log_lh_def Q logged_def log_geom_def)
        moreover have "Collect (dirtyb q) = logged q" using w4 tv(5) by (simp add: wrote_def Q logged_def)
        ultimately have "log_wf q" using wq g h0 by (simp add: log_wf_def wrote_def Q)
        then show ?case using fq wq by (simp add: Q)
      qed (use tv rlog[OF lg] g(1) in \<open>simp_all add: L F\<close>)
      then show ?case by (simp add: eq)
    next
      case (4 i)
      then show ?case using rlog[OF loc] rd H(5) s(3,5) by (simp add: w(6) F)
    next
      case (5 i)
      then show ?case using w(4,5) by (auto simp: roomy_def)
    qed (use w lh g(1) in \<open>simp_all add: F\<close>)
  qed (use B g rlog[OF lg] H(2) in simp_all)
qed

text \<open>A crash during recovery: recovering again gives the same disk.\<close>

lemma recover_crash:
  assumes h: "head_ok st lsz lim (D st)" and b: "b \<notin> log_range st lsz" and h0: "head_n (put_head 0 bs (D st)) = 0"
    and D': "D' = apply_writes (take k (recover_writes st bs D)) D"
  shows "recovered st D' b = recovered st D b" and "D' st = D st \<or> D' st = put_head 0 bs (D st)"
proof -
  let ?d = "D st"
  let ?n = "nat (head_n ?d)" and ?h = "head_home ?d"
  have H: "?n < lsz" "inj_on ?h {..<?n}" "\<And>i. i < ?n \<Longrightarrow> ?h i \<notin> log_range st lsz"
    using h by (auto simp: head_ok_def Let_def)
  define g where "g c = D (st + the_inv_into {..<?n} ?h c + 1)" for c
  have g: "D (st + i + 1) = g (?h i)" if "i < ?n" for i using that the_inv_into_f_f[OF H(2), of i] by (simp add: g_def)
  have RD: "recovered st D c = (if c \<in> ?h ` {..<?n} then g c else D c)" for c using recovered_at[of D st g c] g by simp
  let ?I = "install_writes st ?h ?n D"
  have I: "?I = map (\<lambda>i. (?h i, g (?h i))) [0..<?n]" using g by (simp add: install_writes_def)
  have part: "apply_writes (take m ?I) D c = (if c \<in> ?h ` {..<min m ?n} then g c else D c)" for m c
  proof -
    have "take m [0..<?n] = [0..<min m ?n]" by (cases "m \<le> ?n") (simp_all add: min_def)
    then have "fst ` set (take m ?I) = ?h ` {..<min m ?n}" by (simp add: I take_map image_image atLeast0LessThan)
    moreover have "d = g c'" if "(c', d) \<in> set (take m ?I)" for c' d using that by (auto simp: I take_map)
    ultimately show ?thesis using apply_writes_vals[of "take m ?I" g D c] by (simp only:)
  qed
  have lenI: "length ?I = ?n" by (simp add: I)
  have lr: "st \<in> log_range st lsz" "i < ?n \<Longrightarrow> st + i + 1 \<in> log_range st lsz" for i using H(1) by (auto simp: log_range_def)
  have nh: "c \<notin> ?h ` {..<min m ?n}" if "c \<in> log_range st lsz" for c m using that H(3) by auto
  have "recovered st D' b = recovered st D b \<and> (D' st = D st \<or> D' st = put_head 0 bs (D st))"
  proof (cases "k \<le> ?n")
    case True
    then have e: "take k (recover_writes st bs D) = take k ?I" by (simp add: recover_writes_def lenI)
    have st': "D' st = ?d" unfolding D' e part using nh[OF lr(1)] by simp
    have "D' (st + i + 1) = g (?h i)" if "i < ?n" for i
      unfolding D' e part using nh[OF lr(2)[OF that], of k] g[OF that] by simp
    then have "recovered st D' b = (if b \<in> ?h ` {..<?n} then g b else D' b)" using recovered_at[of D' st g b] by (simp add: st')
    moreover have "D' b = D b" if "b \<notin> ?h ` {..<?n}" unfolding D' e part using that by auto
    ultimately show ?thesis using st' by (simp add: RD)
  next
    case False
    then have e: "take k (recover_writes st bs D) = take ?n ?I @ [(st, put_head 0 bs ?d)]"
      by (simp add: recover_writes_def lenI take_Cons')
    have "D' st = put_head 0 bs ?d" by (simp add: D' e apply_writes_append)
    moreover have "D' b = (if b \<in> ?h ` {..<?n} then g b else D b)"
      unfolding D' e apply_writes_append using part[of ?n b] b lr(1) by auto
    ultimately show ?thesis using h0 by (simp add: recovered_clean RD)
  qed
  then show "recovered st D' b = recovered st D b" and "D' st = D st \<or> D' st = put_head 0 bs (D st)" by auto
qed

text \<open>The superblock on the disk tells where the log is.\<close>

definition sb_on_disk :: "'z lgst_scheme \<Rightarrow> bool" where
  "sb_on_disk s = (\<not> in_log s 1 \<and> 1 \<notin> logged s \<and> 1 < disksize s \<and>
     sb_logstart (decode_sb (disk s 1)) = l_start s \<and> sint (sb_nlog (decode_sb (disk s 1))) = l_size s)"

lemma initlog_run:
  assumes r: "booted D lim r" and one: "1 < lim"
    and sb: "sb_logstart (decode_sb (D 1)) = st" "sint (sb_nlog (decode_sb (D 1))) = m"
    and g: "0 < m" "m \<le> int LOGSIZE" "int (unat st) + m \<le> int lim" "lim \<le> 2 ^ 32"
    and h: "head_ok (unat st) (nat m) lim (D (unat st))"
  shows "returns (initlog 1 r) (\<lambda>_ t. log_wf t \<and> l_n t = 0 \<and> l_start t = st \<and> l_size t = m \<and>
    disk t = apply_writes (recover_writes (unat st) (l_block t) D) D \<and>
    wlog t = wlog r @ recover_writes (unat st) (l_block t) D)"
proof -
  have B: "bio_ok r {}" "quiet r" "Collect (dirtyb r) = {}" "disk r = D" "disksize r = lim" "length (l_block r) = LOGSIZE"
    using r by (auto simp: booted_def)
  have rd: "b_readable r 1" using B(2,5) one by (simp add: quietD)
  have v: "bview r 1 = D 1" using bview_disk[OF B(1-3)] B(4) by simp
  have big: "\<not> 4 + 4 * LOGSIZE \<ge> BSIZE" by (simp add: LOGSIZE_30 BSIZE_def)
  have rs: "returns (readsb 1 r) (\<lambda>x t. x = decode_sb (bview r 1) \<and> bio.same_store r {} t)"
  proof -
    have "returns (bnd (bread 1 1 r) (\<lambda>i s. bnd (brelse i s) (\<lambda>_ t. Ret (decode_sb (b_data (bufs s ! i))) t)))
      (\<lambda>x t. x = decode_sb (bview r 1) \<and> bio.same_store r {} t)"
      by (rule bio.read_block[OF B(1) rd]) (use booted_room[OF r] in simp)
    then show ?thesis by (simp add: readsb_def Let_def)
  qed
  show ?thesis
    unfolding initlog_def using big
  proof (simp only: if_False, intro returns_bnd[OF rs], goal_cases)
    case (1 x s)
    then have x: "x = decode_sb (D 1)" and s: "bio.same_store r {} s" using v by simp_all
    let ?s = "s\<lparr>l_start := sb_logstart x, l_size := sint (sb_nlog x), l_dev := 1\<rparr>"
    have same: "same_bst s ?s" by (simp add: same_bst_def mypid_def myproc_def)
    note E = same_bst_eqs[OF same]
    have f: "bio_frame r s" using s by (simp add: bio.same_store_def)
    have ls: "l_start ?s = st" "l_size ?s = m" using sb by (simp_all add: x)
    have "booted D lim ?s"
      using s B bio_frame_fields(3)[OF f] bio_frame_log(7)[OF f]
      by (auto simp: booted_def E[unfolded One_nat_def] bio.same_store_def quiet_def)
    then have "returns (recover_from_log ?s) (\<lambda>_ t. log_frame ?s t \<and> log_wf t \<and> l_n t = 0 \<and>
      wrote ?s (recover_writes (logno ?s) (l_block t) D) t)"
      by (rule recover_run) (use g h in \<open>simp_all add: log_geom_def logno_def x sb[unfolded One_nat_def] bio_frame_fields(3)[OF f] B(5)\<close>)
    then show ?case
    proof (rule returns_mono, elim conjE, goal_cases)
      case (1 y t)
      have "logno ?s = unat st" using ls(1) by (simp add: logno_def)
      then show ?case
        using 1 log_frame_fields(1,2)[OF 1(2)] s B(4) by (simp add: wrote_def bio.same_store_def x sb[unfolded One_nat_def])
    qed
  qed
qed

lemma head_ok_commit:
  assumes wf: "log_wf s" and d: "d = disk s (logno s) \<or> d = commit_hdr s \<or> d = put_head 0 (l_block s) (commit_hdr s)"
  shows "head_ok (logno s) (nat (l_size s)) (disksize s) d"
proof -
  note D = log_wfD[OF wf]
  have len: "length (disk s (logno s)) = BSIZE" using bio_invD(6)[of s "{}"] D(1) by (simp add: bio_ok_def)
  have n: "0 \<le> l_n s" "l_n s \<le> int LOGSIZE" using D(4) by (simp_all add: log_lh_def)
  note P = head_put_head[OF n len, where bs = "l_block s", folded commit_hdr_def]
  have hh: "head_home (commit_hdr s) i = home s i" if "i < nat (l_n s)" for i
    using P(2)[OF that] by (simp add: head_home_def home_def)
  have z: "head_n (put_head 0 (l_block s) (commit_hdr s)) = 0"
    using head_put_head(1)[of 0 "commit_hdr s"] len by (simp add: commit_hdr_def)
  have "inj_on (head_home (commit_hdr s)) {..<nat (l_n s)}"
    using D(4) hh by (simp add: log_lh_def inj_on_def)
  moreover have "head_home (commit_hdr s) i < disksize s \<and> head_home (commit_hdr s) i \<notin> log_range (logno s) (nat (l_size s))"
    if "i < nat (l_n s)" for i
    using logged_home[OF D(4) that] hh[OF that] in_log_range[OF D(2)] by simp
  moreover have "nat (l_n s) < nat (l_size s)" "0 < nat (l_size s)" using D(7,8) by simp_all
  ultimately have "head_ok (logno s) (nat (l_size s)) (disksize s) (commit_hdr s)"
    using n by (simp add: head_ok_def P(1))
  moreover have "head_ok (logno s) (nat (l_size s)) (disksize s) d" if "head_n d = 0" for d
    using that \<open>0 < nat (l_size s)\<close> by (simp add: head_ok_def)
  ultimately show ?thesis using d z D(6) by auto
qed

lemma commit_image:
  assumes wf: "log_wf s" and q: "quiet s" and D': "D' = apply_writes (take k (writes_of_commit s)) (disk s)"
  shows "\<not> in_log s b \<Longrightarrow> recovered (logno s) D' b = (if int k \<le> l_n s then disk s b else bview s b)"
    and "head_ok (logno s) (nat (l_size s)) (disksize s) (D' (logno s))"
    and "length (writes_of_commit s) \<le> k \<Longrightarrow> head_n (D' (logno s)) = 0"
    and "\<not> in_log s b \<Longrightarrow> b \<notin> logged s \<Longrightarrow> D' b = disk s b"
proof -
  note D = log_wfD[OF wf]
  let ?n = "nat (l_n s)" and ?st = "logno s" and ?sz = "nat (l_size s)"
  let ?h0 = "put_head 0 (l_block s) (commit_hdr s)"
  have len: "length (disk s ?st) = BSIZE" using bio_invD(6)[of s "{}"] D(1) by (simp add: bio_ok_def)
  have nn: "0 \<le> l_n s" "l_n s \<le> int LOGSIZE" using D(4) by (simp_all add: log_lh_def)
  note P = head_put_head[OF nn len, where bs = "l_block s", folded commit_hdr_def]
  have z: "head_n ?h0 = 0" using head_put_head(1)[of 0 "commit_hdr s"] len by (simp add: commit_hdr_def)
  have "(\<not> in_log s b \<longrightarrow> recovered ?st D' b = (if int k \<le> l_n s then disk s b else bview s b)) \<and>
    (D' ?st = disk s ?st \<or> D' ?st = commit_hdr s \<or> D' ?st = ?h0) \<and>
    (length (writes_of_commit s) \<le> k \<longrightarrow> head_n (D' ?st) = 0) \<and> (\<not> in_log s b \<longrightarrow> b \<notin> logged s \<longrightarrow> D' b = disk s b)" for b
  proof (cases "l_n s > 0")
    case False
    then have e: "D' = disk s" and n0: "l_n s = 0" "logged s = {}" using nn by (simp_all add: D' writes_of_commit_def logged_def)
    have "bview s b = disk s b" using log_wf_room(3)[OF wf q] n0(2) by simp
    then show ?thesis by (simp add: e recovered_clean[of "disk s"] D(6))
  next
    case True
    then have W: "writes_of_commit s = commit_writes ?st (home s) ?n (commit_hdr s) ?h0 (bview s)"
      by (simp add: writes_of_commit_def)
    have lenW: "length (writes_of_commit s) = 2 * ?n + 2" by (simp add: W commit_writes_def log_writes_def)
    have c: "recovered ?st D' c = (if k \<le> ?n then disk s c else bview s c)"
        "D' ?st = (if k \<le> ?n then disk s ?st else if k \<le> 2 * ?n + 1 then commit_hdr s else ?h0)"
      if "c \<notin> log_range ?st ?sz" for c
    proof -
      have "?n < ?sz" using D(7,8) by simp
      moreover have "home s i \<notin> log_range ?st ?sz" if "i < ?n" for i
        using logged_home[OF D(4) that] in_log_range[OF D(2)] by simp
      moreover have "bview s c = disk s c" if "c \<notin> home s ` {..<?n}" for c
        using log_wf_room(3)[OF wf q, of c] that by (simp add: logged_def)
      moreover have "head_n (commit_hdr s) = int ?n" using P(1) nn by simp
      moreover have "head_home (commit_hdr s) i = home s i" if "i < ?n" for i
        using P(2)[OF that] by (simp add: head_home_def home_def)
      ultimately show "recovered ?st D' c = (if k \<le> ?n then disk s c else bview s c)"
        "D' ?st = (if k \<le> ?n then disk s ?st else if k \<le> 2 * ?n + 1 then commit_hdr s else ?h0)"
        using commit_crash[where n = ?n and lsz = ?sz and h = "home s" and D = "disk s" and st = ?st and v = "bview s" and
          hdr = "commit_hdr s" and ?hdr0.0 = ?h0 and b = c and D' = D' and k = k] D(6) z that D' W by simp_all
    qed
    have out: "home s 0 \<notin> log_range ?st ?sz"
      using logged_home[OF D(4), of 0] True in_log_range[OF D(2)] by simp
    have "recovered ?st D' b = (if int k \<le> l_n s then disk s b else bview s b)" if "\<not> in_log s b"
    proof -
      have "k \<le> ?n \<longleftrightarrow> int k \<le> l_n s" using nn by linarith
      then show ?thesis using c(1)[of b] that in_log_range[OF D(2)] by simp
    qed
    moreover have "D' b = disk s b" if b: "\<not> in_log s b" "b \<notin> logged s"
    proof -
      have lg: "in_log s ?st" using D(2) by (simp add: in_log_def log_geom_def)
      have l1: "in_log s (?st + i + 1)" if "i < ?n" for i using log_addr(2)[OF D(2) log_lh_n[OF D(4) that]] .
      have "b \<notin> fst ` set (writes_of_commit s)"
        using b lg l1 by (auto simp: W commit_writes_def log_writes_def logged_def)
      then have "b \<notin> fst ` set (take k (writes_of_commit s))" using set_take_subset by fastforce
      then show ?thesis unfolding D' by (rule apply_writes_out)
    qed
    ultimately show ?thesis using c(2)[OF out] z by (auto simp: lenW)
  qed
  from this[of b] this[of ?st] show "\<not> in_log s b \<Longrightarrow> recovered ?st D' b = (if int k \<le> l_n s then disk s b else bview s b)"
    "head_ok ?st ?sz (disksize s) (D' ?st)" "length (writes_of_commit s) \<le> k \<Longrightarrow> head_n (D' ?st) = 0"
    "\<not> in_log s b \<Longrightarrow> b \<notin> logged s \<Longrightarrow> D' b = disk s b"
    using head_ok_commit[OF wf] by (simp_all)
qed

lemma wrote_quiet: "wrote s ws t \<Longrightarrow> disksize t = disksize s \<Longrightarrow> quiet t = quiet s"
  by (simp add: wrote_def quiet_def)

lemma logged_written: "log_wf s \<Longrightarrow> logged s \<subseteq> fst ` set (writes_of_commit s)"
  by (force simp: writes_of_commit_def commit_writes_def logged_def)

lemma commit_done:
  assumes wf: "log_wf s" and q: "quiet s" and f: "log_frame s t" "l_n t = 0" "l_block t = l_block s"
    and w: "wrote s (writes_of_commit s) t"
  shows "log_wf t" and "quiet t" and "\<not> in_log s b \<Longrightarrow> disk t b = bview s b \<and> bview t b = bview s b"
proof -
  note D = log_wfD[OF wf] and F = log_frame_fields[OF f(1)]
  note I = commit_image[OF wf q, of "disk t" "length (writes_of_commit s)"]
  have dt: "disk t = apply_writes (take (length (writes_of_commit s)) (writes_of_commit s)) (disk s)"
    using w by (simp add: wrote_def)
  have h: "head_n (disk t (logno s)) = 0" using I(3)[OF dt] by simp
  have dd: "Collect (dirtyb t) = {}" using w logged_written[OF wf] by (simp add: wrote_def D(5))
  show wt: "log_wf t"
    using w D(2,3,4) h dd unfolding log_wf_def
    by (simp add: wrote_def F log_lh_def f(2,3) logged_def log_geom_def)
  show qt: "quiet t" using wrote_quiet[OF w F(11)] q by simp
  assume b: "\<not> in_log s b"
  have "disk t b = recovered (logno s) (disk t) b" using h by (simp add: recovered_clean)
  also have "\<dots> = bview s b"
    using I(1)[OF dt b] log_wf_room(3)[OF wf q, of b] D(7)
    by (cases "l_n s > 0") (auto simp: writes_of_commit_def commit_writes_def log_writes_def logged_def)
  finally show "disk t b = bview s b \<and> bview t b = bview s b"
    using bview_disk[OF log_wfD(1)[OF wt] qt dd] by simp
qed

text \<open>C1: commit is atomic with respect to crashes.  Let \<open>ws\<close> be the disk writes that \<open>commit\<close> does.  If the
  machine stops after any number \<open>k\<close> of them and starts again, then recovery completes and the disk, outside the log,
  is for \<open>k\<close> up to a bound the old one, and from there on the one on which every logged block has its new content.\<close>

theorem commit_crash_atomic:
  fixes s :: "'z lgst_scheme"
  assumes wf: "log_wf s" and q: "quiet s" and sb: "sb_on_disk s"
  shows "returns (commit s) (\<lambda>_ t. \<exists>ws. wlog t = wlog s @ ws \<and> log_wf t \<and> quiet t \<and> l_n t = 0 \<and>
      (\<forall>b. \<not> in_log s b \<longrightarrow> disk t b = bview s b \<and> bview t b = bview s b) \<and>
      (\<forall>k (r :: 'z lgst_scheme). booted (apply_writes (take k ws) (disk s)) (disksize s) r \<longrightarrow>
        returns (initlog 1 r) (\<lambda>_ u. log_wf u \<and>
          (\<forall>b. \<not> in_log s b \<longrightarrow> disk u b = (if int k \<le> l_n s then disk s b else bview s b)))))"
proof (rule returns_mono[OF commit_run[OF wf q]], elim conjE, goal_cases)
  case (1 x t)
  note D = log_wfD[OF wf] and dn = commit_done[OF wf q 1]
  have boot: "returns (initlog 1 r) (\<lambda>_ u. log_wf u \<and>
      (\<forall>b. \<not> in_log s b \<longrightarrow> disk u b = (if int k \<le> l_n s then disk s b else bview s b)))"
    if r: "booted (apply_writes (take k (writes_of_commit s)) (disk s)) (disksize s) r" for k and r :: "'z lgst_scheme"
  proof -
    define D' where "D' = apply_writes (take k (writes_of_commit s)) (disk s)"
    note I = commit_image[OF wf q D'_def]
    have "D' 1 = disk s 1" using I(4)[of 1] sb by (simp add: sb_on_disk_def)
    then have "returns (initlog 1 r) (\<lambda>_ u. log_wf u \<and> l_n u = 0 \<and> l_start u = l_start s \<and> l_size u = l_size s \<and>
      disk u = apply_writes (recover_writes (unat (l_start s)) (l_block u) D') D' \<and>
      wlog u = wlog r @ recover_writes (unat (l_start s)) (l_block u) D')"
      using I(2) sb D(2,3) r
      by (intro initlog_run[where lim = "disksize s"]) (auto simp: sb_on_disk_def log_geom_def logno_def D'_def)
    then show ?thesis
    proof (rule returns_mono, elim conjE, intro conjI allI impI, goal_cases)
      case (2 x u b)
      then have nb: "\<not> in_log s b"
        and du: "disk u = apply_writes (recover_writes (unat (l_start s)) (l_block u) D') D'" by blast+
      have "b \<noteq> logno s" using nb D(2) by (auto simp: in_log_def log_geom_def)
      then have "disk u b = recovered (logno s) D' b"
        by (simp add: du recover_writes_def apply_writes_append recovered_def logno_def)
      then show ?case using I(1)[OF nb] by simp
    qed
  qed
  show ?case
    by (rule exI[of _ "writes_of_commit s"]) (use dn boot 1 in \<open>auto simp: wrote_def\<close>)
qed

subsection \<open>log_write\<close>

definition pin_buf :: "nat \<Rightarrow> 'z bst_scheme \<Rightarrow> 'z bst_scheme" where
  "pin_buf i s = upd_buf i (\<lambda>b. b\<lparr>b_dirty := True\<rparr>) s"

lemma pin_buf_run:
  assumes "bio_ok s H" and "i \<in> H"
  shows "bio_ok (pin_buf i s) H" "bio_frame s (pin_buf i s)" "bview (pin_buf i s) = bview s" "disk (pin_buf i s) = disk s"
    "wlog (pin_buf i s) = wlog s" "Collect (dirtyb (pin_buf i s)) = insert (b_blockno (bufs s ! i)) (Collect (dirtyb s))"
    "b_readable (pin_buf i s) = b_readable s" "b_room (pin_buf i s) = b_room s"
    "b_blockno (bufs (pin_buf i s) ! j) = b_blockno (bufs s ! j)"
proof -
  have inv: "bio_inv s H" and ctx: "inctx s" using assms(1) by (auto simp: bio_ok_def)
  have iL: "i < length (bufs s)" using bio_invD(1,9)[OF inv] assms(2) by auto
  have h: "b_valid (bufs s ! i)" "b_dev (bufs s ! i) = 1" "b_refcnt (bufs s ! i) = 1" "i < NBUF"
    using bio_invD(9)[OF inv assms(2)] by auto
  let ?nb = "(bufs s ! i)\<lparr>b_dirty := True\<rparr>"
  have e: "pin_buf i s = s\<lparr>bufs := (bufs s)[i := ?nb]\<rparr>" by (simp add: pin_buf_def upd_buf_def)
  have c: "bio_inv (pin_buf i s) H"
    "\<And>c. bview (pin_buf i s) c = (if c = b_blockno ?nb then b_data ?nb else bview s c)"
    "\<And>c. dirtyb (pin_buf i s) c = (if c = b_blockno ?nb then b_dirty ?nb else dirtyb s c)"
    "\<And>c j. cached (pin_buf i s) c j = cached s c j"
    by (rule change_buf[OF inv assms(2)]; use h bio_invD(7)[OF inv h(4,1)] in \<open>simp add: e\<close>)+
  show f: "bio_frame s (pin_buf i s)"
    by (rule bio_frameI[where p = "procs s" and k = "slk s" and l = "lru s" and d = "disk s" and w = "wlog s"
          and b = "bufs (pin_buf i s)"]) (simp_all add: e)
  show "bio_ok (pin_buf i s) H" using c(1) inctx_frame[OF f ctx] by (simp add: bio_ok_def)
  show "bview (pin_buf i s) = bview s"
  proof
    fix c show "bview (pin_buf i s) c = bview s c" unfolding c(2) using held_bview[OF inv assms(2)] by simp
  qed
  show "Collect (dirtyb (pin_buf i s)) = insert (b_blockno (bufs s ! i)) (Collect (dirtyb s))"
  proof (rule set_eqI)
    fix c show "c \<in> Collect (dirtyb (pin_buf i s)) \<longleftrightarrow> c \<in> insert (b_blockno (bufs s ! i)) (Collect (dirtyb s))"
      unfolding mem_Collect_eq c(3) by simp
  qed
  show "disk (pin_buf i s) = disk s" "wlog (pin_buf i s) = wlog s" by (simp_all add: e)
  have bj: "bufs (pin_buf i s) ! j = (if j = i then ?nb else bufs s ! j)" for j using iL by (simp add: e)
  show "b_blockno (bufs (pin_buf i s) ! j) = b_blockno (bufs s ! j)" by (simp add: bj)
  show "b_readable (pin_buf i s) = b_readable s"
    by (rule readable_same) (simp_all add: c(4) bj, simp add: e)
  show "b_room (pin_buf i s) = b_room s"
    by (rule room_same) (use h(3) in \<open>auto simp: bj\<close>)
qed

lemma word_unat_eqD: "unat x = unat y \<Longrightarrow> x = (y :: u32)"
  using word_unat_eq_iff by blast

lemma log_slot_cases:
  assumes lh: "log_lh s" and b: "b < 2 ^ 32"
  shows "b \<in> logged s \<Longrightarrow> log_slot (of_nat b) s < nat (l_n s) \<and> home s (log_slot (of_nat b) s) = b"
    and "b \<notin> logged s \<Longrightarrow> log_slot (of_nat b) s = nat (l_n s)"
proof -
  have "l_n s \<le> int LOGSIZE" "length (l_block s) = LOGSIZE" using lh by (simp_all add: log_lh_def)
  then have n: "nat (l_n s) \<le> length (l_block s)" by simp
  have w: "of_nat b = (x :: u32) \<longleftrightarrow> b = unat x" for x
    using unat_of_nat_small[of b, where 'a = 32] b by auto
  let ?P = "\<lambda>x :: u32. x = of_nat b"
  show "log_slot (of_nat b) s < nat (l_n s) \<and> home s (log_slot (of_nat b) s) = b" if "b \<in> logged s"
  proof (cases "find_index ?P (take (nat (l_n s)) (l_block s))")
    case None
    from that obtain i where i: "i < nat (l_n s)" "b = unat (l_block s ! i)" by (auto simp: logged_def home_def)
    then have "l_block s ! i \<in> set (take (nat (l_n s)) (l_block s))" using n by (auto simp: in_set_conv_nth)
    moreover have "l_block s ! i = of_nat b" using w i(2) by metis
    ultimately show ?thesis using None by (auto simp: find_index_None)
  next
    case (Some j)
    then have "j < nat (l_n s)" "l_block s ! j = of_nat b" using find_index_SomeD[OF Some] n by auto
    then show ?thesis using w[of "of_nat b"] Some by (simp add: log_slot_def home_def)
  qed
  assume nb: "b \<notin> logged s"
  have "find_index ?P (take (nat (l_n s)) (l_block s)) = None"
    unfolding find_index_None
  proof
    fix x assume "x \<in> set (take (nat (l_n s)) (l_block s))"
    then obtain i where i: "i < nat (l_n s)" "x = l_block s ! i" using n by (auto simp: in_set_conv_nth)
    then have "unat x \<in> logged s" by (auto simp: logged_def home_def)
    then show "\<not> x = of_nat b" using nb w[of x] by auto
  qed
  then show "log_slot (of_nat b) s = nat (l_n s)" by (simp add: log_slot_def)
qed

lemma log_write_run:
  assumes s: "bio_ok s H" "i \<in> H" "log_geom s" "log_lh s" and o: "1 \<le> l_outstanding s"
    and room: "l_n s < int LOGSIZE" "l_n s < l_size s - 1"
    and b: "b = b_blockno (bufs s ! i)" "\<not> in_log s b"
  shows "returns (log_write i s) (\<lambda>_ t. log_frame s t \<and> bio_ok t H \<and> log_lh t \<and> bview t = bview s \<and> disk t = disk s \<and> wlog t = wlog s \<and>
    Collect (dirtyb t) = insert b (Collect (dirtyb s)) \<and> logged t = insert b (logged s) \<and>
    l_n t = l_n s + (if b \<in> logged s then 0 else 1) \<and> b_readable t = b_readable s \<and> b_room t = b_room s \<and>
    (\<forall>j. b_blockno (bufs t ! j) = b_blockno (bufs s ! j)))"
proof -
  have inv: "bio_inv s H" and ctx: "inctx s" using s(1) by (auto simp: bio_ok_def)
  have bd: "b < disksize s" using bio_invD(5)[OF inv held_cached[OF inv s(2)]] b(1) by simp
  then have b32: "b < 2 ^ 32" using s(3) by (simp add: log_geom_def)
  let ?i = "log_slot (of_nat b) s" and ?n = "nat (l_n s)"
  let ?bs = "(l_block s)[?i := of_nat b]" and ?m = "if b \<in> logged s then l_n s else l_n s + 1"
  let ?t = "set_lh ?m ?bs (pin_buf i s)"
  note S = log_slot_cases[OF s(4) b32]
  have L: "0 \<le> l_n s" "length (l_block s) = LOGSIZE" "inj_on (home s) {..<?n}"
    "\<And>b. b \<in> logged s \<Longrightarrow> b < disksize s \<and> \<not> in_log s b"
    using s(4) by (auto simp: log_lh_def)
  have n30: "?n < LOGSIZE" using room(1) L(1) by simp
  have slot: "int ?i = l_n s \<longleftrightarrow> b \<notin> logged s" using S L(1) by (cases "b \<in> logged s") auto
  have hl: "held s = []" using ctx by (simp add: inctx_def)
  have ls: "log_slot x (s\<lparr>held := h\<rparr>) = log_slot x s" for x h by (simp add: log_slot_def split: option.split)
  have run: "log_write i s = Ret () ?t"
    using room o hl slot
    by (auto simp: log_write_def acquire_def release_def Let_def ls b(1)[symmetric] set_lh_def pin_buf_def upd_buf_def)
  note P = pin_buf_run[OF s(1,2)]
  have f: "log_frame s ?t" using log_frame_trans[OF log_frame_bio[OF P(2)] log_frame_set] .
  note F = bio_frame_log[OF P(2)] bio_frame_logno[OF P(2)] bio_frame_fields(3)[OF P(2)]
  have ub: "unat (of_nat b :: u32) = b" using unat_of_nat_small[of b, where 'a = 32] b32 by simp
  have "home ?t = home s \<and> logged ?t = logged s \<and> log_lh ?t" if m: "b \<in> logged s"
  proof -
    have "unat (l_block s ! ?i) = unat (of_nat b :: u32)" using S(1)[OF m] ub by (simp add: home_def)
    then have "l_block s ! ?i = of_nat b" by (rule word_unat_eqD)
    then have e: "?bs = l_block s" by (metis list_update_id)
    have h: "home ?t = home s" by (simp add: e fun_eq_iff) (simp add: home_def)
    then have l: "logged ?t = logged s" using m by (simp add: logged_def)
    show ?thesis using s(4) h l m e by (simp add: log_lh_def F)
  qed
  moreover have "logged ?t = insert b (logged s) \<and> log_lh ?t" if m: "b \<notin> logged s"
  proof -
    have sl: "?i = ?n" by (rule S(2)[OF m])
    have nm: "nat ?m = Suc ?n" using m L(1) by simp
    have h: "home ?t j = (if j = ?n then b else home s j)" if "j < Suc ?n" for j
      using that n30 L(2) ub by (simp add: sl home_def nth_list_update)
    have "logged ?t = home ?t ` {..<Suc ?n}" using nm by (simp add: logged_def)
    also have "\<dots> = insert b (logged s)" using h by (auto simp: logged_def lessThan_Suc)
    finally have l: "logged ?t = insert b (logged s)" .
    have "inj_on (home ?t) {..<Suc ?n}"
      using L(3) m h by (auto simp: inj_on_def logged_def less_Suc_eq)
    then show ?thesis using l L m room bd b(2) nm by (simp add: log_lh_def F)
  qed
  ultimately have "logged ?t = insert b (logged s) \<and> log_lh ?t" by blast
  then show ?thesis unfolding run using f P b(1) by simp
qed

subsection \<open>begin_op and end_op\<close>


lemma held_same: "held s = h \<Longrightarrow> s\<lparr>held := h\<rparr> = (s :: 'z kst_scheme)"
  by (cases s) simp

lemma same_bst_wf:
  assumes "same_bst s t" and "l_start t = l_start s" and "l_size t = l_size s" and "l_dev t = l_dev s"
    and "l_n t = l_n s" and "l_block t = l_block s"
  shows "log_wf t = log_wf s" and "in_log t = in_log s" and "logged t = logged s"
proof -
  have l: "logno t = logno s" and h: "home t = home s" using assms by (auto simp: logno_def home_def)
  show i: "in_log t = in_log s" and g: "logged t = logged s" using assms l h by (auto simp: in_log_def logged_def fun_eq_iff)
  have d: "disk t = disk s" "disksize t = disksize s" using assms(1) by (simp_all add: same_bst_def)
  have "log_geom t = log_geom s" "log_lh t = log_lh s" using assms d by (simp_all add: log_geom_def log_lh_def l h i g)
  then show "log_wf t = log_wf s" using assms d by (simp add: log_wf_def same_bst_eqs[OF assms(1)] l g)
qed

text \<open>C2: the last operation to end commits.  All blocks logged since the last commit are on the disk when \<open>end_op\<close>
  returns, the log is empty and every process that waited for the log is runnable.\<close>

theorem end_op_commits:
  assumes wf: "log_wf s" and q: "quiet s" and o: "l_outstanding s = 1" and c: "\<not> l_committing s"
  shows "returns (end_op s) (\<lambda>_ t. l_outstanding t = 0 \<and> \<not> l_committing t \<and> l_n t = 0 \<and> log_wf t \<and> quiet t \<and>
    (\<forall>b. \<not> in_log s b \<longrightarrow> disk t b = bview s b \<and> bview t b = bview s b) \<and>
    (\<forall>i < length (procs s). state (procs s ! i) = SLEEPING \<and> chan (procs s ! i) = Some ChLog \<longrightarrow>
       state (procs t ! i) = RUNNABLE))"
proof -
  have ctx: "inctx s" using log_wfD(1)[OF wf] by (simp add: bio_ok_def)
  then have hl: "held s = []" by (simp add: inctx_def)
  let ?s = "s\<lparr>l_outstanding := 0, l_committing := True\<rparr>"
  have same: "same_bst s ?s" by (simp add: same_bst_def mypid_def myproc_def)
  note W = same_bst_wf[OF same, simplified]
  have wf': "log_wf ?s" and q': "quiet ?s" using wf q W same_bst_eqs[OF same] by simp_all
  have start: "end_op s = bnd (commit ?s) (\<lambda>_ s. bnd (acquire LkLog s) (\<lambda>_ s.
      bnd (wakeup ChLog (s\<lparr>l_committing := False\<rparr>)) (\<lambda>_ s. release LkLog s)))"
  proof -
    have e: "?s\<lparr>held := []\<rparr> = ?s" using hl by (intro held_same) simp
    show ?thesis using hl o c by (simp add: end_op_def acquire_free release_head e)
  qed
  show ?thesis
    unfolding start
  proof (rule returns_bnd[OF commit_run[OF wf' q']], elim conjE, goal_cases)
    case (1 x u)
    note F = log_frame_fields[OF 1(1)] and dn = commit_done[OF wf' q' 1]
    have uctx: "inctx u" using log_wfD(1)[OF dn(1)] by (simp add: bio_ok_def)
    let ?t = "wakeup1 ChLog (u\<lparr>l_committing := False\<rparr>)"
    have "bnd (acquire LkLog u) (\<lambda>_ s. bnd (wakeup ChLog (s\<lparr>l_committing := False\<rparr>)) (\<lambda>_ s. release LkLog s)) = Ret () ?t"
      using F(9) hl by (simp add: acquire_def release_def wakeup_def wakeup1_def)
    moreover
    have "same_bst u (u\<lparr>l_committing := False\<rparr>)" by (simp add: same_bst_def mypid_def myproc_def)
    then have st: "same_bst u ?t"
      using same_bst_wakeup[of "u\<lparr>l_committing := False\<rparr>" ChLog] uctx by (auto simp: same_bst_def inctx_def)
    have "log_wf ?t = log_wf u" by (rule same_bst_wf(1)[OF st]) (simp_all add: wakeup1_def)
    moreover have "disk ?t = disk u" "bview ?t = bview u" "quiet ?t" using same_bst_eqs[OF st] dn(2) by (simp_all add: wakeup1_def)
    moreover have "l_outstanding ?t = 0" "\<not> l_committing ?t" "l_n ?t = 0" using F(3) 1(2) by (simp_all add: wakeup1_def)
    moreover have "state (procs ?t ! i) = RUNNABLE"
      if i: "i < length (procs s)" "state (procs s ! i) = SLEEPING" "chan (procs s ! i) = Some ChLog" for i
    proof -
      have "woken (procs s) (procs u)" using 1(1) by (simp add: log_frame_def bio_frame_def)
      then have "procs u ! i = procs s ! i \<or> procs u ! i = (procs s ! i)\<lparr>state := RUNNABLE\<rparr>" "length (procs u) = length (procs s)"
        using i(1) by (auto simp: woken_def)
      then show ?thesis using i by (auto simp: wakeup1_def wake_def)
    qed
    ultimately show ?case using dn W same_bst_eqs(4)[OF same] by simp
  qed
qed

subsection \<open>A concrete machine\<close>

text \<open>The disk and cache of theory Bio, with the modified block 700 logged.\<close>

definition demo_lgst :: lgst where
  "demo_lgst = bst.extend demo_bst
     \<lparr>l_start = 2, l_size = 30, l_outstanding = 1, l_committing = False, l_dev = 1, l_n = 1, l_block = 700 # replicate 29 0\<rparr>"

text \<open>A machine that has just started on the same disk.\<close>

definition demo_boot :: lgst where
  "demo_boot = demo_lgst\<lparr>bufs := demo_bufs[0 := demo_bufs ! 1]\<rparr>"

lemma demo_lgst_fields [simp]:
  "bufs demo_lgst = demo_bufs" "lru demo_lgst = [0..<30]" "disk demo_lgst = demo_disk" "disksize demo_lgst = 1000"
  "wlog demo_lgst = []" "l_start demo_lgst = 2" "l_size demo_lgst = 30" "l_outstanding demo_lgst = 1"
  "\<not> l_committing demo_lgst" "l_dev demo_lgst = 1" "l_n demo_lgst = 1" "l_block demo_lgst = 700 # replicate 29 0"
  "held demo_lgst = []" "cur demo_lgst = Some 0" "procs demo_lgst = [demo_proc RUNNING 1 10]"
  "slk demo_lgst i = \<lparr>locked = False, lpid = 0\<rparr>"
  by (simp_all add: demo_lgst_def bst.defs demo_bst_def demo_mst_def demo_slst_def demo_kst_def kst.defs slst.defs mst.defs)

lemma demo_same: "same_bst demo_bst demo_lgst"
  by (simp add: same_bst_def mypid_def myproc_def fun_eq_iff)

lemmas demo_eqs = same_bst_eqs[OF demo_same]

lemma demo_log_wf: "log_wf demo_lgst" and demo_quiet: "quiet demo_lgst" and demo_sb: "sb_on_disk demo_lgst"
proof -
  have z: "head_n (demo_disk 2) = 0" by (simp add: demo_disk_def head_n_def get32_def BSIZE_def)
  have lg: "logged demo_lgst = {700}" by (simp add: logged_def home_def lessThan_Suc)
  have d: "Collect (dirtyb demo_lgst) = {700}" by (auto simp: demo_eqs demo_dirty)
  have lh: "log_lh demo_lgst" by (simp add: log_lh_def lg LOGSIZE_30 in_log_def logno_def inj_on_def)
  have g: "log_geom demo_lgst" by (simp add: log_geom_def logno_def)
  show "log_wf demo_lgst" using demo_ok lh g z d lg by (simp add: log_wf_def logno_def LOGSIZE_30 demo_eqs)
  show "quiet demo_lgst" using demo_bst_quiet by (simp add: demo_eqs)
  have s: "get32 (demo_disk 1) 4 = 2" "get32 (demo_disk 1) 3 = 30"
    by (simp_all add: demo_disk_def get32_put32s BSIZE_def del: put32s.simps)
  show "sb_on_disk demo_lgst" using s by (simp add: sb_on_disk_def lg in_log_def logno_def decode_sb_def)
qed

lemma demo_booted: "booted demo_disk 1000 demo_boot"
proof -
  have f: "bufs demo_boot ! i = \<lparr>b_valid = False, b_dirty = False, b_dev = 0, b_blockno = 0, b_refcnt = 0, b_data = []\<rparr>"
    if "i < 30" for i
    using that by (cases "i = 0") (simp_all add: demo_boot_def demo_bufs_nth length_demo_bufs)
  have l: "length (bufs demo_boot) = 30" by (simp add: demo_boot_def length_demo_bufs)
  have c: "\<not> cached demo_boot b i" for b i
  proof
    assume "cached demo_boot b i"
    then have "i < 30" "b_dev (bufs demo_boot ! i) = 1" by (simp_all add: cached_def NBUF_30)
    then show False using f[of i] by simp
  qed
  have g: "lru demo_boot = [0..<30]" "disk demo_boot = demo_disk" "disksize demo_boot = 1000" "inctx demo_boot"
    "slk demo_boot i = \<lparr>locked = False, lpid = 0\<rparr>" "length (l_block demo_boot) = LOGSIZE" for i
    by (simp_all add: demo_boot_def inctx_def LOGSIZE_30)
  have "bio_inv demo_boot {}"
    by (simp add: bio_inv_def c NBUF_30 length_demo_disk bclean_def f g l) auto
  moreover have "quiet demo_boot" by (simp add: quiet_def b_readable_def c g)
  moreover have "Collect (dirtyb demo_boot) = {}" by (simp add: dirtyb_def c)
  ultimately show ?thesis by (simp add: booted_def bio_ok_def g)
qed

theorem commit_crash_atomic_witness:
  "returns (commit demo_lgst) (\<lambda>_ t. disk t 700 = replicate BSIZE 7 \<and> l_n t = 0 \<and>
     returns (initlog 1 demo_boot) (\<lambda>_ u. disk u 700 = replicate BSIZE 0))"
proof -
  have v: "bview demo_lgst 700 = replicate BSIZE 7" using demo_bview by (simp add: demo_eqs)
  have d: "demo_disk 700 = replicate BSIZE 0" by (simp add: demo_disk_def)
  show ?thesis
  proof (rule returns_mono[OF commit_crash_atomic[OF demo_log_wf demo_quiet demo_sb]], elim exE conjE, intro conjI, goal_cases)
    case (3 x t ws)
    have "booted (apply_writes (take 0 ws) (disk demo_lgst)) (disksize demo_lgst) demo_boot" using demo_booted by simp
    then have "returns (initlog 1 demo_boot) (\<lambda>_ u. log_wf u \<and> (\<forall>b. \<not> in_log demo_lgst b \<longrightarrow>
      disk u b = (if int 0 \<le> l_n demo_lgst then disk demo_lgst b else bview demo_lgst b)))"
      using 3 by blast
    then show ?case by (rule returns_mono) (auto simp: in_log_def logno_def d)
  qed (auto simp: v in_log_def logno_def)
qed


theorem end_op_commits_witness:
  "returns (end_op demo_lgst) (\<lambda>_ t. l_outstanding t = 0 \<and> l_n t = 0)"
  by (rule returns_mono[OF end_op_commits[OF demo_log_wf demo_quiet]]) auto

end
