(* ===== verification/Fs.thy ===== *)
theory Fs
  imports Log
begin

text \<open>
  \<^verbatim>\<open>fs.c\<close> up to the contents of inodes: the allocator of disk blocks, inodes on the disk and in the cache
  \<^verbatim>\<open>icache\<close>, and reading and writing of file data.  Theory Dir has directories and paths.

  A cached inode is named by its index in \<^verbatim>\<open>icache.inode\<close>, and its sleep-lock is \<open>SlInode\<close> of that index; where the C
  code tests a pointer for 0 the argument is an option.  \<open>readi\<close> gives the bytes that the C code moves to
  \<open>dst\<close>, \<open>writei\<close> takes the bytes at \<open>src\<close>.  The table \<^verbatim>\<open>devsw\<close> of device functions is an argument, \<open>dr\<close> for its
  \<^verbatim>\<open>read\<close> and \<open>dw\<close> for its \<^verbatim>\<open>write\<close> functions (theory Console has the one device of the system).
\<close>

definition NDIRECT :: nat where "NDIRECT = 12"
definition NINDIRECT :: nat where "NINDIRECT = BSIZE div 4"
definition MAXFILE :: nat where "MAXFILE = NDIRECT + NINDIRECT"
definition IPB :: nat where "IPB = BSIZE div 64"
definition BPB :: nat where "BPB = BSIZE * 8"
definition ROOTINO :: u32 where "ROOTINO = 1"
definition T_DIR :: u16 where "T_DIR = 1"
definition T_FILE :: u16 where "T_FILE = 2"
definition T_DEV :: u16 where "T_DEV = 3"

record dinode =
  di_type :: u16
  di_major :: u16
  di_minor :: u16
  di_nlink :: u16
  di_size :: u32
  di_addrs :: "u32 list"

record inode =
  i_dev :: nat
  i_inum :: u32
  i_ref :: int
  i_valid :: bool
  i_type :: u16
  i_major :: u16
  i_minor :: u16
  i_nlink :: u16
  i_size :: u32
  i_addrs :: "u32 list"

record stat =
  st_type :: u16
  st_dev :: nat
  st_ino :: u32
  st_nlink :: u16
  st_size :: u32

record fsst = lgst +
  sb :: superblock
  inodes :: "inode list"

definition IBLOCK :: "u32 \<Rightarrow> superblock \<Rightarrow> nat" where
  "IBLOCK i sp = unat (i div of_nat IPB + sb_inodestart sp)"

definition BBLOCK :: "u32 \<Rightarrow> superblock \<Rightarrow> nat" where
  "BBLOCK b sp = unat (b div of_nat BPB + sb_bmapstart sp)"

definition upd_inode :: "nat \<Rightarrow> (inode \<Rightarrow> inode) \<Rightarrow> 'z fsst_scheme \<Rightarrow> 'z fsst_scheme" where
  "upd_inode i f s = s\<lparr>inodes := (inodes s)[i := f (inodes s ! i)]\<rparr>"

subsection \<open>Disk blocks\<close>

definition bzero :: "nat \<Rightarrow> nat \<Rightarrow> 'z lgst_scheme \<Rightarrow> (unit, 'z lgst_scheme) outcome" where
  "bzero dev bno s =
     bnd (bread dev bno s) (\<lambda>bp s.
     bnd (log_write bp (set_data bp (replicate BSIZE 0) s)) (\<lambda>_ s.
     brelse bp s))"

text \<open>The bit of a block in a block of the free map.\<close>

definition bit_used :: "block \<Rightarrow> nat \<Rightarrow> bool" where
  "bit_used d bi = (d ! (bi div 8) AND push_bit (bi mod 8) 1 \<noteq> 0)"

definition set_used :: "block \<Rightarrow> nat \<Rightarrow> block" where
  "set_used d bi = d[bi div 8 := d ! (bi div 8) OR push_bit (bi mod 8) 1]"

definition set_free :: "block \<Rightarrow> nat \<Rightarrow> block" where
  "set_free d bi = d[bi div 8 := d ! (bi div 8) AND NOT (push_bit (bi mod 8) 1)]"

text \<open>The inner loop of \<open>balloc\<close>: the first clear bit for a block below the size of the disk.\<close>

definition free_bit :: "nat \<Rightarrow> nat \<Rightarrow> block \<Rightarrow> nat option" where
  "free_bit lim b d = find (\<lambda>bi. \<not> bit_used d bi) (filter (\<lambda>bi. b + bi < lim) [0..<BPB])"

fun balloc_loop :: "nat \<Rightarrow> nat list \<Rightarrow> 'z fsst_scheme \<Rightarrow> (u32, 'z fsst_scheme) outcome" where
  "balloc_loop dev [] s = Panic ''balloc: out of blocks''"
| "balloc_loop dev (b # bs) s =
     bnd (bread dev (BBLOCK (of_nat b) (sb s)) s) (\<lambda>bp s.
     case free_bit (unat (sb_size (sb s))) b (b_data (bufs s ! bp)) of
       Some bi \<Rightarrow>
         bnd (log_write bp (set_data bp (set_used (b_data (bufs s ! bp)) bi) s)) (\<lambda>_ s.
         bnd (brelse bp s) (\<lambda>_ s.
         bnd (bzero dev (b + bi) s) (\<lambda>_ s.
         Ret (of_nat (b + bi)) s)))
     | None \<Rightarrow> bnd (brelse bp s) (\<lambda>_ s. balloc_loop dev bs s))"

definition balloc :: "nat \<Rightarrow> 'z fsst_scheme \<Rightarrow> (u32, 'z fsst_scheme) outcome" where
  "balloc dev s = balloc_loop dev (map (\<lambda>k. k * BPB) [0..<(unat (sb_size (sb s)) + BPB - 1) div BPB]) s"

definition bfree :: "nat \<Rightarrow> u32 \<Rightarrow> 'z fsst_scheme \<Rightarrow> (unit, 'z fsst_scheme) outcome" where
  "bfree dev b s =
     bnd (bread dev (BBLOCK b (sb s)) s) (\<lambda>bp s.
     let bi = unat (b mod of_nat BPB) in
     if \<not> bit_used (b_data (bufs s ! bp)) bi then Panic ''freeing free block''
     else
       bnd (log_write bp (set_data bp (set_free (b_data (bufs s ! bp)) bi) s)) (\<lambda>_ s.
       brelse bp s))"

subsection \<open>Inodes on the disk\<close>

text \<open>Inode \<open>k\<close> of a block takes 64 bytes: four shorts, the size and the addresses.\<close>

definition get_dinode :: "block \<Rightarrow> nat \<Rightarrow> dinode" where
  "get_dinode d k = \<lparr>di_type = get16 d (32 * k), di_major = get16 d (32 * k + 1), di_minor = get16 d (32 * k + 2),
     di_nlink = get16 d (32 * k + 3), di_size = get32 d (16 * k + 2),
     di_addrs = map (\<lambda>j. get32 d (16 * k + 3 + j)) [0..<NDIRECT + 1]\<rparr>"

definition put_dinode :: "block \<Rightarrow> nat \<Rightarrow> dinode \<Rightarrow> block" where
  "put_dinode d k di =
     (let d = put16 d (32 * k) (di_type di); d = put16 d (32 * k + 1) (di_major di);
          d = put16 d (32 * k + 2) (di_minor di); d = put16 d (32 * k + 3) (di_nlink di);
          d = put32 d (16 * k + 2) (di_size di)
      in put32s d (16 * k + 3) (di_addrs di))"

definition zero_dinode :: dinode where
  "zero_dinode = \<lparr>di_type = 0, di_major = 0, di_minor = 0, di_nlink = 0, di_size = 0, di_addrs = replicate (NDIRECT + 1) 0\<rparr>"

definition iget :: "nat \<Rightarrow> u32 \<Rightarrow> 'z fsst_scheme \<Rightarrow> (nat, 'z fsst_scheme) outcome" where
  "iget dev inum s =
     bnd (acquire LkIcache s) (\<lambda>_ s.
     case find_index (\<lambda>ip. i_ref ip > 0 \<and> i_dev ip = dev \<and> i_inum ip = inum) (inodes s) of
       Some i \<Rightarrow>
         bnd (release LkIcache (upd_inode i (\<lambda>ip. ip\<lparr>i_ref := i_ref ip + 1\<rparr>) s)) (\<lambda>_ s. Ret i s)
     | None \<Rightarrow>
        (case find_index (\<lambda>ip. i_ref ip = 0) (inodes s) of
           Some i \<Rightarrow>
             bnd (release LkIcache (upd_inode i (\<lambda>ip. ip\<lparr>i_dev := dev, i_inum := inum, i_ref := 1, i_valid := False\<rparr>) s))
               (\<lambda>_ s. Ret i s)
         | None \<Rightarrow> Panic ''iget: no inodes''))"

fun ialloc_loop :: "nat \<Rightarrow> u16 \<Rightarrow> nat list \<Rightarrow> 'z fsst_scheme \<Rightarrow> (nat, 'z fsst_scheme) outcome" where
  "ialloc_loop dev ty [] s = Panic ''ialloc: no inodes''"
| "ialloc_loop dev ty (inum # rest) s =
     bnd (bread dev (IBLOCK (of_nat inum) (sb s)) s) (\<lambda>bp s.
     let k = inum mod IPB in
     if di_type (get_dinode (b_data (bufs s ! bp)) k) = 0 then
       bnd (log_write bp (set_data bp (put_dinode (b_data (bufs s ! bp)) k (zero_dinode\<lparr>di_type := ty\<rparr>)) s)) (\<lambda>_ s.
       bnd (brelse bp s) (\<lambda>_ s.
       iget dev (of_nat inum) s))
     else bnd (brelse bp s) (\<lambda>_ s. ialloc_loop dev ty rest s))"

definition ialloc :: "nat \<Rightarrow> u16 \<Rightarrow> 'z fsst_scheme \<Rightarrow> (nat, 'z fsst_scheme) outcome" where
  "ialloc dev ty s = ialloc_loop dev ty [1..<unat (sb_ninodes (sb s))] s"

definition dinode_of :: "inode \<Rightarrow> dinode" where
  "dinode_of ip = \<lparr>di_type = i_type ip, di_major = i_major ip, di_minor = i_minor ip, di_nlink = i_nlink ip,
     di_size = i_size ip, di_addrs = i_addrs ip\<rparr>"

definition iupdate :: "nat \<Rightarrow> 'z fsst_scheme \<Rightarrow> (unit, 'z fsst_scheme) outcome" where
  "iupdate i s =
     (let ip = inodes s ! i in
      bnd (bread (i_dev ip) (IBLOCK (i_inum ip) (sb s)) s) (\<lambda>bp s.
      bnd (log_write bp (set_data bp (put_dinode (b_data (bufs s ! bp)) (unat (i_inum ip mod of_nat IPB)) (dinode_of ip)) s)) (\<lambda>_ s.
      brelse bp s)))"

subsection \<open>The inode cache\<close>

fun initinode_locks :: "nat list \<Rightarrow> 'z slst_scheme \<Rightarrow> 'z slst_scheme" where
  "initinode_locks [] s = s"
| "initinode_locks (i # is) s = initinode_locks is (initsleeplock (SlInode i) s)"

definition iinit :: "nat \<Rightarrow> 'z fsst_scheme \<Rightarrow> (unit, 'z fsst_scheme) outcome" where
  "iinit dev s =
     bnd (readsb dev (initinode_locks [0..<NINODE] s)) (\<lambda>x s.
     Ret () (s\<lparr>sb := x\<rparr>))"

definition idup :: "nat \<Rightarrow> 'z fsst_scheme \<Rightarrow> (nat, 'z fsst_scheme) outcome" where
  "idup i s =
     bnd (acquire LkIcache s) (\<lambda>_ s.
     bnd (release LkIcache (upd_inode i (\<lambda>ip. ip\<lparr>i_ref := i_ref ip + 1\<rparr>) s)) (\<lambda>_ s.
     Ret i s))"

definition load_inode :: "dinode \<Rightarrow> inode \<Rightarrow> inode" where
  "load_inode di ip = ip\<lparr>i_type := di_type di, i_major := di_major di, i_minor := di_minor di, i_nlink := di_nlink di,
     i_size := di_size di, i_addrs := di_addrs di\<rparr>"

definition ilock :: "nat option \<Rightarrow> 'z fsst_scheme \<Rightarrow> (unit, 'z fsst_scheme) outcome" where
  "ilock p s =
     (case p of
        None \<Rightarrow> Panic ''ilock''
      | Some i \<Rightarrow>
        if i_ref (inodes s ! i) < 1 then Panic ''ilock''
        else
          bnd (acquiresleep (SlInode i) s) (\<lambda>_ s.
          if i_valid (inodes s ! i) then Ret () s
          else
            let ip = inodes s ! i in
            bnd (bread (i_dev ip) (IBLOCK (i_inum ip) (sb s)) s) (\<lambda>bp s.
            let di = get_dinode (b_data (bufs s ! bp)) (unat (i_inum ip mod of_nat IPB)) in
            bnd (brelse bp (upd_inode i (load_inode di) s)) (\<lambda>_ s.
            let s = upd_inode i (\<lambda>ip. ip\<lparr>i_valid := True\<rparr>) s in
            if i_type (inodes s ! i) = 0 then Panic ''ilock: no type''
            else Ret () s))))"

definition iunlock :: "nat option \<Rightarrow> 'z fsst_scheme \<Rightarrow> (unit, 'z fsst_scheme) outcome" where
  "iunlock p s =
     (case p of
        None \<Rightarrow> Panic ''iunlock''
      | Some i \<Rightarrow>
        bnd (holdingsleep (SlInode i) s) (\<lambda>h s.
        if \<not> h \<or> i_ref (inodes s ! i) < 1 then Panic ''iunlock''
        else releasesleep (SlInode i) s))"

text \<open>\<open>itrunc\<close>: the direct blocks, then the blocks of the indirect block, then that block itself.\<close>

definition itrunc_direct :: "nat \<Rightarrow> nat \<Rightarrow> 'z fsst_scheme \<Rightarrow> (unit, 'z fsst_scheme) outcome" where
  "itrunc_direct i k s =
     (if i_addrs (inodes s ! i) ! k \<noteq> 0 then
        bnd (bfree (i_dev (inodes s ! i)) (i_addrs (inodes s ! i) ! k) s) (\<lambda>_ s.
        Ret () (upd_inode i (\<lambda>ip. ip\<lparr>i_addrs := (i_addrs ip)[k := 0]\<rparr>) s))
      else Ret () s)"

definition itrunc_indirect :: "nat \<Rightarrow> nat \<Rightarrow> nat \<Rightarrow> 'z fsst_scheme \<Rightarrow> (unit, 'z fsst_scheme) outcome" where
  "itrunc_indirect i bp j s =
     (if get32 (b_data (bufs s ! bp)) j \<noteq> 0
      then bfree (i_dev (inodes s ! i)) (get32 (b_data (bufs s ! bp)) j) s
      else Ret () s)"

definition itrunc :: "nat \<Rightarrow> 'z fsst_scheme \<Rightarrow> (unit, 'z fsst_scheme) outcome" where
  "itrunc i s =
     bnd (for_each (itrunc_direct i) [0..<NDIRECT] s) (\<lambda>_ s.
     bnd (if i_addrs (inodes s ! i) ! NDIRECT \<noteq> 0 then
            bnd (bread (i_dev (inodes s ! i)) (unat (i_addrs (inodes s ! i) ! NDIRECT)) s) (\<lambda>bp s.
            bnd (for_each (itrunc_indirect i bp) [0..<NINDIRECT] s) (\<lambda>_ s.
            bnd (brelse bp s) (\<lambda>_ s.
            bnd (bfree (i_dev (inodes s ! i)) (i_addrs (inodes s ! i) ! NDIRECT) s) (\<lambda>_ s.
            Ret () (upd_inode i (\<lambda>ip. ip\<lparr>i_addrs := (i_addrs ip)[NDIRECT := 0]\<rparr>) s)))))
          else Ret () s) (\<lambda>_ s.
     iupdate i (upd_inode i (\<lambda>ip. ip\<lparr>i_size := 0\<rparr>) s)))"

definition iput :: "nat \<Rightarrow> 'z fsst_scheme \<Rightarrow> (unit, 'z fsst_scheme) outcome" where
  "iput i s =
     bnd (acquiresleep (SlInode i) s) (\<lambda>_ s.
     bnd (if i_valid (inodes s ! i) \<and> i_nlink (inodes s ! i) = 0 then
            bnd (acquire LkIcache s) (\<lambda>_ s.
            let r = i_ref (inodes s ! i) in
            bnd (release LkIcache s) (\<lambda>_ s.
            if r = 1 then
              bnd (itrunc i s) (\<lambda>_ s.
              bnd (iupdate i (upd_inode i (\<lambda>ip. ip\<lparr>i_type := 0\<rparr>) s)) (\<lambda>_ s.
              Ret () (upd_inode i (\<lambda>ip. ip\<lparr>i_valid := False\<rparr>) s)))
            else Ret () s))
          else Ret () s) (\<lambda>_ s.
     bnd (releasesleep (SlInode i) s) (\<lambda>_ s.
     bnd (acquire LkIcache s) (\<lambda>_ s.
     release LkIcache (upd_inode i (\<lambda>ip. ip\<lparr>i_ref := i_ref ip - 1\<rparr>) s)))))"

definition iunlockput :: "nat option \<Rightarrow> 'z fsst_scheme \<Rightarrow> (unit, 'z fsst_scheme) outcome" where
  "iunlockput p s = bnd (iunlock p s) (\<lambda>_ s. iput (the p) s)"

subsection \<open>The content of an inode\<close>

definition bmap :: "nat \<Rightarrow> u32 \<Rightarrow> 'z fsst_scheme \<Rightarrow> (u32, 'z fsst_scheme) outcome" where
  "bmap i bn s =
     (if bn < of_nat NDIRECT then
        let addr = i_addrs (inodes s ! i) ! unat bn in
        if addr = 0 then
          bnd (balloc (i_dev (inodes s ! i)) s) (\<lambda>addr s.
          Ret addr (upd_inode i (\<lambda>ip. ip\<lparr>i_addrs := (i_addrs ip)[unat bn := addr]\<rparr>) s))
        else Ret addr s
      else
        let bn = bn - of_nat NDIRECT in
        if bn < of_nat NINDIRECT then
          bnd (if i_addrs (inodes s ! i) ! NDIRECT = 0 then
                 bnd (balloc (i_dev (inodes s ! i)) s) (\<lambda>addr s.
                 Ret addr (upd_inode i (\<lambda>ip. ip\<lparr>i_addrs := (i_addrs ip)[NDIRECT := addr]\<rparr>) s))
               else Ret (i_addrs (inodes s ! i) ! NDIRECT) s) (\<lambda>addr s.
          bnd (bread (i_dev (inodes s ! i)) (unat addr) s) (\<lambda>bp s.
          let addr = get32 (b_data (bufs s ! bp)) (unat bn) in
          bnd (if addr = 0 then
                 bnd (balloc (i_dev (inodes s ! i)) s) (\<lambda>addr s.
                 bnd (log_write bp (set_data bp (put32 (b_data (bufs s ! bp)) (unat bn) addr) s)) (\<lambda>_ s.
                 Ret addr s))
               else Ret addr s) (\<lambda>addr s.
          bnd (brelse bp s) (\<lambda>_ s. Ret addr s))))
        else Panic ''bmap: out of range'')"

definition stati :: "nat \<Rightarrow> 'z fsst_scheme \<Rightarrow> stat" where
  "stati i s = (let ip = inodes s ! i in
     \<lparr>st_type = i_type ip, st_dev = i_dev ip, st_ino = i_inum ip, st_nlink = i_nlink ip, st_size = i_size ip\<rparr>)"

text \<open>The room from an offset to the end of its block.\<close>

definition chunk :: "u32 \<Rightarrow> u32 \<Rightarrow> u32" where
  "chunk off n = (let r = of_nat BSIZE - off mod of_nat BSIZE in if n < r then n else r)"

lemma chunk_nat: "unat (chunk off n) = min (unat n) (512 - unat off mod 512)"
proof -
  have "unat (off mod 512) < 512" by (simp add: unat_mod_distrib)
  then have "unat (512 - off mod 512 :: u32) = 512 - unat off mod 512"
    by (simp add: unat_sub word_le_nat_alt unat_mod_distrib)
  then show ?thesis by (simp add: chunk_def Let_def BSIZE_def word_less_nat_alt)
qed

lemma chunk_pos: "n \<noteq> 0 \<Longrightarrow> 0 < unat (chunk off n)"
  by (simp add: chunk_nat unat_gt_0)

lemma chunk_le: "unat (chunk off n) \<le> unat n"
  by (simp add: chunk_nat)

lemma chunk_decr: "n \<noteq> 0 \<Longrightarrow> unat (n - chunk off n) < unat n"
  using chunk_le[of off n] chunk_pos[of n off] by (simp add: unat_sub word_le_nat_alt)

function readi_loop :: "nat \<Rightarrow> u32 \<Rightarrow> u32 \<Rightarrow> 'z fsst_scheme \<Rightarrow> (u8 list, 'z fsst_scheme) outcome" where
  "readi_loop i off n s =
     (if n = 0 then Ret [] s
      else
        bnd (bmap i (off div of_nat BSIZE) s) (\<lambda>addr s.
        bnd (bread (i_dev (inodes s ! i)) (unat addr) s) (\<lambda>bp s.
        let m = chunk off n;
            bytes = take (unat m) (drop (unat (off mod of_nat BSIZE)) (b_data (bufs s ! bp)))
        in bnd (brelse bp s) (\<lambda>_ s.
           bnd (readi_loop i (off + m) (n - m) s) (\<lambda>rest s.
           Ret (bytes @ rest) s)))))"
  by pat_completeness auto
termination
  by (relation "measure (\<lambda>(i, off, n, s). unat n)") (auto simp: chunk_decr)

declare readi_loop.simps [simp del]

type_synonym 's dev_read = "nat \<Rightarrow> (nat \<Rightarrow> int \<Rightarrow> 's \<Rightarrow> (int \<times> u8 list, 's) outcome) option"
type_synonym 's dev_write = "nat \<Rightarrow> (nat \<Rightarrow> u8 list \<Rightarrow> 's \<Rightarrow> (int, 's) outcome) option"

definition readi :: "'z fsst_scheme dev_read \<Rightarrow> nat \<Rightarrow> u32 \<Rightarrow> u32 \<Rightarrow> 'z fsst_scheme \<Rightarrow> (int \<times> u8 list, 'z fsst_scheme) outcome" where
  "readi dr i off n s =
     (let ip = inodes s ! i in
      if i_type ip = T_DEV then
        if sint (i_major ip) < 0 \<or> sint (i_major ip) \<ge> int NDEV then Ret (-1, []) s
        else (case dr (nat (sint (i_major ip))) of
                None \<Rightarrow> Ret (-1, []) s
              | Some f \<Rightarrow> f i (sint n) s)
      else if off > i_size ip \<or> off + n < off then Ret (-1, []) s
      else
        let n = (if off + n > i_size ip then i_size ip - off else n) in
        bnd (readi_loop i off n s) (\<lambda>bytes s. Ret (sint n, bytes) s))"

function writei_loop :: "nat \<Rightarrow> u8 list \<Rightarrow> u32 \<Rightarrow> u32 \<Rightarrow> 'z fsst_scheme \<Rightarrow> (u32, 'z fsst_scheme) outcome" where
  "writei_loop i src off n s =
     (if n = 0 then Ret off s
      else
        bnd (bmap i (off div of_nat BSIZE) s) (\<lambda>addr s.
        bnd (bread (i_dev (inodes s ! i)) (unat addr) s) (\<lambda>bp s.
        let m = chunk off n; k = unat (off mod of_nat BSIZE); d = b_data (bufs s ! bp);
            s = set_data bp (take k d @ take (unat m) src @ drop (k + unat m) d) s
        in bnd (log_write bp s) (\<lambda>_ s.
           bnd (brelse bp s) (\<lambda>_ s.
           writei_loop i (drop (unat m) src) (off + m) (n - m) s)))))"
  by pat_completeness auto
termination
  by (relation "measure (\<lambda>(i, src, off, n, s). unat n)") (auto simp: chunk_decr)

declare writei_loop.simps [simp del]

definition writei :: "'z fsst_scheme dev_write \<Rightarrow> nat \<Rightarrow> u8 list \<Rightarrow> u32 \<Rightarrow> 'z fsst_scheme \<Rightarrow> (int, 'z fsst_scheme) outcome" where
  "writei dw i src off s =
     (let ip = inodes s ! i; n = of_nat (length src) :: u32 in
      if i_type ip = T_DEV then
        if sint (i_major ip) < 0 \<or> sint (i_major ip) \<ge> int NDEV then Ret (-1) s
        else (case dw (nat (sint (i_major ip))) of
                None \<Rightarrow> Ret (-1) s
              | Some f \<Rightarrow> f i src s)
      else if off > i_size ip \<or> off + n < off then Ret (-1) s
      else if off + n > of_nat (MAXFILE * BSIZE) then Ret (-1) s
      else
        bnd (writei_loop i src off n s) (\<lambda>off s.
        if n > 0 \<and> off > i_size (inodes s ! i) then
          bnd (iupdate i (upd_inode i (\<lambda>ip. ip\<lparr>i_size := off\<rparr>) s)) (\<lambda>_ s. Ret (sint n) s)
        else Ret (sint n) s))"

subsection \<open>A concrete machine\<close>

definition demo_inode :: inode where
  "demo_inode = \<lparr>i_dev = 0, i_inum = 0, i_ref = 0, i_valid = False, i_type = 0, i_major = 0, i_minor = 0, i_nlink = 0, i_size = 0,
     i_addrs = replicate 13 0\<rparr>"

definition demo_fsst :: fsst where
  "demo_fsst = lgst.extend demo_lgst \<lparr>sb = decode_sb (demo_disk 1), inodes = replicate NINODE demo_inode\<rparr>"

lemma demo_fsst_fields [simp]:
  "held demo_fsst = []" "cur demo_fsst = Some 0" "procs demo_fsst = [demo_proc RUNNING 1 10]"
  "inodes demo_fsst = replicate NINODE demo_inode" "myproc demo_fsst = 0" "inctx demo_fsst"
  by (simp_all add: demo_fsst_def lgst.defs demo_lgst_def bst.defs demo_bst_def demo_mst_def demo_slst_def demo_kst_def
    kst.defs slst.defs mst.defs myproc_def inctx_def)

end
