(* ===== verification/Dir.thy ===== *)
theory Dir
  imports Fs
begin

text \<open>
  \<^verbatim>\<open>fs.c\<close>: directories and path names.  A directory is a file of 16-byte entries, an inode number and a name of up to
  14 bytes that is padded with NULs.  A C string is the list of its bytes; \<open>deref\<close> of a list is its first byte, or the NUL at
  its end.
\<close>

definition DIRSIZ :: nat where "DIRSIZ = 14"

record dirent =
  d_inum :: u16
  d_name :: "u8 list"

definition get_dirent :: "u8 list \<Rightarrow> dirent" where
  "get_dirent bs = \<lparr>d_inum = get16 bs 0, d_name = take DIRSIZ (drop 2 bs)\<rparr>"

definition put_dirent :: "dirent \<Rightarrow> u8 list" where
  "put_dirent de = put16 (replicate 2 0) 0 (d_inum de) @ d_name de"

definition namecmp :: "u8 list \<Rightarrow> u8 list \<Rightarrow> int" where
  "namecmp p q = strncmp p q DIRSIZ"

text \<open>The offsets that a loop over the entries of a directory of a given size visits.\<close>

definition dir_offs :: "u32 \<Rightarrow> u32 list" where
  "dir_offs n = map (\<lambda>k. of_nat (16 * k)) [0..<(unat n + 15) div 16]"

fun dirlookup_loop :: "'z fsst_scheme dev_read \<Rightarrow> nat \<Rightarrow> u8 list \<Rightarrow> u32 list \<Rightarrow> 'z fsst_scheme
  \<Rightarrow> ((nat \<times> u32) option, 'z fsst_scheme) outcome" where
  "dirlookup_loop dr dp nm [] s = Ret None s"
| "dirlookup_loop dr dp nm (off # offs) s =
     bnd (readi dr dp off 16 s) (\<lambda>(r, bs) s.
     if r \<noteq> 16 then Panic ''dirlookup read''
     else
       let de = get_dirent bs in
       if d_inum de = 0 then dirlookup_loop dr dp nm offs s
       else if namecmp nm (d_name de) = 0 then
         bnd (iget (i_dev (inodes s ! dp)) (ucast (d_inum de)) s) (\<lambda>ip s. Ret (Some (ip, off)) s)
       else dirlookup_loop dr dp nm offs s)"

text \<open>The inode and, for the argument \<^verbatim>\<open>poff\<close>, the offset of its entry.\<close>

definition dirlookup :: "'z fsst_scheme dev_read \<Rightarrow> nat \<Rightarrow> u8 list \<Rightarrow> 'z fsst_scheme
  \<Rightarrow> ((nat \<times> u32) option, 'z fsst_scheme) outcome" where
  "dirlookup dr dp nm s =
     (if i_type (inodes s ! dp) \<noteq> T_DIR then Panic ''dirlookup not DIR''
      else dirlookup_loop dr dp nm (dir_offs (i_size (inodes s ! dp))) s)"

text \<open>The offset of the first free entry, or the size of the directory rounded up to entries.\<close>

fun free_dirent :: "'z fsst_scheme dev_read \<Rightarrow> nat \<Rightarrow> u32 list \<Rightarrow> u32 \<Rightarrow> 'z fsst_scheme \<Rightarrow> (u32, 'z fsst_scheme) outcome" where
  "free_dirent dr dp [] end s = Ret end s"
| "free_dirent dr dp (off # offs) end s =
     bnd (readi dr dp off 16 s) (\<lambda>(r, bs) s.
     if r \<noteq> 16 then Panic ''dirlink read''
     else if d_inum (get_dirent bs) = 0 then Ret off s
     else free_dirent dr dp offs (off + 16) s)"

definition dirlink :: "'z fsst_scheme dev_read \<Rightarrow> 'z fsst_scheme dev_write \<Rightarrow> nat \<Rightarrow> u8 list \<Rightarrow> u32 \<Rightarrow> 'z fsst_scheme
  \<Rightarrow> (int, 'z fsst_scheme) outcome" where
  "dirlink dr dw dp nm inum s =
     bnd (dirlookup dr dp nm s) (\<lambda>r s.
     case r of
       Some (ip, _) \<Rightarrow> bnd (iput ip s) (\<lambda>_ s. Ret (-1) s)
     | None \<Rightarrow>
         bnd (free_dirent dr dp (dir_offs (i_size (inodes s ! dp))) 0 s) (\<lambda>off s.
         let de = put_dirent \<lparr>d_inum = ucast inum, d_name = strncpy (replicate DIRSIZ 0) nm DIRSIZ\<rparr> in
         bnd (writei dw dp de off s) (\<lambda>r s.
         if r \<noteq> 16 then Panic ''dirlink'' else Ret 0 s)))"

subsection \<open>Paths\<close>

definition slash :: u8 where "slash = 47"

text \<open>\<open>skipelem path nm\<close> gives the rest of the path and the new content of the array \<open>nm\<close>.\<close>

definition skipelem :: "u8 list \<Rightarrow> u8 list \<Rightarrow> (u8 list \<times> u8 list) option" where
  "skipelem path nm =
     (let path = dropWhile (\<lambda>c. c = slash) path in
      if deref path = 0 then None
      else
        let s = path;
            path = dropWhile (\<lambda>c. c \<noteq> slash \<and> c \<noteq> 0) path;
            len = length s - length path;
            nm = (if len \<ge> DIRSIZ then take DIRSIZ s @ drop DIRSIZ nm
                  else take len s @ [0] @ drop (len + 1) nm)
        in Some (dropWhile (\<lambda>c. c = slash) path, nm))"

lemma skipelem_shorter:
  assumes "skipelem path nm = Some (path', nm')"
  shows "length path' < length path"
proof -
  define q where "q = dropWhile (\<lambda>c. c = slash) path"
  define r where "r = dropWhile (\<lambda>c. c \<noteq> slash \<and> c \<noteq> 0) q"
  have p: "path' = dropWhile (\<lambda>c. c = slash) r" and d: "deref q \<noteq> 0"
    using assms by (auto simp: skipelem_def Let_def q_def r_def split: if_splits)
  obtain c cs where c: "q = c # cs" using d by (cases q) auto
  have "c \<noteq> slash" using c hd_dropWhile[of "\<lambda>c. c = slash" path] by (simp add: q_def)
  then have "r = dropWhile (\<lambda>c. c \<noteq> slash \<and> c \<noteq> 0) cs" using d c by (simp add: r_def)
  then have "length r \<le> length cs" by (simp add: length_dropWhile_le)
  moreover have "length path' \<le> length r" "length q \<le> length path"
    unfolding p q_def by (rule length_dropWhile_le)+
  ultimately show ?thesis by (simp add: c)
qed

text \<open>The loop of \<open>namex\<close>, at inode \<open>ip\<close> with the rest of the path.\<close>

function namex_loop :: "'z fsst_scheme dev_read \<Rightarrow> bool \<Rightarrow> u8 list \<Rightarrow> u8 list \<Rightarrow> nat \<Rightarrow> 'z fsst_scheme
  \<Rightarrow> (nat option \<times> u8 list, 'z fsst_scheme) outcome" where
  "namex_loop dr nip path nm ip s =
     (case skipelem path nm of
        None \<Rightarrow> if nip then bnd (iput ip s) (\<lambda>_ s. Ret (None, nm) s) else Ret (Some ip, nm) s
      | Some (path, nm) \<Rightarrow>
          bnd (ilock (Some ip) s) (\<lambda>_ s.
          if i_type (inodes s ! ip) \<noteq> T_DIR then bnd (iunlockput (Some ip) s) (\<lambda>_ s. Ret (None, nm) s)
          else if nip \<and> deref path = 0 then bnd (iunlock (Some ip) s) (\<lambda>_ s. Ret (Some ip, nm) s)
          else
            bnd (dirlookup dr ip nm s) (\<lambda>r s.
            case r of
              None \<Rightarrow> bnd (iunlockput (Some ip) s) (\<lambda>_ s. Ret (None, nm) s)
            | Some (nxt, _) \<Rightarrow>
                bnd (iunlockput (Some ip) s) (\<lambda>_ s.
                namex_loop dr nip path nm nxt s))))"
  by pat_completeness auto
termination
  by (relation "measure (\<lambda>(dr, nip, path, nm, ip, s). length path)") (auto intro: skipelem_shorter)

declare namex_loop.simps [simp del]

definition namex :: "'z fsst_scheme dev_read \<Rightarrow> u8 list \<Rightarrow> bool \<Rightarrow> u8 list \<Rightarrow> 'z fsst_scheme
  \<Rightarrow> (nat option \<times> u8 list, 'z fsst_scheme) outcome" where
  "namex dr path nip nm s =
     bnd (if deref path = slash then iget ROOTDEV ROOTINO s
          else idup (the (cwd (procs s ! myproc s))) s) (\<lambda>ip s.
     namex_loop dr nip path nm ip s)"

definition namei :: "'z fsst_scheme dev_read \<Rightarrow> u8 list \<Rightarrow> 'z fsst_scheme \<Rightarrow> (nat option, 'z fsst_scheme) outcome" where
  "namei dr path s = bnd (namex dr path False (replicate DIRSIZ 0) s) (\<lambda>(ip, _) s. Ret ip s)"

definition nameiparent :: "'z fsst_scheme dev_read \<Rightarrow> u8 list \<Rightarrow> u8 list \<Rightarrow> 'z fsst_scheme
  \<Rightarrow> (nat option \<times> u8 list, 'z fsst_scheme) outcome" where
  "nameiparent dr path nm s = namex dr path True nm s"

end
