(* ===== verification/Pipe.thy ===== *)
theory Pipe
  imports Dir
begin

text \<open>
  \<^verbatim>\<open>pipe.c\<close> but for \<open>pipealloc\<close> (theory File).  A pipe lives in a page of its own and is named by the address of
  that page; \<open>pipes\<close> gives its content.  The counters are 32-bit words that wrap around, an index is a counter modulo
  \<^verbatim>\<open>PIPESIZE\<close>.

  A process that waits gives up the CPU inside \<open>sleep\<close>; \<open>pipewrite_resume\<close> and \<open>piperead_resume\<close> are what it
  does when it is woken, with the bytes that are left.  The abstract pipe is a bounded queue of bytes (\<open>byte_queue\<close>).
\<close>

definition PIPESIZE :: nat where "PIPESIZE = 512"

record pipe =
  p_data :: "u8 list"
  p_nread :: u32
  p_nwrite :: u32
  p_readopen :: bool
  p_writeopen :: bool

record pipest = fsst +
  pipes :: "u32 \<Rightarrow> pipe"

definition upd_pipe :: "u32 \<Rightarrow> (pipe \<Rightarrow> pipe) \<Rightarrow> 'z pipest_scheme \<Rightarrow> 'z pipest_scheme" where
  "upd_pipe p f s = s\<lparr>pipes := (pipes s)(p := f (pipes s p))\<rparr>"

definition pipeclose :: "u32 \<Rightarrow> bool \<Rightarrow> 'z pipest_scheme \<Rightarrow> (unit, 'z pipest_scheme) outcome" where
  "pipeclose p writable s =
     bnd (acquire (LkPipe p) s) (\<lambda>_ s.
     bnd (if writable then wakeup (ChPipeRead p) (upd_pipe p (\<lambda>q. q\<lparr>p_writeopen := False\<rparr>) s)
          else wakeup (ChPipeWrite p) (upd_pipe p (\<lambda>q. q\<lparr>p_readopen := False\<rparr>) s)) (\<lambda>_ s.
     if \<not> p_readopen (pipes s p) \<and> \<not> p_writeopen (pipes s p) then
       bnd (release (LkPipe p) s) (\<lambda>_ s. kfree p s)
     else release (LkPipe p) s))"

text \<open>\<open>sleep\<close> does not return to its caller here: the process goes on in the resume function.\<close>

definition wait_in :: "(unit, 's) outcome \<Rightarrow> ('a, 's) outcome" where
  "wait_in m = bnd m (\<lambda>_ _. Panic ''sleep returned'')"

definition pipe_full :: "pipe \<Rightarrow> bool" where
  "pipe_full p = (p_nwrite p = p_nread p + of_nat PIPESIZE)"

definition pipe_empty :: "pipe \<Rightarrow> bool" where
  "pipe_empty p = (p_nread p = p_nwrite p)"

definition pipe_put :: "u8 \<Rightarrow> pipe \<Rightarrow> pipe" where
  "pipe_put c p = p\<lparr>p_data := (p_data p)[unat (p_nwrite p mod of_nat PIPESIZE) := c], p_nwrite := p_nwrite p + 1\<rparr>"

definition pipe_get :: "pipe \<Rightarrow> u8 \<times> pipe" where
  "pipe_get p = (p_data p ! unat (p_nread p mod of_nat PIPESIZE), p\<lparr>p_nread := p_nread p + 1\<rparr>)"

fun pipewrite_loop :: "u32 \<Rightarrow> int \<Rightarrow> u8 list \<Rightarrow> 'z pipest_scheme \<Rightarrow> (int, 'z pipest_scheme) outcome" where
  "pipewrite_loop p n [] s =
     bnd (wakeup (ChPipeRead p) s) (\<lambda>_ s.
     bnd (release (LkPipe p) s) (\<lambda>_ s. Ret n s))"
| "pipewrite_loop p n (c # cs) s =
     (if pipe_full (pipes s p) then
        if \<not> p_readopen (pipes s p) \<or> killed (procs s ! myproc s) then
          bnd (release (LkPipe p) s) (\<lambda>_ s. Ret (-1) s)
        else
          bnd (wakeup (ChPipeRead p) s) (\<lambda>_ s.
          wait_in (sleep (ChPipeWrite p) (Some (LkPipe p)) s))
      else pipewrite_loop p n cs (upd_pipe p (pipe_put c) s))"

definition pipewrite :: "u32 \<Rightarrow> u8 list \<Rightarrow> 'z pipest_scheme \<Rightarrow> (int, 'z pipest_scheme) outcome" where
  "pipewrite p cs s = bnd (acquire (LkPipe p) s) (\<lambda>_ s. pipewrite_loop p (int (length cs)) cs s)"

definition pipewrite_resume :: "u32 \<Rightarrow> int \<Rightarrow> u8 list \<Rightarrow> 'z pipest_scheme \<Rightarrow> (int, 'z pipest_scheme) outcome" where
  "pipewrite_resume p n cs s = bnd (sleep_return (LkPipe p) s) (\<lambda>_ s. pipewrite_loop p n cs s)"

fun piperead_copy :: "nat \<Rightarrow> pipe \<Rightarrow> u8 list \<times> pipe" where
  "piperead_copy 0 p = ([], p)"
| "piperead_copy (Suc n) p =
     (if pipe_empty p then ([], p)
      else let (c, p) = pipe_get p; (cs, p) = piperead_copy n p in (c # cs, p))"

definition piperead_loop :: "u32 \<Rightarrow> int \<Rightarrow> 'z pipest_scheme \<Rightarrow> (int \<times> u8 list, 'z pipest_scheme) outcome" where
  "piperead_loop p n s =
     (if pipe_empty (pipes s p) \<and> p_writeopen (pipes s p) then
        if killed (procs s ! myproc s) then bnd (release (LkPipe p) s) (\<lambda>_ s. Ret (-1, []) s)
        else wait_in (sleep (ChPipeRead p) (Some (LkPipe p)) s)
      else
        let (cs, q) = piperead_copy (nat n) (pipes s p) in
        bnd (wakeup (ChPipeWrite p) (upd_pipe p (\<lambda>_. q) s)) (\<lambda>_ s.
        bnd (release (LkPipe p) s) (\<lambda>_ s. Ret (int (length cs), cs) s)))"

definition piperead :: "u32 \<Rightarrow> int \<Rightarrow> 'z pipest_scheme \<Rightarrow> (int \<times> u8 list, 'z pipest_scheme) outcome" where
  "piperead p n s = bnd (acquire (LkPipe p) s) (\<lambda>_ s. piperead_loop p n s)"

definition piperead_resume :: "u32 \<Rightarrow> int \<Rightarrow> 'z pipest_scheme \<Rightarrow> (int \<times> u8 list, 'z pipest_scheme) outcome" where
  "piperead_resume p n s = bnd (sleep_return (LkPipe p) s) (\<lambda>_ s. piperead_loop p n s)"

subsection \<open>A queue of bytes\<close>

locale byte_queue =
  fixes put :: "u8 \<Rightarrow> 'q \<Rightarrow> 'q"
    and get :: "'q \<Rightarrow> u8 \<times> 'q"
    and full empty :: "'q \<Rightarrow> bool"
    and queue :: "'q \<Rightarrow> u8 list"
    and ok :: "'q \<Rightarrow> bool"
    and size_max :: nat
  assumes full_law: "ok q \<Longrightarrow> full q = (length (queue q) = size_max)"
    and empty_law: "ok q \<Longrightarrow> empty q = (queue q = [])"
    and put_law: "ok q \<Longrightarrow> \<not> full q \<Longrightarrow> ok (put c q) \<and> queue (put c q) = queue q @ [c]"
    and get_law: "ok q \<Longrightarrow> \<not> empty q \<Longrightarrow> queue q = fst (get q) # queue (snd (get q)) \<and> ok (snd (get q))"
    and bound_law: "ok q \<Longrightarrow> length (queue q) \<le> size_max"
begin

fun puts :: "u8 list \<Rightarrow> 'q \<Rightarrow> u8 list \<times> 'q" where
  "puts [] q = ([], q)"
| "puts (c # cs) q = (if full q then (c # cs, q) else puts cs (put c q))"

fun gets :: "nat \<Rightarrow> 'q \<Rightarrow> u8 list \<times> 'q" where
  "gets 0 q = ([], q)"
| "gets (Suc n) q = (if empty q then ([], q) else (fst (get q) # fst (gets n (snd (get q))), snd (gets n (snd (get q)))))"

text \<open>Putting stores as many bytes as fit, in order, and gives the rest; getting takes them in order.\<close>

lemma puts_law:
  "ok q \<Longrightarrow> ok (snd (puts cs q)) \<and> queue (snd (puts cs q)) @ fst (puts cs q) = queue q @ cs \<and>
     (fst (puts cs q) \<noteq> [] \<longrightarrow> full (snd (puts cs q)))"
proof (induction cs arbitrary: q)
  case (Cons c cs)
  then show ?case using put_law[of q c] Cons.IH[of "put c q"] by auto
qed simp

lemma puts_all: "ok q \<Longrightarrow> length (queue q) + length cs \<le> size_max \<Longrightarrow> fst (puts cs q) = []"
proof (induction cs arbitrary: q)
  case (Cons c cs)
  have "\<not> full q" using Cons.prems full_law[OF Cons.prems(1)] by simp
  then show ?case using Cons put_law[OF Cons.prems(1), of c] by simp
qed simp

lemma gets_law:
  "ok q \<Longrightarrow> ok (snd (gets n q)) \<and> fst (gets n q) = take n (queue q) \<and> queue (snd (gets n q)) = drop n (queue q)"
proof (induction n arbitrary: q)
  case (Suc n)
  show ?case
  proof (cases "empty q")
    case True
    then show ?thesis using Suc.prems empty_law by simp
  next
    case False
    then show ?thesis using get_law[OF Suc.prems False] Suc.IH[of "snd (get q)"] by simp
  qed
qed simp

text \<open>First in, first out: what was put is what is got, after what was there.\<close>

lemma fifo:
  assumes "ok q" and "length (queue q) + length cs \<le> size_max"
  shows "fst (gets (length (queue q) + length cs) (snd (puts cs q))) = queue q @ cs"
proof -
  note p = puts_law[OF assms(1), of cs]
  have "queue (snd (puts cs q)) = queue q @ cs" using p puts_all[OF assms] by simp
  then show ?thesis using gets_law p by simp
qed

end

subsection \<open>The pipe is a queue of bytes\<close>

definition pipe_len :: "pipe \<Rightarrow> nat" where
  "pipe_len p = unat (p_nwrite p - p_nread p)"

definition pipe_ok :: "pipe \<Rightarrow> bool" where
  "pipe_ok p = (length (p_data p) = PIPESIZE \<and> pipe_len p \<le> PIPESIZE)"

definition pipe_queue :: "pipe \<Rightarrow> u8 list" where
  "pipe_queue p = map (\<lambda>k. p_data p ! unat ((p_nread p + of_nat k) mod of_nat PIPESIZE)) [0..<pipe_len p]"

lemma length_pipe_queue [simp]: "length (pipe_queue p) = pipe_len p"
  by (simp add: pipe_queue_def)

text \<open>512 divides \<open>2 ^ 32\<close>, so the index is right across the wrap-around of a counter.\<close>

lemma slot_mod: "unat ((a + of_nat k) mod (512 :: u32)) = (unat a + k) mod 512"
proof -
  have "unat (a + of_nat k) = (unat a + k) mod 2 ^ 32"
    by (simp add: unat_word_ariths unat_of_nat mod_add_right_eq)
  then have "unat ((a + of_nat k) mod 512) = ((unat a + k) mod 2 ^ 32) mod 512"
    by (simp add: unat_mod_distrib)
  then show ?thesis by (simp add: mod_mod_cancel)
qed

lemma slot_inj:
  assumes "j < 512" and "k < 512" and "(a + j) mod 512 = (a + k) mod (512 :: nat)"
  shows "j = k"
proof -
  have le: "j = k" if "j \<le> k" "j < 512" "k < 512" "(a + k) mod 512 = (a + j) mod (512 :: nat)" for j k
  proof -
    have "512 dvd (a + k) - (a + j)" using that mod_eq_dvd_iff_nat[of "a + j" "a + k" 512] by simp
    then have "512 dvd k - j" by simp
    moreover have "k - j < 512" using that by simp
    ultimately have "k - j = 0" using nat_dvd_not_less by blast
    then show ?thesis using that(1) by simp
  qed
  show ?thesis using le[of j k] le[of k j] assms by (cases "j \<le> k") simp_all
qed

lemma nwrite_eq: "p_nwrite p = p_nread p + of_nat (pipe_len p)"
  by (simp add: pipe_len_def)

lemma len_of_diff: "p_nwrite p - p_nread p = of_nat n \<Longrightarrow> n \<le> 512 \<Longrightarrow> pipe_len p = n"
  using unat_of_nat_small[of n, where 'a = 32] by (simp add: pipe_len_def)

lemma pipe_len_put:
  assumes "pipe_len p < PIPESIZE"
  shows "pipe_len (pipe_put c p) = Suc (pipe_len p)"
proof (rule len_of_diff)
  show "p_nwrite (pipe_put c p) - p_nread (pipe_put c p) = of_nat (Suc (pipe_len p))"
    by (simp add: pipe_put_def nwrite_eq[of p])
qed (use assms in \<open>simp add: PIPESIZE_def\<close>)

lemma pipe_len_get:
  assumes "0 < pipe_len p" and "pipe_len p \<le> PIPESIZE"
  shows "pipe_len (snd (pipe_get p)) = pipe_len p - 1"
proof (rule len_of_diff)
  obtain n where n: "pipe_len p = Suc n" using assms(1) by (cases "pipe_len p") auto
  show "p_nwrite (snd (pipe_get p)) - p_nread (snd (pipe_get p)) = of_nat (pipe_len p - 1)"
    by (simp add: pipe_get_def nwrite_eq[of p] n)
qed (use assms in \<open>simp add: PIPESIZE_def\<close>)

lemma pipe_queue_nth:
  "pipe_queue p = map (\<lambda>k. p_data p ! ((unat (p_nread p) + k) mod 512)) [0..<pipe_len p]"
  by (simp add: pipe_queue_def PIPESIZE_def slot_mod)

lemma nwrite_slot: "unat (p_nwrite p mod 512) = (unat (p_nread p) + pipe_len p) mod 512"
  using slot_mod[of "p_nread p" "pipe_len p"] by (simp only: nwrite_eq[symmetric])

lemma put_queue:
  assumes "pipe_ok p" and "pipe_len p < PIPESIZE"
  shows "pipe_ok (pipe_put c p)" and "pipe_queue (pipe_put c p) = pipe_queue p @ [c]"
proof -
  let ?w = "(unat (p_nread p) + pipe_len p) mod 512"
  have L: "length (p_data p) = 512" and l: "pipe_len p < 512" using assms by (simp_all add: pipe_ok_def PIPESIZE_def)
  have d: "p_data (pipe_put c p) = (p_data p)[?w := c]" by (simp add: pipe_put_def PIPESIZE_def nwrite_slot)
  have r: "p_nread (pipe_put c p) = p_nread p" by (simp add: pipe_put_def)
  have n: "pipe_len (pipe_put c p) = Suc (pipe_len p)" by (rule pipe_len_put[OF assms(2)])
  show "pipe_ok (pipe_put c p)" using n l L by (simp add: pipe_ok_def d PIPESIZE_def)
  have w: "?w < length (p_data p)" using L by simp
  have old: "(p_data p)[?w := c] ! ((unat (p_nread p) + k) mod 512) = p_data p ! ((unat (p_nread p) + k) mod 512)"
    if "k < pipe_len p" for k
  proof -
    have "(unat (p_nread p) + k) mod 512 \<noteq> ?w" using slot_inj[of k "pipe_len p" "unat (p_nread p)"] that l by auto
    then show ?thesis by simp
  qed
  have new: "(p_data p)[?w := c] ! ?w = c" using w by (rule nth_list_update_eq)
  show "pipe_queue (pipe_put c p) = pipe_queue p @ [c]"
    unfolding pipe_queue_nth d r n using old new by simp
qed

lemma get_queue:
  assumes "pipe_ok p" and "0 < pipe_len p"
  shows "pipe_ok (snd (pipe_get p))" and "pipe_queue p = fst (pipe_get p) # pipe_queue (snd (pipe_get p))"
proof -
  have l: "pipe_len p \<le> PIPESIZE" using assms(1) by (simp add: pipe_ok_def)
  obtain n where n: "pipe_len p = Suc n" using assms(2) by (cases "pipe_len p") auto
  have g: "pipe_len (snd (pipe_get p)) = n" using pipe_len_get[OF assms(2) l] n by simp
  show "pipe_ok (snd (pipe_get p))" using assms(1) g n by (simp add: pipe_ok_def) (simp add: pipe_get_def)
  have s: "unat (p_nread p + 1 + of_nat k) mod 512 = (unat (p_nread p) + Suc k) mod 512" for k
  proof -
    have "unat (p_nread p + of_nat (Suc k)) mod 512 = (unat (p_nread p) + Suc k) mod 512"
      using slot_mod[of "p_nread p" "Suc k"] by (simp only: unat_mod_distrib) simp
    then show ?thesis by (simp add: ac_simps)
  qed
  have q: "pipe_queue (snd (pipe_get p)) = map (\<lambda>k. p_data p ! ((unat (p_nread p) + Suc k) mod 512)) [0..<n]"
    unfolding pipe_queue_def g using s by (simp add: pipe_get_def PIPESIZE_def unat_mod_distrib)
  have "pipe_queue p = p_data p ! (unat (p_nread p) mod 512) # map (\<lambda>k. p_data p ! ((unat (p_nread p) + Suc k) mod 512)) [0..<n]"
    unfolding pipe_queue_nth n map_upt_Suc by simp
  then show "pipe_queue p = fst (pipe_get p) # pipe_queue (snd (pipe_get p))"
    unfolding q by (simp add: pipe_get_def PIPESIZE_def unat_mod_distrib)
qed

interpretation pq: byte_queue pipe_put pipe_get pipe_full pipe_empty pipe_queue pipe_ok PIPESIZE
proof (unfold_locales, goal_cases)
  case (1 p)
  have "pipe_full p \<longleftrightarrow> p_nwrite p - p_nread p = of_nat PIPESIZE"
    by (auto simp: pipe_full_def algebra_simps)
  also have "\<dots> \<longleftrightarrow> pipe_len p = PIPESIZE"
    using len_of_diff[of p PIPESIZE] nwrite_eq[of p] by (auto simp: PIPESIZE_def)
  finally show ?case by simp
next
  case (2 p)
  have "pipe_empty p \<longleftrightarrow> p_nwrite p - p_nread p = 0" by (auto simp: pipe_empty_def)
  then have "pipe_empty p \<longleftrightarrow> pipe_len p = 0" by (simp add: pipe_len_def unat_0_iff)
  then show ?case by (simp add: length_pipe_queue[symmetric] del: length_pipe_queue)
next
  case (3 p c)
  have "pipe_len p \<noteq> PIPESIZE"
    using 3(2) nwrite_eq[of p] by (auto simp: pipe_full_def)
  then have "pipe_len p < PIPESIZE" using 3(1) by (simp add: pipe_ok_def)
  then show ?case using put_queue[OF 3(1)] by blast
next
  case (4 p)
  have "0 < pipe_len p" using 4(2) nwrite_eq[of p] by (cases "pipe_len p") (auto simp: pipe_empty_def)
  then show ?case using get_queue[OF 4(1)] by blast
next
  case (5 p)
  then show ?case by (simp add: pipe_ok_def)
qed

subsection \<open>pipewrite and piperead\<close>

lemma upd_pipe_twice [simp]: "upd_pipe p f (upd_pipe p g s) = upd_pipe p (\<lambda>q. f (g q)) s"
  by (simp add: upd_pipe_def)

lemma upd_pipe_fields [simp]:
  "pipes (upd_pipe p f s) p = f (pipes s p)" "held (upd_pipe p f s) = held s" "procs (upd_pipe p f s) = procs s"
  "cur (upd_pipe p f s) = cur s" "myproc (upd_pipe p f s) = myproc s"
  by (simp_all add: upd_pipe_def myproc_def)

lemma myproc_held [simp]: "myproc (s\<lparr>held := h\<rparr>) = myproc s"
  by (simp add: myproc_def)

lemma upd_pipe_id [simp]: "upd_pipe p (\<lambda>q. q) s = s"
  by (simp add: upd_pipe_def)

lemma upd_pipe_const: "f (pipes s p) = q \<Longrightarrow> upd_pipe p f s = upd_pipe p (\<lambda>_. q) s"
  by (simp add: upd_pipe_def)

text \<open>The loop of \<open>pipewrite\<close> first stores what fits.\<close>

lemma pipewrite_loop_puts:
  "pipewrite_loop p n cs s = pipewrite_loop p n (fst (pq.puts cs (pipes s p))) (upd_pipe p (\<lambda>_. snd (pq.puts cs (pipes s p))) s)"
proof (induction cs arbitrary: s)
  case Nil
  then show ?case by (simp add: upd_pipe_def)
next
  case (Cons c cs)
  show ?case
  proof (cases "pipe_full (pipes s p)")
    case True
    then show ?thesis by (simp add: upd_pipe_def)
  next
    case False
    then show ?thesis using Cons.IH[of "upd_pipe p (pipe_put c) s"] by simp
  qed
qed

lemma piperead_copy_gets: "piperead_copy n q = pq.gets n q"
  by (induction n arbitrary: q) (simp_all add: pipe_get_def split_beta Let_def)

text \<open>Waking changes no pipe.\<close>

lemma wakeup1_pipes [simp]: "pipes (wakeup1 ch s) = pipes s" "held (wakeup1 ch s) = held s"
  by (simp_all add: wakeup1_def)

definition awake_on :: "chan \<Rightarrow> 'y kst_scheme \<Rightarrow> 'z kst_scheme \<Rightarrow> bool" where
  "awake_on ch s t = (\<forall>i < length (procs s). state (procs s ! i) = SLEEPING \<and> chan (procs s ! i) = Some ch \<and> i \<noteq> myproc s \<longrightarrow>
     state (procs t ! i) = RUNNABLE)"

lemma puts_readopen: "p_readopen (snd (pq.puts cs q)) = p_readopen (q :: pipe)"
  by (induction cs arbitrary: q) (simp_all add: pipe_put_def)

text \<open>When not everything fits, the queue has grown by a prefix.\<close>

lemma puts_prefix:
  assumes "pipe_ok q" and "fst (pq.puts cs q) \<noteq> []"
  shows "\<exists>k < length cs. pipe_queue (snd (pq.puts cs q)) = pipe_queue q @ take k cs"
proof -
  let ?l = "fst (pq.puts cs q)" and ?q = "snd (pq.puts cs q)"
  have app: "pipe_queue ?q @ ?l = pipe_queue q @ cs" using pq.puts_law[OF assms(1), of cs] by blast
  have "length (fst (pq.puts cs q)) \<le> length cs" for q :: pipe by (induction cs arbitrary: q) (simp_all add: le_SucI)
  note len = this[of q]
  have k: "length cs - length ?l < length cs" using assms(2) len by (cases "?l"; cases cs) auto
  have "length (pipe_queue ?q) = length (pipe_queue q) + (length cs - length ?l)"
    using arg_cong[OF app, of length] len by simp
  then have "pipe_queue ?q = pipe_queue q @ take (length cs - length ?l) cs"
    using arg_cong[OF app, of "take (length (pipe_queue ?q))"] by simp
  then show ?thesis using k by blast
qed

text \<open>writing to a pipe.  Either all bytes are appended to the queue and readers are woken; or the pipe is full, no one can read
  or the writer was killed, and the call fails; or the pipe is full and the writer sleeps on the pipe with its lock free after it
  woke the readers.  In every case the queue has grown by the part of the bytes that was taken, in order, none lost.\<close>

lemma pipewrite_cases:
  assumes ok: "pipe_ok (pipes s p)" and ctx: "inctx s"
  shows "case pipewrite p cs s of
    Ret r t \<Rightarrow> pipe_ok (pipes t p) \<and> held t = [] \<and>
      (r = int (length cs) \<and> pipe_queue (pipes t p) = pipe_queue (pipes s p) @ cs \<and> awake_on (ChPipeRead p) s t \<or>
       r = -1 \<and> (\<exists>k < length cs. pipe_queue (pipes t p) = pipe_queue (pipes s p) @ take k cs) \<and> pipe_full (pipes t p) \<and>
         (\<not> p_readopen (pipes s p) \<or> killed (procs s ! myproc s)))
  | Sleep t \<Rightarrow> pipe_ok (pipes t p) \<and> (\<exists>k < length cs. pipe_queue (pipes t p) = pipe_queue (pipes s p) @ take k cs) \<and>
      pipe_full (pipes t p) \<and> held t = [LkPtable] \<and> awake_on (ChPipeRead p) s t \<and>
      state (procs t ! myproc s) = SLEEPING \<and> chan (procs t ! myproc s) = Some (ChPipeWrite p)
  | Panic _ \<Rightarrow> False"
proof -
  obtain me where me: "cur s = Some me" "me < length (procs s)" and h: "held s = []" using ctx by (auto simp: inctx_def)
  have my: "myproc s = me" using me(1) by (simp add: myproc_def)
  let ?l = "fst (pq.puts cs (pipes s p))" and ?q = "snd (pq.puts cs (pipes s p))"
  note P = pq.puts_law[OF ok, of cs]
  let ?s = "upd_pipe p (\<lambda>_. ?q) (s\<lparr>held := [LkPipe p]\<rparr>)"
  have run: "pipewrite p cs s = pipewrite_loop p (int (length cs)) ?l ?s"
    using h pipewrite_loop_puts[of p "int (length cs)" cs "s\<lparr>held := [LkPipe p]\<rparr>"] by (simp add: pipewrite_def acquire_def)
  have nb: "p_readopen ?q = p_readopen (pipes s p)" by (rule puts_readopen)
  show ?thesis
  proof (cases "?l = []")
    case True
    then have "pipewrite p cs s = Ret (int (length cs)) (wakeup1 (ChPipeRead p) (?s\<lparr>held := []\<rparr>))"
      unfolding run by (simp add: wakeup_def acquire_def release_def wakeup1_def)
    moreover have "awake_on (ChPipeRead p) s (wakeup1 (ChPipeRead p) (?s\<lparr>held := []\<rparr>))"
      by (simp add: awake_on_def wakeup1_def wake_def)
    ultimately show ?thesis using P True by simp
  next
    case False
    then obtain c l where cl: "?l = c # l" by (cases ?l) auto
    have full: "pipe_full ?q" using P False by blast
    note tk = puts_prefix[OF ok False]
    show ?thesis
    proof (cases "\<not> p_readopen (pipes s p) \<or> killed (procs s ! myproc s)")
      case True
      then have "pipewrite p cs s = Ret (-1) (?s\<lparr>held := []\<rparr>)"
        unfolding run cl using full nb my by (auto simp: release_def)
      then show ?thesis using P tk full True by auto
    next
      case False
      let ?w = "wakeup1 (ChPipeRead p) ?s"
      have "pipewrite p cs s = Sleep (upd_proc me (\<lambda>q. q\<lparr>chan := Some (ChPipeWrite p), state := SLEEPING\<rparr>) (?w\<lparr>held := [LkPtable]\<rparr>))"
        unfolding run cl using full nb False my me
        by (simp add: wakeup_run wait_in_def) (simp add: sleep_run[of _ me] wakeup1_def)
      then show ?thesis using P tk full me my
        by (auto simp: upd_proc_def awake_on_def wakeup1_def wake_def)
    qed
  qed
qed

text \<open>reading from a pipe gives the oldest bytes in order and removes exactly them, and wakes the writers; the reader sleeps
  only on an empty pipe that has a writer, and with no writer left it gets 0 bytes.\<close>

lemma piperead_cases:
  assumes ok: "pipe_ok (pipes s p)" and ctx: "inctx s" and n: "0 \<le> n"
  shows "case piperead p n s of
    Ret (r, bytes) t \<Rightarrow> held t = [] \<and> pipe_ok (pipes t p) \<and>
      (r = int (length bytes) \<and> bytes = take (nat n) (pipe_queue (pipes s p)) \<and>
         pipe_queue (pipes t p) = drop (nat n) (pipe_queue (pipes s p)) \<and> awake_on (ChPipeWrite p) s t \<and>
         (pipe_queue (pipes s p) = [] \<longrightarrow> \<not> p_writeopen (pipes s p)) \<or>
       r = -1 \<and> bytes = [] \<and> killed (procs s ! myproc s) \<and> pipes t p = pipes s p)
  | Sleep t \<Rightarrow> pipe_queue (pipes s p) = [] \<and> p_writeopen (pipes s p) \<and> pipes t p = pipes s p \<and> held t = [LkPtable] \<and>
      state (procs t ! myproc s) = SLEEPING \<and> chan (procs t ! myproc s) = Some (ChPipeRead p)
  | Panic _ \<Rightarrow> False"
proof -
  obtain me where me: "cur s = Some me" "me < length (procs s)" and h: "held s = []" using ctx by (auto simp: inctx_def)
  have my: "myproc s = me" using me(1) by (simp add: myproc_def)
  note E = pq.empty_law[OF ok]
  let ?s = "s\<lparr>held := [LkPipe p]\<rparr>"
  have run: "piperead p n s = piperead_loop p n ?s" using h by (simp add: piperead_def acquire_def)
  show ?thesis
  proof (cases "pipe_queue (pipes s p) = [] \<and> p_writeopen (pipes s p)")
    case True
    then show ?thesis
      using E me my h ok unfolding run
      by (auto simp: piperead_loop_def release_def wait_in_def sleep_run[of _ me] upd_proc_def)
  next
    case False
    let ?g = "pq.gets (nat n) (pipes s p)"
    note G = pq.gets_law[OF ok, of "nat n"]
    have e: "\<not> (pipe_empty (pipes ?s p) \<and> p_writeopen (pipes ?s p))" using False E by simp
    have "piperead p n s = Ret (int (length (fst ?g)), fst ?g) (wakeup1 (ChPipeWrite p) (upd_pipe p (\<lambda>_. snd ?g) (s\<lparr>held := []\<rparr>)))"
      unfolding run piperead_loop_def if_not_P[OF e] piperead_copy_gets
      by (simp add: split_beta wakeup_run release_def wakeup1_def upd_pipe_def)
    then show ?thesis using G False by (simp add: awake_on_def wakeup1_def wake_def)
  qed
qed

text \<open>C16: what a process writes to a pipe with room for it is what a reader gets, after the bytes that were there.\<close>

theorem pipe_write_read:
  assumes ok: "pipe_ok (pipes s p)" and ctx: "inctx s" and room: "pipe_len (pipes s p) + length cs \<le> PIPESIZE" and ne: "cs \<noteq> []"
  shows "returns (bnd (pipewrite p cs s) (\<lambda>_ s. piperead p (int PIPESIZE) s))
    (\<lambda>(r, bytes) t. bytes = pipe_queue (pipes s p) @ cs \<and> r = int (length bytes) \<and> pipe_queue (pipes t p) = [])"
proof -
  have h: "held s = []" using ctx by (simp add: inctx_def)
  have l: "fst (pq.puts cs (pipes s p)) = []" using pq.puts_all[OF ok] room by simp
  let ?q = "snd (pq.puts cs (pipes s p))"
  let ?t = "wakeup1 (ChPipeRead p) (upd_pipe p (\<lambda>_. ?q) (s\<lparr>held := []\<rparr>))"
  have w: "pipewrite p cs s = Ret (int (length cs)) ?t"
    using h pipewrite_loop_puts[of p "int (length cs)" cs "s\<lparr>held := [LkPipe p]\<rparr>"] l
    by (simp add: pipewrite_def acquire_def wakeup_run release_def wakeup1_def upd_pipe_def)
  have q: "pipe_ok ?q" "pipe_queue ?q = pipe_queue (pipes s p) @ cs" using pq.puts_law[OF ok, of cs] l by auto
  let ?g = "pq.gets PIPESIZE ?q"
  have e: "\<not> pipe_empty ?q" using pq.empty_law[OF q(1)] q(2) ne by simp
  have "piperead p (int PIPESIZE) ?t = Ret (int (length (fst ?g)), fst ?g)
      (wakeup1 (ChPipeWrite p) (upd_pipe p (\<lambda>_. snd ?g) (?t\<lparr>held := []\<rparr>)))"
    by (simp add: piperead_def acquire_def piperead_loop_def e piperead_copy_gets split_beta wakeup_run release_def)
      (simp add: wakeup1_def upd_pipe_def)
  then show ?thesis using pq.gets_law[OF q(1), of PIPESIZE] q(2) room by (simp add: w)
qed

subsection \<open>A concrete pipe\<close>

text \<open>Two bytes in the pipe, the read counter about to wrap around.\<close>

definition demo_pipe :: pipe where
  "demo_pipe = \<lparr>p_data = (replicate 512 0)[511 := 65, 0 := 66], p_nread = 0xFFFFFFFF, p_nwrite = 1, p_readopen = True, p_writeopen = True\<rparr>"

definition demo_pipest :: pipest where
  "demo_pipest = fsst.extend demo_fsst \<lparr>pipes = \<lambda>_. demo_pipe\<rparr>"

lemma demo_pipest_fields [simp]:
  "pipes demo_pipest p = demo_pipe" "held demo_pipest = []" "procs demo_pipest = [demo_proc RUNNING 1 10]" "myproc demo_pipest = 0"
  "inctx demo_pipest"
  by (simp_all add: demo_pipest_def fsst.defs demo_fsst_def lgst.defs demo_lgst_def bst.defs demo_bst_def demo_mst_def demo_slst_def demo_kst_def
    kst.defs slst.defs mst.defs myproc_def inctx_def)

lemma demo_pipe_facts: "pipe_ok demo_pipe" "pipe_len demo_pipe = 2" "pipe_queue demo_pipe = [65, 66]"
proof -
  show l: "pipe_len demo_pipe = 2" by (simp add: pipe_len_def demo_pipe_def)
  then show "pipe_ok demo_pipe" by (simp add: pipe_ok_def PIPESIZE_def) (simp add: demo_pipe_def)
  have "[0..<2] = [0, 1 :: nat]" by (simp add: upt_rec)
  then show "pipe_queue demo_pipe = [65, 66]" unfolding pipe_queue_nth l by (simp add: demo_pipe_def)
qed

lemma pipewrite_cases_witness:
  "case pipewrite 0x80200000 [67] demo_pipest of Panic _ \<Rightarrow> False | _ \<Rightarrow> True"
  using pipewrite_cases[of demo_pipest "0x80200000" "[67]"] demo_pipe_facts by (auto split: outcome.splits)

lemma piperead_cases_witness:
  "case piperead 0x80200000 1 demo_pipest of Panic _ \<Rightarrow> False | Sleep _ \<Rightarrow> False | Ret (r, bytes) t \<Rightarrow> r = -1 \<or> bytes = [65]"
  using piperead_cases[of demo_pipest "0x80200000" 1] demo_pipe_facts by (auto split: outcome.splits)

theorem pipe_write_read_witness:
  "returns (bnd (pipewrite 0x80200000 [67, 68] demo_pipest) (\<lambda>_ s. piperead 0x80200000 (int PIPESIZE) s))
    (\<lambda>(r, bytes) t. bytes = [65, 66, 67, 68])"
  by (rule returns_mono[OF pipe_write_read]) (auto simp: demo_pipe_facts PIPESIZE_def)

end
