(* ===== verification/File.thy ===== *)
theory File
  imports Pipe
begin

text \<open>
  \<^verbatim>\<open>file.c\<close>, the table of open files, and \<open>pipealloc\<close> of \<^verbatim>\<open>pipe.c\<close>.  An open file is named by its index in \<^verbatim>\<open>ftable\<close>; a
  null pointer is \<^term>\<open>None\<close>.  \<open>fileread\<close> gives the bytes that the C code moves to \<^verbatim>\<open>addr\<close>, \<open>filewrite\<close> takes them.
\<close>

datatype ftype = FD_NONE | FD_PIPE | FD_INODE

record open_file =
  f_type :: ftype
  f_ref :: int
  f_readable :: bool
  f_writable :: bool
  f_pipe :: u32
  f_ip :: nat
  f_off :: u32

record filest = pipest +
  files :: "open_file list"

definition upd_file :: "nat \<Rightarrow> (open_file \<Rightarrow> open_file) \<Rightarrow> 'z filest_scheme \<Rightarrow> 'z filest_scheme" where
  "upd_file f g s = s\<lparr>files := (files s)[f := g (files s ! f)]\<rparr>"

definition filealloc :: "'z filest_scheme \<Rightarrow> (nat option, 'z filest_scheme) outcome" where
  "filealloc s =
     bnd (acquire LkFtable s) (\<lambda>_ s.
     case find_index (\<lambda>f. f_ref f = 0) (files s) of
       Some f \<Rightarrow> bnd (release LkFtable (upd_file f (\<lambda>g. g\<lparr>f_ref := 1\<rparr>) s)) (\<lambda>_ s. Ret (Some f) s)
     | None \<Rightarrow> bnd (release LkFtable s) (\<lambda>_ s. Ret None s))"

definition filedup :: "nat \<Rightarrow> 'z filest_scheme \<Rightarrow> (nat, 'z filest_scheme) outcome" where
  "filedup f s =
     bnd (acquire LkFtable s) (\<lambda>_ s.
     if f_ref (files s ! f) < 1 then Panic ''filedup''
     else bnd (release LkFtable (upd_file f (\<lambda>g. g\<lparr>f_ref := f_ref g + 1\<rparr>) s)) (\<lambda>_ s. Ret f s))"

definition fileclose :: "nat \<Rightarrow> 'z filest_scheme \<Rightarrow> (unit, 'z filest_scheme) outcome" where
  "fileclose f s =
     bnd (acquire LkFtable s) (\<lambda>_ s.
     if f_ref (files s ! f) < 1 then Panic ''fileclose''
     else
       let s = upd_file f (\<lambda>g. g\<lparr>f_ref := f_ref g - 1\<rparr>) s in
       if f_ref (files s ! f) > 0 then release LkFtable s
       else
         let ff = files s ! f in
         bnd (release LkFtable (upd_file f (\<lambda>g. g\<lparr>f_ref := 0, f_type := FD_NONE\<rparr>) s)) (\<lambda>_ s.
         case f_type ff of
           FD_PIPE \<Rightarrow> pipeclose (f_pipe ff) (f_writable ff) s
         | FD_INODE \<Rightarrow> bnd (begin_op s) (\<lambda>_ s. bnd (iput (f_ip ff) s) (\<lambda>_ s. end_op s))
         | FD_NONE \<Rightarrow> Ret () s))"

definition filestat :: "nat \<Rightarrow> 'z filest_scheme \<Rightarrow> (int \<times> stat option, 'z filest_scheme) outcome" where
  "filestat f s =
     (if f_type (files s ! f) = FD_INODE then
        bnd (ilock (Some (f_ip (files s ! f))) s) (\<lambda>_ s.
        let st = stati (f_ip (files s ! f)) s in
        bnd (iunlock (Some (f_ip (files s ! f))) s) (\<lambda>_ s.
        Ret (0, Some st) s))
      else Ret (-1, None) s)"

definition fileread :: "'z filest_scheme dev_read \<Rightarrow> nat \<Rightarrow> int \<Rightarrow> 'z filest_scheme \<Rightarrow> (int \<times> u8 list, 'z filest_scheme) outcome" where
  "fileread dr f n s =
     (if \<not> f_readable (files s ! f) then Ret (-1, []) s
      else
        (case f_type (files s ! f) of
           FD_PIPE \<Rightarrow> piperead (f_pipe (files s ! f)) n s
         | FD_INODE \<Rightarrow>
             bnd (ilock (Some (f_ip (files s ! f))) s) (\<lambda>_ s.
             bnd (readi dr (f_ip (files s ! f)) (f_off (files s ! f)) (word_of_int n) s) (\<lambda>(r, bytes) s.
             let s = (if r > 0 then upd_file f (\<lambda>g. g\<lparr>f_off := f_off g + word_of_int r\<rparr>) s else s) in
             bnd (iunlock (Some (f_ip (files s ! f))) s) (\<lambda>_ s.
             Ret (r, bytes) s)))
         | FD_NONE \<Rightarrow> Panic ''fileread''))"

definition write_max :: nat where
  "write_max = ((MAXOPBLOCKS - 1 - 1 - 2) div 2) * 512"

lemma write_max_pos: "0 < write_max"
  by (simp add: write_max_def MAXOPBLOCKS_def)

function filewrite_loop :: "'z filest_scheme dev_write \<Rightarrow> nat \<Rightarrow> int \<Rightarrow> u8 list \<Rightarrow> 'z filest_scheme \<Rightarrow> (int, 'z filest_scheme) outcome" where
  "filewrite_loop dw f n cs s =
     (if cs = [] then Ret n s
      else
        let n1 = min (length cs) write_max in
        bnd (begin_op s) (\<lambda>_ s.
        bnd (ilock (Some (f_ip (files s ! f))) s) (\<lambda>_ s.
        bnd (writei dw (f_ip (files s ! f)) (take n1 cs) (f_off (files s ! f)) s) (\<lambda>r s.
        let s = (if r > 0 then upd_file f (\<lambda>g. g\<lparr>f_off := f_off g + word_of_int r\<rparr>) s else s) in
        bnd (iunlock (Some (f_ip (files s ! f))) s) (\<lambda>_ s.
        bnd (end_op s) (\<lambda>_ s.
        if r < 0 then Ret (-1) s
        else if r \<noteq> int n1 then Panic ''short filewrite''
        else filewrite_loop dw f n (drop n1 cs) s))))))"
  by pat_completeness auto
termination
  by (relation "measure (\<lambda>(dw, f, n, cs, s). length cs)") (use write_max_pos in auto)

declare filewrite_loop.simps [simp del]

definition filewrite :: "'z filest_scheme dev_write \<Rightarrow> nat \<Rightarrow> u8 list \<Rightarrow> 'z filest_scheme \<Rightarrow> (int, 'z filest_scheme) outcome" where
  "filewrite dw f cs s =
     (if \<not> f_writable (files s ! f) then Ret (-1) s
      else
        (case f_type (files s ! f) of
           FD_PIPE \<Rightarrow> pipewrite (f_pipe (files s ! f)) cs s
         | FD_INODE \<Rightarrow> filewrite_loop dw f (int (length cs)) cs s
         | FD_NONE \<Rightarrow> Panic ''filewrite''))"

subsection \<open>pipealloc\<close>

text \<open>The label \<^verbatim>\<open>bad\<close>: the page and the files allocated so far are given back.\<close>

definition pipealloc_bad :: "u32 \<Rightarrow> nat option \<Rightarrow> nat option \<Rightarrow> 'z filest_scheme
  \<Rightarrow> ((nat \<times> nat) option, 'z filest_scheme) outcome" where
  "pipealloc_bad p f0 f1 s =
     bnd (if p \<noteq> 0 then kfree p s else Ret () s) (\<lambda>_ s.
     bnd (case f0 of Some f \<Rightarrow> fileclose f s | None \<Rightarrow> Ret () s) (\<lambda>_ s.
     bnd (case f1 of Some f \<Rightarrow> fileclose f s | None \<Rightarrow> Ret () s) (\<lambda>_ s.
     Ret None s)))"

definition new_pipe :: pipe where
  "new_pipe = \<lparr>p_data = replicate PIPESIZE 0, p_nread = 0, p_nwrite = 0, p_readopen = True, p_writeopen = True\<rparr>"

text \<open>The two files, or \<^term>\<open>None\<close> for the result -1.\<close>

definition pipealloc :: "'z filest_scheme \<Rightarrow> ((nat \<times> nat) option, 'z filest_scheme) outcome" where
  "pipealloc s =
     bnd (filealloc s) (\<lambda>r0 s.
     case r0 of
       None \<Rightarrow> pipealloc_bad 0 None None s
     | Some f0 \<Rightarrow>
         bnd (filealloc s) (\<lambda>r1 s.
         case r1 of
           None \<Rightarrow> pipealloc_bad 0 (Some f0) None s
         | Some f1 \<Rightarrow>
             bnd (kalloc s) (\<lambda>p s.
             if p = 0 then pipealloc_bad 0 (Some f0) (Some f1) s
             else
               let s = upd_pipe p (\<lambda>q. new_pipe\<lparr>p_data := p_data q\<rparr>) s;
                   s = upd_file f0 (\<lambda>g. g\<lparr>f_type := FD_PIPE, f_readable := True, f_writable := False, f_pipe := p\<rparr>) s;
                   s = upd_file f1 (\<lambda>g. g\<lparr>f_type := FD_PIPE, f_readable := False, f_writable := True, f_pipe := p\<rparr>) s
               in Ret (Some (f0, f1)) s)))"

end
