(* ===== verification/Console.thy ===== *)
theory Console
  imports File
begin

text \<open>
  \<^verbatim>\<open>console.c\<close>: characters to the screen and the serial port, \<open>cprintf\<close>, and the input line that is edited by
  interrupts and read by processes.

  \<open>uart\<close> is the sequence of characters sent to the serial port; \<open>crt\<close> is the text memory of the screen and \<open>cursor\<close>
  the position that its controller holds.  The characters of an interrupt are a list, up to the negative value that ends
  them.  The argument \<open>pcs\<close> of \<open>procdump\<close> gives the return addresses on the kernel stack of a process, which are the
  compiler's.
\<close>

definition INPUT_BUF :: nat where "INPUT_BUF = 128"
definition BACKSPACE :: int where "BACKSPACE = 0x100"
definition CONSOLE :: nat where "CONSOLE = 1"

record consst = filest +
  cons_locking :: bool
  panicked :: bool
  crt :: "nat \<Rightarrow> u16"
  cursor :: nat
  uart :: "u8 list"
  in_buf :: "u8 list"
  in_r :: u32
  in_w :: u32
  in_e :: u32

subsection \<open>Output\<close>

definition uartputc :: "int \<Rightarrow> 'z consst_scheme \<Rightarrow> 'z consst_scheme" where
  "uartputc c s = s\<lparr>uart := uart s @ [word_of_int c]\<rparr>"

definition cga_cell :: "int \<Rightarrow> u16" where
  "cga_cell c = (word_of_int c AND 0xFF) OR 0x0700"

text \<open>The position and the screen after a character is placed, before scrolling.\<close>

definition cga_place :: "int \<Rightarrow> nat \<Rightarrow> (nat \<Rightarrow> u16) \<Rightarrow> nat \<times> (nat \<Rightarrow> u16)" where
  "cga_place c pos scr =
     (if c = 10 then (pos + (80 - pos mod 80), scr)
      else if c = BACKSPACE then (if pos > 0 then pos - 1 else pos, scr)
      else (pos + 1, scr(pos := cga_cell c)))"

definition cga_scroll :: "nat \<Rightarrow> (nat \<Rightarrow> u16) \<Rightarrow> nat \<times> (nat \<Rightarrow> u16)" where
  "cga_scroll pos scr =
     (if pos div 80 \<ge> 24 then
        let scr = (\<lambda>i. if i < 23 * 80 then scr (i + 80) else scr i); pos = pos - 80
        in (pos, \<lambda>i. if pos \<le> i \<and> i < 24 * 80 then 0 else scr i)
      else (pos, scr))"

definition cgaputc :: "int \<Rightarrow> 'z consst_scheme \<Rightarrow> (unit, 'z consst_scheme) outcome" where
  "cgaputc c s =
     (let (pos, scr) = cga_place c (cursor s) (crt s) in
      if pos > 25 * 80 then Panic ''pos under/overflow''
      else
        let (pos, scr) = cga_scroll pos scr
        in Ret () (s\<lparr>cursor := pos, crt := scr(pos := 0x20 OR 0x0700)\<rparr>))"

definition consputc :: "int \<Rightarrow> 'z consst_scheme \<Rightarrow> (unit, 'z consst_scheme) outcome" where
  "consputc c s =
     (if panicked s then Panic ''halted''
      else
        let s = (if c = BACKSPACE then uartputc 8 (uartputc 32 (uartputc 8 s)) else uartputc c s)
        in cgaputc c s)"

definition consputs :: "int list \<Rightarrow> 'z consst_scheme \<Rightarrow> (unit, 'z consst_scheme) outcome" where
  "consputs cs s = for_each consputc cs s"

definition digit :: "u32 \<Rightarrow> int" where
  "digit d = (if d < 10 then 48 + uint d else 87 + uint d)"

text \<open>The digits of \<open>x\<close>, least significant first; the loop runs at least once.\<close>

function digits :: "u32 \<Rightarrow> u32 \<Rightarrow> int list" where
  "digits base x = digit (x mod base) # (if base < 2 \<or> x div base = 0 then [] else digits base (x div base))"
  by pat_completeness auto
termination
  by (relation "measure (\<lambda>(b, x). unat x)") (auto simp: word_div_less linorder_not_less)

declare digits.simps [simp del]

text \<open>What \<open>printint xx base sign\<close> prints.\<close>

definition printint_chars :: "u32 \<Rightarrow> u32 \<Rightarrow> bool \<Rightarrow> int list" where
  "printint_chars xx base sign =
     (let neg = (sign \<and> sint xx < 0); x = (if neg then - xx else xx)
      in rev (digits base x @ (if neg then [45] else [])))"

definition printint :: "u32 \<Rightarrow> u32 \<Rightarrow> bool \<Rightarrow> 'z consst_scheme \<Rightarrow> (unit, 'z consst_scheme) outcome" where
  "printint xx base sign s = consputs (printint_chars xx base sign) s"

text \<open>An argument of \<open>cprintf\<close>: a number, or a string (\<^term>\<open>None\<close> is the null pointer).\<close>

datatype carg = CInt u32 | CStr "u8 list option"

definition arg_int :: "carg list \<Rightarrow> u32" where
  "arg_int as = (case as of CInt x # _ \<Rightarrow> x | _ \<Rightarrow> 0)"

definition null_chars :: "int list" where
  "null_chars = [40, 110, 117, 108, 108, 41]"

definition arg_chars :: "carg list \<Rightarrow> int list" where
  "arg_chars as = (case as of CStr (Some cs) # _ \<Rightarrow> map sint (cstr cs) | _ \<Rightarrow> null_chars)"

fun cprintf_loop :: "u8 list \<Rightarrow> carg list \<Rightarrow> 'z consst_scheme \<Rightarrow> (unit, 'z consst_scheme) outcome" where
  "cprintf_loop [] as s = Ret () s"
| "cprintf_loop (c # fmt) as s =
     (if c = 0 then Ret () s
      else if c \<noteq> 37 then bnd (consputc (uint c) s) (\<lambda>_ s. cprintf_loop fmt as s)
      else
        (case fmt of
           [] \<Rightarrow> Ret () s
         | d # fmt' \<Rightarrow>
             if d = 0 then Ret () s
             else if d = 100 then bnd (printint (arg_int as) 10 True s) (\<lambda>_ s. cprintf_loop fmt' (tl as) s)
             else if d = 120 \<or> d = 112 then bnd (printint (arg_int as) 16 False s) (\<lambda>_ s. cprintf_loop fmt' (tl as) s)
             else if d = 115 then bnd (consputs (arg_chars as) s) (\<lambda>_ s. cprintf_loop fmt' (tl as) s)
             else if d = 37 then bnd (consputc 37 s) (\<lambda>_ s. cprintf_loop fmt' as s)
             else bnd (consputc 37 s) (\<lambda>_ s. bnd (consputc (uint d) s) (\<lambda>_ s. cprintf_loop fmt' as s))))"

definition cprintf :: "u8 list option \<Rightarrow> carg list \<Rightarrow> 'z consst_scheme \<Rightarrow> (unit, 'z consst_scheme) outcome" where
  "cprintf fmt as s =
     (let locking = cons_locking s in
      bnd (if locking then acquire LkCons s else Ret () s) (\<lambda>_ s.
      case fmt of
        None \<Rightarrow> Panic ''null fmt''
      | Some f \<Rightarrow>
          bnd (cprintf_loop f as s) (\<lambda>_ s.
          if locking then release LkCons s else Ret () s)))"

definition ascii :: "string \<Rightarrow> u8 list" where
  "ascii cs = map (\<lambda>c. of_nat (of_char c)) cs"

definition state_name :: "procstate \<Rightarrow> u8 list" where
  "state_name st = ascii (case st of UNUSED \<Rightarrow> ''unused'' | EMBRYO \<Rightarrow> ''embryo'' | SLEEPING \<Rightarrow> ''sleep ''
     | RUNNABLE \<Rightarrow> ''runble'' | RUNNING \<Rightarrow> ''run   '' | ZOMBIE \<Rightarrow> ''zombie'')"

definition procdump_one :: "(nat \<Rightarrow> u32 list) \<Rightarrow> nat \<Rightarrow> 'z consst_scheme \<Rightarrow> (unit, 'z consst_scheme) outcome" where
  "procdump_one pcs i s =
     (let p = procs s ! i in
      if state p = UNUSED then Ret () s
      else
        bnd (cprintf (Some (ascii ''%d %s %s'')) [CInt (word_of_int (pid p)), CStr (Some (state_name (state p))), CStr (Some (name p))] s) (\<lambda>_ s.
        bnd (if state p = SLEEPING
             then for_each (\<lambda>pc s. cprintf (Some (ascii '' %p'')) [CInt pc] s) (takeWhile (\<lambda>pc. pc \<noteq> 0) (take 10 (pcs i))) s
             else Ret () s) (\<lambda>_ s.
        cprintf (Some [10]) [] s)))"

definition procdump :: "(nat \<Rightarrow> u32 list) \<Rightarrow> 'z consst_scheme \<Rightarrow> (unit, 'z consst_scheme) outcome" where
  "procdump pcs s = for_each (procdump_one pcs) [0..<length (procs s)] s"

subsection \<open>Input\<close>

text \<open>Control-\<^verbatim>\<open>U\<close>: back to the last end of line.\<close>

fun kill_line :: "'z consst_scheme \<Rightarrow> nat \<Rightarrow> (unit, 'z consst_scheme) outcome" where
  "kill_line s 0 = Ret () s"
| "kill_line s (Suc n) =
     (if in_e s \<noteq> in_w s \<and> in_buf s ! unat ((in_e s - 1) mod of_nat INPUT_BUF) \<noteq> 10 then
        bnd (consputc BACKSPACE (s\<lparr>in_e := in_e s - 1\<rparr>)) (\<lambda>_ s. kill_line s n)
      else Ret () s)"

definition consoleintr_char :: "int \<Rightarrow> 'z consst_scheme \<Rightarrow> (unit, 'z consst_scheme) outcome" where
  "consoleintr_char c s =
     (if c = 16 then Ret () s
      else if c = 21 then kill_line s (unat (in_e s - in_w s))
      else if c = 8 \<or> c = 0x7f then
        if in_e s \<noteq> in_w s then consputc BACKSPACE (s\<lparr>in_e := in_e s - 1\<rparr>) else Ret () s
      else if c \<noteq> 0 \<and> in_e s - in_r s < of_nat INPUT_BUF then
        let c = (if c = 13 then 10 else c);
            s = s\<lparr>in_buf := (in_buf s)[unat (in_e s mod of_nat INPUT_BUF) := word_of_int c], in_e := in_e s + 1\<rparr>
        in bnd (consputc c s) (\<lambda>_ s.
           if c = 10 \<or> c = 4 \<or> in_e s = in_r s + of_nat INPUT_BUF then
             wakeup ChCons (s\<lparr>in_w := in_e s\<rparr>)
           else Ret () s)
      else Ret () s)"

definition consoleintr :: "(nat \<Rightarrow> u32 list) \<Rightarrow> int list \<Rightarrow> 'z consst_scheme \<Rightarrow> (unit, 'z consst_scheme) outcome" where
  "consoleintr pcs cs s =
     (let cs = takeWhile (\<lambda>c. c \<ge> 0) cs in
      bnd (acquire LkCons s) (\<lambda>_ s.
      bnd (for_each consoleintr_char cs s) (\<lambda>_ s.
      bnd (release LkCons s) (\<lambda>_ s.
      if 16 \<in> set cs then procdump pcs s else Ret () s))))"

text \<open>\<open>consoleread\<close>: \<open>n\<close> bytes are still wanted of \<open>target\<close>, \<open>got\<close> are at \<^verbatim>\<open>dst\<close>.\<close>

fun consoleread_loop :: "nat \<Rightarrow> int \<Rightarrow> nat \<Rightarrow> u8 list \<Rightarrow> 'z consst_scheme \<Rightarrow> (int \<times> u8 list, 'z consst_scheme) outcome" where
  "consoleread_loop ip target 0 got s =
     bnd (release LkCons s) (\<lambda>_ s. bnd (ilock (Some ip) s) (\<lambda>_ s. Ret (target, got) s))"
| "consoleread_loop ip target (Suc n) got s =
     (if in_r s = in_w s then
        if killed (procs s ! myproc s) then
          bnd (release LkCons s) (\<lambda>_ s. bnd (ilock (Some ip) s) (\<lambda>_ s. Ret (-1, got) s))
        else wait_in (sleep ChCons (Some LkCons) s)
      else
        let c = in_buf s ! unat (in_r s mod of_nat INPUT_BUF); s = s\<lparr>in_r := in_r s + 1\<rparr> in
        if c = 4 then
          let s = (if int (Suc n) < target then s\<lparr>in_r := in_r s - 1\<rparr> else s) in
          bnd (release LkCons s) (\<lambda>_ s. bnd (ilock (Some ip) s) (\<lambda>_ s. Ret (target - int (Suc n), got) s))
        else if c = 10 then
          bnd (release LkCons s) (\<lambda>_ s. bnd (ilock (Some ip) s) (\<lambda>_ s. Ret (target - int n, got @ [c]) s))
        else consoleread_loop ip target n (got @ [c]) s)"

definition consoleread :: "nat \<Rightarrow> int \<Rightarrow> 'z consst_scheme \<Rightarrow> (int \<times> u8 list, 'z consst_scheme) outcome" where
  "consoleread ip n s =
     bnd (iunlock (Some ip) s) (\<lambda>_ s.
     bnd (acquire LkCons s) (\<lambda>_ s.
     consoleread_loop ip (max 0 n) (nat n) [] s))"

definition consoleread_resume :: "nat \<Rightarrow> int \<Rightarrow> nat \<Rightarrow> u8 list \<Rightarrow> 'z consst_scheme \<Rightarrow> (int \<times> u8 list, 'z consst_scheme) outcome" where
  "consoleread_resume ip target n got s = bnd (sleep_return LkCons s) (\<lambda>_ s. consoleread_loop ip target n got s)"

definition consolewrite :: "nat \<Rightarrow> u8 list \<Rightarrow> 'z consst_scheme \<Rightarrow> (int, 'z consst_scheme) outcome" where
  "consolewrite ip buf s =
     bnd (iunlock (Some ip) s) (\<lambda>_ s.
     bnd (acquire LkCons s) (\<lambda>_ s.
     bnd (consputs (map uint buf) s) (\<lambda>_ s.
     bnd (release LkCons s) (\<lambda>_ s.
     bnd (ilock (Some ip) s) (\<lambda>_ s.
     Ret (int (length buf)) s)))))"

subsection \<open>The table of devices\<close>

text \<open>What \<open>consoleinit\<close> makes of \<^verbatim>\<open>devsw\<close>.\<close>

definition devsw_read :: "'z consst_scheme dev_read" where
  "devsw_read major = (if major = CONSOLE then Some consoleread else None)"

definition devsw_write :: "'z consst_scheme dev_write" where
  "devsw_write major = (if major = CONSOLE then Some consolewrite else None)"

definition consoleinit :: "'z consst_scheme \<Rightarrow> 'z consst_scheme" where
  "consoleinit s = s\<lparr>cons_locking := True\<rparr>"

end
