(* ===== verification/Process.thy ===== *)
theory Process
  imports Console
begin

text \<open>
  The life cycle of processes in \<^verbatim>\<open>proc.c\<close>: \<open>allocproc\<close>, \<open>userinit\<close>, \<open>growproc\<close>, \<open>fork\<close>, \<open>exit\<close>, \<open>wait\<close>, \<open>forkret\<close>.

  \<open>first_run\<close> is the static variable of \<open>forkret\<close>; \<open>trapret_at\<close> and \<open>forkret_at\<close> are the addresses of those two
  routines, which \<open>allocproc\<close> puts on the stack of a new process.  The bytes of the first program are an argument of
  \<open>userinit\<close>.  A null process pointer is \<^term>\<open>None\<close>.
\<close>

definition FL_IF :: u32 where "FL_IF = 0x200"
definition SEG_UCODE :: u16 where "SEG_UCODE = 3"
definition SEG_UDATA :: u16 where "SEG_UDATA = 4"
definition DPL_USER :: u16 where "DPL_USER = 3"

record procst = consst +
  first_run :: bool
  trapret_at :: u32
  forkret_at :: u32

subsection \<open>Creating processes\<close>

text \<open>The kernel stack of a new process: below the trap frame (76 bytes) the return address of \<open>forkret\<close>, below it a
  context (20 bytes, all zero but for its last word \<^verbatim>\<open>eip\<close>).\<close>

definition stack_ctx :: "u32 \<Rightarrow> u32" where
  "stack_ctx kst = kst + KSTACKSIZE - 76 - 4 - 20"

definition new_stack :: "u32 \<Rightarrow> 'z procst_scheme \<Rightarrow> 'z procst_scheme" where
  "new_stack kst s =
     (let m = store32 (mem s) (kst + KSTACKSIZE - 76 - 4) (trapret_at s);
          m = memset m (stack_ctx kst) 0 20;
          m = store32 m (stack_ctx kst + 16) (forkret_at s)
      in s\<lparr>mem := m\<rparr>)"

definition allocproc :: "'z procst_scheme \<Rightarrow> (nat option, 'z procst_scheme) outcome" where
  "allocproc s =
     bnd (acquire LkPtable s) (\<lambda>_ s.
     case find_index (\<lambda>p. state p = UNUSED) (procs s) of
       None \<Rightarrow> bnd (release LkPtable s) (\<lambda>_ s. Ret None s)
     | Some i \<Rightarrow>
         let s = (upd_proc i (\<lambda>p. p\<lparr>state := EMBRYO, pid := nextpid s\<rparr>) s)\<lparr>nextpid := nextpid s + 1\<rparr> in
         bnd (release LkPtable s) (\<lambda>_ s.
         bnd (kalloc s) (\<lambda>kst s.
         let s = upd_proc i (\<lambda>p. p\<lparr>kstack := kst\<rparr>) s in
         if kst = 0 then Ret None (upd_proc i (\<lambda>p. p\<lparr>state := UNUSED\<rparr>) s)
         else
           Ret (Some i) (upd_proc i (\<lambda>p. p\<lparr>ctx := stack_ctx kst, contextswitch := 0, priority := DEFAULT_PRIORITY, executionAddress := 0\<rparr>)
             (new_stack kst s)))))"

definition zero_tf :: trapframe where
  "zero_tf = \<lparr>tf_edi = 0, tf_esi = 0, tf_ebp = 0, tf_oesp = 0, tf_ebx = 0, tf_edx = 0, tf_ecx = 0, tf_eax = 0, tf_gs = 0,
     tf_fs = 0, tf_es = 0, tf_ds = 0, tf_trapno = 0, tf_err = 0, tf_eip = 0, tf_cs = 0, tf_eflags = 0, tf_esp = 0, tf_ss = 0\<rparr>"

definition init_tf :: trapframe where
  "init_tf = (let ds = push_bit 3 SEG_UDATA OR DPL_USER in
     zero_tf\<lparr>tf_cs := push_bit 3 SEG_UCODE OR DPL_USER, tf_ds := ds, tf_es := ds, tf_ss := ds, tf_eflags := FL_IF,
       tf_esp := PGSIZE, tf_eip := 0\<rparr>)"

definition userinit :: "u8 list \<Rightarrow> 'z procst_scheme \<Rightarrow> (unit, 'z procst_scheme) outcome" where
  "userinit initcode s =
     bnd (allocproc s) (\<lambda>r s.
     case r of
       None \<Rightarrow> Panic ''undefined behaviour: null process''
     | Some p \<Rightarrow>
         bnd (setupkvm ((upd_proc p (\<lambda>q. q\<lparr>priority := 1\<rparr>) s)\<lparr>initproc := Some p\<rparr>)) (\<lambda>d s.
         let s = upd_proc p (\<lambda>q. q\<lparr>pgdir := d\<rparr>) s in
         if d = 0 then Panic ''userinit: out of memory?''
         else
           bnd (inituvm d initcode s) (\<lambda>_ s.
           let s = upd_proc p (\<lambda>q. q\<lparr>sz := PGSIZE, tf := init_tf, name := safestrcpy (name q) (ascii ''initcode'') 16\<rparr>) s in
           bnd (namei devsw_read [slash] s) (\<lambda>ip s.
           bnd (acquire LkPtable (upd_proc p (\<lambda>q. q\<lparr>cwd := ip\<rparr>) s)) (\<lambda>_ s.
           release LkPtable (upd_proc p (\<lambda>q. q\<lparr>state := RUNNABLE\<rparr>) s))))))"

definition growproc :: "u32 \<Rightarrow> 'z procst_scheme \<Rightarrow> (int, 'z procst_scheme) outcome" where
  "growproc n s =
     (let p = procs s ! myproc s; finish = (\<lambda>len s.
          bnd (switchuvm (myproc s) (upd_proc (myproc s) (\<lambda>p. p\<lparr>sz := len\<rparr>) s)) (\<lambda>_ s. Ret 0 s))
      in
      if sint n > 0 then
        bnd (allocuvm (pgdir p) (sz p) (sz p + n) s) (\<lambda>len s.
        if len = 0 then Ret (-1) s else finish len s)
      else if sint n < 0 then
        bnd (deallocuvm (pgdir p) (sz p) (sz p + n) s) (\<lambda>len s.
        if len = 0 then Ret (-1) s else finish len s)
      else finish (sz p) s)"

subsection \<open>fork\<close>

definition fork_file :: "nat \<Rightarrow> nat \<Rightarrow> 'z procst_scheme \<Rightarrow> (unit, 'z procst_scheme) outcome" where
  "fork_file np i s =
     (case ofile (procs s ! myproc s) ! i of
        None \<Rightarrow> Ret () s
      | Some f \<Rightarrow>
          bnd (filedup f s) (\<lambda>f s.
          Ret () (upd_proc np (\<lambda>q. q\<lparr>ofile := (ofile q)[i := Some f]\<rparr>) s)))"

text \<open>The entry points that \<open>sys_welcomeFunction\<close> sets: the child starts at the parent's \<open>executionAddress\<close> and keeps the
  place where it would have started.\<close>

definition fork_entry :: "proc \<Rightarrow> proc \<Rightarrow> proc" where
  "fork_entry cp q =
     (if executionAddress cp \<noteq> 0
      then q\<lparr>tf := (tf q)\<lparr>tf_eip := executionAddress cp\<rparr>, executionAddress := tf_eip (tf q)\<rparr>
      else q)"

definition fork :: "'z procst_scheme \<Rightarrow> (int, 'z procst_scheme) outcome" where
  "fork s =
     bnd (allocproc s) (\<lambda>r s.
     case r of
       None \<Rightarrow> Ret (-1) s
     | Some np \<Rightarrow>
         bnd (copyuvm (pgdir (procs s ! myproc s)) (sz (procs s ! myproc s)) s) (\<lambda>d s.
         let s = upd_proc np (\<lambda>q. q\<lparr>pgdir := d\<rparr>) s in
         if d = 0 then
           bnd (kfree (kstack (procs s ! np)) s) (\<lambda>_ s.
           Ret (-1) (upd_proc np (\<lambda>q. q\<lparr>kstack := 0, state := UNUSED\<rparr>) s))
         else
           let cp = procs s ! myproc s;
               s = upd_proc np (\<lambda>q. q\<lparr>sz := sz cp, parent := Some (myproc s), tf := (tf cp)\<lparr>tf_eax := 0\<rparr>\<rparr>) s
           in
           bnd (for_each (fork_file np) [0..<NOFILE] s) (\<lambda>_ s.
           bnd (idup (the (cwd (procs s ! myproc s))) s) (\<lambda>ip s.
           let cp = procs s ! myproc s;
               s = upd_proc np (\<lambda>q. q\<lparr>cwd := Some ip, name := safestrcpy (name q) (name cp) 16\<rparr>) s;
               p = pid (procs s ! np);
               s = upd_proc np (fork_entry cp) s
           in
           bnd (acquire LkPtable s) (\<lambda>_ s.
           bnd (release LkPtable (upd_proc np (\<lambda>q. q\<lparr>state := RUNNABLE\<rparr>) s)) (\<lambda>_ s.
           Ret p s))))))"

subsection \<open>exit and wait\<close>

definition exit_file :: "nat \<Rightarrow> 'z procst_scheme \<Rightarrow> (unit, 'z procst_scheme) outcome" where
  "exit_file fd s =
     (case ofile (procs s ! myproc s) ! fd of
        None \<Rightarrow> Ret () s
      | Some f \<Rightarrow>
          bnd (fileclose f s) (\<lambda>_ s.
          Ret () (upd_proc (myproc s) (\<lambda>q. q\<lparr>ofile := (ofile q)[fd := None]\<rparr>) s)))"

text \<open>\<open>wakeup1\<close> of a process pointer; nobody sleeps on the null pointer.\<close>

definition wake_proc :: "nat option \<Rightarrow> 'z kst_scheme \<Rightarrow> 'z kst_scheme" where
  "wake_proc p s = (case p of None \<Rightarrow> s | Some i \<Rightarrow> wakeup1 (ChProc i) s)"

fun abandon :: "nat \<Rightarrow> nat list \<Rightarrow> 'z kst_scheme \<Rightarrow> 'z kst_scheme" where
  "abandon me [] s = s"
| "abandon me (i # is) s =
     (if parent (procs s ! i) = Some me then
        let s = upd_proc i (\<lambda>p. p\<lparr>parent := initproc s\<rparr>) s
        in abandon me is (if state (procs s ! i) = ZOMBIE then wake_proc (initproc s) s else s)
      else abandon me is s)"

text \<open>\<^verbatim>\<open>exit\<close> from the point where it holds \<^verbatim>\<open>ptable.lock\<close>.\<close>

definition exit_locked :: "'z procst_scheme \<Rightarrow> (unit, 'z procst_scheme) outcome" where
  "exit_locked s =
     (let s = wake_proc (parent (procs s ! myproc s)) s;
          s = abandon (myproc s) [0..<length (procs s)] s;
          s = upd_proc (myproc s) (\<lambda>p. p\<lparr>state := ZOMBIE\<rparr>) s
      in bnd (sched s) (\<lambda>_ _. Panic ''zombie exit''))"

definition exit :: "'z procst_scheme \<Rightarrow> (unit, 'z procst_scheme) outcome" where
  "exit s =
     (if Some (myproc s) = initproc s then Panic ''init exiting''
      else
        bnd (for_each exit_file [0..<NOFILE] s) (\<lambda>_ s.
        bnd (begin_op s) (\<lambda>_ s.
        bnd (iput (the (cwd (procs s ! myproc s))) s) (\<lambda>_ s.
        bnd (end_op s) (\<lambda>_ s.
        bnd (acquire LkPtable (upd_proc (myproc s) (\<lambda>p. p\<lparr>cwd := None\<rparr>) s)) (\<lambda>_ s.
        exit_locked s))))))"

definition is_child :: "nat \<Rightarrow> proc \<Rightarrow> bool" where
  "is_child me p = (parent p = Some me)"

text \<open>What is left of a reaped entry.\<close>

definition reaped :: "proc \<Rightarrow> proc" where
  "reaped p = p\<lparr>pid := 0, parent := None, name := (name p)[0 := 0], killed := False, state := UNUSED\<rparr>"

text \<open>The body of the loop of \<open>wait\<close>, with \<^verbatim>\<open>ptable.lock\<close> held.\<close>

definition wait_loop :: "'z procst_scheme \<Rightarrow> (int, 'z procst_scheme) outcome" where
  "wait_loop s =
     (let me = myproc s in
      case find_index (\<lambda>p. is_child me p \<and> state p = ZOMBIE) (procs s) of
        Some i \<Rightarrow>
          let p = pid (procs s ! i) in
          bnd (kfree (kstack (procs s ! i)) s) (\<lambda>_ s.
          bnd (freevm (pgdir (procs s ! i)) (upd_proc i (\<lambda>q. q\<lparr>kstack := 0\<rparr>) s)) (\<lambda>_ s.
          bnd (release LkPtable (upd_proc i reaped s)) (\<lambda>_ s.
          Ret p s)))
      | None \<Rightarrow>
          if \<not> (\<exists>p \<in> set (procs s). is_child me p) \<or> killed (procs s ! me) then
            bnd (release LkPtable s) (\<lambda>_ s. Ret (-1) s)
          else wait_in (sleep (ChProc me) (Some LkPtable) s))"

definition wait :: "'z procst_scheme \<Rightarrow> (int, 'z procst_scheme) outcome" where
  "wait s = bnd (acquire LkPtable s) (\<lambda>_ s. wait_loop s)"

definition wait_resume :: "'z procst_scheme \<Rightarrow> (int, 'z procst_scheme) outcome" where
  "wait_resume s = bnd (sleep_return LkPtable s) (\<lambda>_ s. wait_loop s)"

text \<open>Where a new process starts when the scheduler first switches to it.\<close>

definition forkret :: "'z procst_scheme \<Rightarrow> (unit, 'z procst_scheme) outcome" where
  "forkret s =
     bnd (release LkPtable s) (\<lambda>_ s.
     if first_run s then
       bnd (iinit ROOTDEV (s\<lparr>first_run := False\<rparr>)) (\<lambda>_ s.
       initlog ROOTDEV s)
     else Ret () s)"

end
