(* ===== verification/Lifecycle.thy ===== *)
theory Lifecycle
  imports Process
begin

text \<open>
  How \<open>exit\<close> and \<open>wait\<close> of \<^verbatim>\<open>proc.c\<close> meet: an exiting process hands its children to the first process and leaves itself as
  a zombie to its parent, and no parent sleeps in \<open>wait\<close> while it has a zombie to collect.
\<close>

definition sleeps_in_wait :: "nat \<Rightarrow> 'z kst_scheme \<Rightarrow> bool" where
  "sleeps_in_wait p s = (state (procs s ! p) = SLEEPING \<and> chan (procs s ! p) = Some (ChProc p))"

text \<open>No process sleeps in \<open>wait\<close> while it has a zombie child.\<close>

definition zombies_noticed :: "'z kst_scheme \<Rightarrow> bool" where
  "zombies_noticed s =
     (\<forall>z < length (procs s). \<forall>p < length (procs s).
        state (procs s ! z) = ZOMBIE \<and> parent (procs s ! z) = Some p \<longrightarrow> \<not> sleeps_in_wait p s)"

lemma wake_proc_procs: "procs (wake_proc o1 s) = map (\<lambda>p. case o1 of None \<Rightarrow> p | Some i \<Rightarrow> wake (ChProc i) p) (procs s)"
  by (simp add: wake_proc_def wakeup1_def split: option.splits)

lemma wake_proc_frame [simp]:
  "initproc (wake_proc o1 s) = initproc s" "held (wake_proc o1 s) = held s" "cur (wake_proc o1 s) = cur s"
  "myproc (wake_proc o1 s) = myproc s" "length (procs (wake_proc o1 s)) = length (procs s)"
  by (simp_all add: wake_proc_def split: option.splits)

lemma wake_proc_entry:
  "j < length (procs s) \<Longrightarrow> parent (procs (wake_proc o1 s) ! j) = parent (procs s ! j)"
  "j < length (procs s) \<Longrightarrow> state (procs (wake_proc o1 s) ! j) = ZOMBIE \<longleftrightarrow> state (procs s ! j) = ZOMBIE"
  by (simp_all add: wake_proc_procs split: option.splits)

lemma wake_proc_sleepers:
  assumes "p < length (procs s)" and "sleeps_in_wait p (wake_proc o1 s)"
  shows "sleeps_in_wait p s" and "o1 \<noteq> Some p"
  using assms by (auto simp: sleeps_in_wait_def wake_proc_procs wake_def split: option.splits if_splits)

text \<open>What the loop of \<open>exit\<close> over the process table does for the entries \<open>js\<close>: it gives the children of \<open>me\<close> to the first
  process, starts nobody sleeping, and wakes the first process when one of them is a zombie.\<close>

definition abandons :: "nat \<Rightarrow> nat list \<Rightarrow> 'z kst_scheme \<Rightarrow> 'z kst_scheme \<Rightarrow> bool" where
  "abandons me js s t =
     (length (procs t) = length (procs s) \<and> initproc t = initproc s \<and> held t = held s \<and> cur t = cur s \<and>
      (\<forall>j < length (procs s).
         parent (procs t ! j) = (if j \<in> set js \<and> parent (procs s ! j) = Some me then initproc s else parent (procs s ! j)) \<and>
         (state (procs t ! j) = ZOMBIE \<longleftrightarrow> state (procs s ! j) = ZOMBIE) \<and>
         (sleeps_in_wait j t \<longrightarrow> sleeps_in_wait j s) \<and>
         (j \<in> set js \<and> parent (procs s ! j) = Some me \<and> state (procs s ! j) = ZOMBIE \<longrightarrow>
            (\<forall>i < length (procs s). initproc s = Some i \<longrightarrow> \<not> sleeps_in_wait i t))))"

lemma abandonsD:
  assumes "abandons me js s t"
  shows "length (procs t) = length (procs s)" "initproc t = initproc s" "held t = held s" "cur t = cur s"
    and "\<And>j. j < length (procs s) \<Longrightarrow>
      parent (procs t ! j) = (if j \<in> set js \<and> parent (procs s ! j) = Some me then initproc s else parent (procs s ! j))"
    and "\<And>j. j < length (procs s) \<Longrightarrow> (state (procs t ! j) = ZOMBIE) = (state (procs s ! j) = ZOMBIE)"
    and "\<And>j. \<lbrakk>j < length (procs s); sleeps_in_wait j t\<rbrakk> \<Longrightarrow> sleeps_in_wait j s"
    and "\<And>j i. \<lbrakk>j < length (procs s); j \<in> set js; parent (procs s ! j) = Some me; state (procs s ! j) = ZOMBIE;
      i < length (procs s); initproc s = Some i\<rbrakk> \<Longrightarrow> \<not> sleeps_in_wait i t"
  using assms unfolding abandons_def by blast+

lemma abandons_trans:
  assumes a: "abandons me [i] s u" and b: "abandons me js u t" and "i \<notin> set js"
  shows "abandons me (i # js) s t"
  unfolding abandons_def
proof (intro conjI allI impI)
  note A = abandonsD[OF a] and B = abandonsD[OF b]
  show "length (procs t) = length (procs s)" "initproc t = initproc s" "held t = held s" "cur t = cur s"
    using A(1-4) B(1-4) by simp_all
  fix j assume j: "j < length (procs s)"
  then have j': "j < length (procs u)" using A(1) by simp
  show "parent (procs t ! j) = (if j \<in> set (i # js) \<and> parent (procs s ! j) = Some me then initproc s else parent (procs s ! j))"
    using B(5)[OF j'] A(5)[OF j] A(2) assms(3) by auto
  show "(state (procs t ! j) = ZOMBIE) = (state (procs s ! j) = ZOMBIE)" using B(6)[OF j'] A(6)[OF j] by simp
  show "sleeps_in_wait j t \<Longrightarrow> sleeps_in_wait j s" using B(7)[OF j'] A(7)[OF j] by blast
  fix k assume c: "j \<in> set (i # js) \<and> parent (procs s ! j) = Some me \<and> state (procs s ! j) = ZOMBIE"
    and k: "k < length (procs s)" "initproc s = Some k"
  show "\<not> sleeps_in_wait k t"
  proof (cases "j = i")
    case True
    then show ?thesis using A(8)[OF j, of k] B(7)[of k] c k A(1) by auto
  next
    case False
    then show ?thesis using B(8)[OF j', of k] A(5,6)[OF j] c k A(1,2) by auto
  qed
qed

lemma abandon_abandons: "\<lbrakk>distinct js; set js \<subseteq> {..<length (procs s)}\<rbrakk> \<Longrightarrow> abandons me js s (abandon me js s)"
proof (induction js arbitrary: s)
  case Nil
  then show ?case by (simp add: abandons_def)
next
  case (Cons i js)
  have i: "i < length (procs s)" "i \<notin> set js" using Cons.prems by simp_all
  define s1 where "s1 = (if parent (procs s ! i) = Some me then upd_proc i (\<lambda>p. p\<lparr>parent := initproc s\<rparr>) s else s)"
  define s2 where "s2 = (if parent (procs s ! i) = Some me \<and> state (procs s ! i) = ZOMBIE then wake_proc (initproc s) s1 else s1)"
  have step: "abandon me (i # js) s = abandon me js s2"
    using i by (simp add: s2_def s1_def Let_def upd_proc_def)
  have one: "abandons me [i] s s2"
    unfolding abandons_def
  proof (intro conjI allI impI)
    show "length (procs s2) = length (procs s)" "initproc s2 = initproc s" "held s2 = held s" "cur s2 = cur s"
      by (simp_all add: s2_def s1_def upd_proc_def)
    fix j assume j: "j < length (procs s)"
    have s1: "length (procs s1) = length (procs s)" "initproc s1 = initproc s"
      "\<And>k. k < length (procs s) \<Longrightarrow>
         parent (procs s1 ! k) = (if k = i \<and> parent (procs s ! k) = Some me then initproc s else parent (procs s ! k))"
      "\<And>k. k < length (procs s) \<Longrightarrow> state (procs s1 ! k) = state (procs s ! k)"
      "\<And>k. sleeps_in_wait k s1 = sleeps_in_wait k s"
      using i by (auto simp: s1_def upd_proc_def nth_list_update sleeps_in_wait_def)
    show "parent (procs s2 ! j) = (if j \<in> set [i] \<and> parent (procs s ! j) = Some me then initproc s else parent (procs s ! j))"
      using s1 j by (cases "j = i") (auto simp: s2_def wake_proc_entry)
    show "(state (procs s2 ! j) = ZOMBIE) = (state (procs s ! j) = ZOMBIE)"
      using s1 j by (simp add: s2_def wake_proc_entry)
    show "sleeps_in_wait j s2 \<Longrightarrow> sleeps_in_wait j s"
      using s1 j wake_proc_sleepers(1)[of j s1] by (auto simp: s2_def split: if_splits)
    fix k assume a: "j \<in> set [i] \<and> parent (procs s ! j) = Some me \<and> state (procs s ! j) = ZOMBIE" and k: "k < length (procs s)" "initproc s = Some k"
    then show "\<not> sleeps_in_wait k s2"
      using s1(1) wake_proc_sleepers(2)[of k s1 "initproc s"] by (auto simp: s2_def)
  qed
  have "abandons me js s2 (abandon me js s2)" using Cons.IH[of s2] Cons.prems abandonsD(1)[OF one] by simp
  from abandons_trans[OF one this i(2)] show ?case by (simp only: step)
qed

lemma exit_locked_noticed:
  assumes noticed: "zombies_noticed s" and cur: "cur s = Some me" and me: "me < length (procs s)"
    and init: "initproc s \<noteq> Some me" and own: "parent (procs s ! me) \<noteq> Some me"
    and t: "t = upd_proc me (\<lambda>p. p\<lparr>state := ZOMBIE\<rparr>) (abandon me [0..<length (procs s)] (wake_proc (parent (procs s ! me)) s))"
  shows "zombies_noticed t" and "state (procs t ! me) = ZOMBIE" and "\<forall>j < length (procs t). parent (procs t ! j) \<noteq> Some me"
    and "held t = held s" and "myproc t = me"
proof -
  define u where "u = wake_proc (parent (procs s ! me)) s"
  define v where "v = abandon me [0..<length (procs s)] u"
  have uv: "abandons me [0..<length (procs s)] u v"
    unfolding v_def by (rule abandon_abandons) (auto simp: u_def)
  have t': "t = upd_proc me (\<lambda>p. p\<lparr>state := ZOMBIE\<rparr>) v" using t by (simp add: v_def u_def)
  have len: "length (procs u) = length (procs s)" "length (procs v) = length (procs s)" "length (procs t) = length (procs s)"
    using uv by (simp_all add: abandons_def u_def t' upd_proc_def)
  note V = abandonsD[OF uv, unfolded len(1)] and U = wake_proc_frame[of "parent (procs s ! me)" s, folded u_def]
  note W = wake_proc_entry[of _ s "parent (procs s ! me)", folded u_def]
  have entry: "procs t ! j = (if j = me then (procs v ! me)\<lparr>state := ZOMBIE\<rparr> else procs v ! j)" if "j < length (procs s)" for j
    using that len by (simp add: t' upd_proc_def nth_list_update)
  have par: "parent (procs t ! j) = (if parent (procs s ! j) = Some me then initproc s else parent (procs s ! j))"
    if j: "j < length (procs s)" for j
    using V(5)[OF j] W(1)[OF j] U(1) j by (auto simp: entry)
  show "state (procs t ! me) = ZOMBIE" using me len by (simp add: t' upd_proc_def)
  show "\<forall>j < length (procs t). parent (procs t ! j) \<noteq> Some me" using par init len by auto
  show "held t = held s" "myproc t = me"
    using V(3,4) U cur by (simp_all add: t' upd_proc_def myproc_def)
  have awake: "p \<noteq> me" "sleeps_in_wait p v" "sleeps_in_wait p u" if "sleeps_in_wait p t" "p < length (procs s)" for p
  proof -
    show p: "p \<noteq> me" using that by (auto simp: sleeps_in_wait_def entry)
    then show v: "sleeps_in_wait p v" using that by (simp add: sleeps_in_wait_def entry)
    show "sleeps_in_wait p u" by (rule V(7)[OF that(2) v])
  qed
  show "zombies_noticed t"
    unfolding zombies_noticed_def len
  proof (intro allI impI)
    fix z p assume z: "z < length (procs s)" and p: "p < length (procs s)"
      and zp: "state (procs t ! z) = ZOMBIE \<and> parent (procs t ! z) = Some p"
    show "\<not> sleeps_in_wait p t"
    proof
      assume sl: "sleeps_in_wait p t"
      have ss: "sleeps_in_wait p s" "parent (procs s ! me) \<noteq> Some p"
        using wake_proc_sleepers[OF p awake(3)[OF sl p, unfolded u_def]] by simp_all
      have "z \<noteq> me" using par[OF me] zp own ss by auto
      then have zz: "state (procs s ! z) = ZOMBIE" using zp V(6)[OF z] W(2)[OF z] by (simp add: entry[OF z])
      show False
      proof (cases "parent (procs s ! z) = Some me")
        case True
        then have "initproc s = Some p" using par[OF z] zp by simp
        then show False using V(8)[OF z, of p] True zz W[OF z] U(1) p z awake(2)[OF sl p] by auto
      next
        case False
        then show False using par[OF z] zp noticed ss(1) z p zz by (simp add: zombies_noticed_def)
      qed
    qed
  qed
qed


definition demo_family :: procst where
  "demo_family = kst.extend
     ((demo_kst [(demo_proc SLEEPING 1 10)\<lparr>chan := Some (ChProc 0)\<rparr>, (demo_proc RUNNING 2 10)\<lparr>parent := Some 0\<rparr>,
        (demo_proc ZOMBIE 3 10)\<lparr>parent := Some 1\<rparr>] (Some 1))\<lparr>initproc := Some 0, held := [LkPtable]\<rparr>)
     \<lparr>slk = \<lambda>_. \<lparr>locked = False, lpid = 0\<rparr>, mem = \<lambda>_. 0, freelist = 0, use_lock = True, kend = 0, kdata = 0, bufs = [], lru = [], disk = (\<lambda>_. []),
      disksize = 0, wlog = [], l_start = 0, l_size = 0, l_outstanding = 0, l_committing = False, l_dev = 0, l_n = 0, l_block = [],
      sb = \<lparr>sb_size = 0, sb_nblocks = 0, sb_ninodes = 0, sb_nlog = 0, sb_logstart = 0, sb_inodestart = 0, sb_bmapstart = 0\<rparr>, inodes = [],
      pipes = (\<lambda>_. \<lparr>p_data = [], p_nread = 0, p_nwrite = 0, p_readopen = False, p_writeopen = False\<rparr>), files = [],
      cons_locking = False, panicked = False, crt = (\<lambda>_. 0), cursor = 0, uart = [], in_buf = [], in_r = 0, in_w = 0, in_e = 0,
      first_run = False, trapret_at = 0, forkret_at = 0\<rparr>"


end
