(* ===== verification/Consline.thy ===== *)
theory Consline
  imports Console
begin

text \<open>
  The console as a line editor: what \<open>consoleintr\<close> of \<^verbatim>\<open>console.c\<close> makes of the characters that are typed, and what
  \<open>consoleread\<close> then finds.  The ring buffer is abstracted to two byte lists, what readers may take and the line that is still
  edited; \<open>edit\<close> is the editor on them.
\<close>

subsection \<open>Output never runs off the screen\<close>

lemma cga_place_bound: "pos < 1920 \<Longrightarrow> fst (cga_place c pos scr) \<le> 1920"
proof -
  assume p: "pos < 1920"
  then have "pos div 80 < 24" by simp
  moreover have "pos + (80 - pos mod 80) = 80 * (pos div 80) + 80"
  proof -
    have "pos mod 80 < 80" "80 * (pos div 80) + pos mod 80 = pos" by simp_all
    then show ?thesis by linarith
  qed
  ultimately show ?thesis using p by (auto simp: cga_place_def)
qed

lemma cga_scroll_bound: "pos \<le> 1920 \<Longrightarrow> fst (cga_scroll pos scr) < 1920"
  by (auto simp: cga_scroll_def Let_def)

lemma cgaputc_ok:
  assumes "cursor s < 1920"
  shows "\<exists>p scr. cgaputc c s = Ret () (s\<lparr>cursor := p, crt := scr\<rparr>) \<and> p < 1920"
proof -
  obtain pos scr where c: "cga_place c (cursor s) (crt s) = (pos, scr)" by (cases "cga_place c (cursor s) (crt s)")
  obtain pos' scr' where d: "cga_scroll pos scr = (pos', scr')" by (cases "cga_scroll pos scr")
  have p: "pos \<le> 1920" using cga_place_bound[OF assms, of c "crt s"] by (simp add: c)
  then have "pos' < 1920" using cga_scroll_bound[OF p, of scr] by (simp add: d)
  then show ?thesis using p by (simp add: cgaputc_def c d) blast
qed

text \<open>While the cursor is on the screen no character makes the kernel panic, the cursor stays on the screen, and nothing but the
  screen, its cursor and the serial port changes.\<close>

lemma consputc_ok:
  assumes "\<not> panicked s" and "cursor s < 1920"
  shows "\<exists>u p scr. consputc c s = Ret () (s\<lparr>uart := u, cursor := p, crt := scr\<rparr>) \<and> p < 1920"
proof -
  have u: "\<exists>u. (if c = BACKSPACE then uartputc 8 (uartputc 32 (uartputc 8 s)) else uartputc c s) = s\<lparr>uart := u\<rparr>"
    by (auto simp: uartputc_def)
  then obtain u where u: "(if c = BACKSPACE then uartputc 8 (uartputc 32 (uartputc 8 s)) else uartputc c s) = s\<lparr>uart := u\<rparr>" by blast
  obtain p scr where "cgaputc c (s\<lparr>uart := u\<rparr>) = Ret () (s\<lparr>uart := u, cursor := p, crt := scr\<rparr>)" "p < 1920"
    using cgaputc_ok[of "s\<lparr>uart := u\<rparr>" c] assms(2) by auto
  then show ?thesis using assms(1) u unfolding consputc_def Let_def by (simp only: if_False) blast
qed

subsection \<open>The ring buffer\<close>

lemma slot128: "unat ((a + of_nat k) mod (128 :: u32)) = (unat a + k) mod 128"
proof -
  have "unat (a + of_nat k) = (unat a + k) mod 2 ^ 32"
    by (simp add: unat_word_ariths unat_of_nat mod_add_right_eq)
  then have "unat ((a + of_nat k) mod 128) = ((unat a + k) mod 2 ^ 32) mod 128"
    by (simp add: unat_mod_distrib)
  then show ?thesis by (simp add: mod_mod_cancel)
qed

lemma slot128_inj:
  assumes "j < k" and "k < 128" shows "(a + j) mod 128 \<noteq> (a + k) mod (128 :: nat)"
proof
  assume "(a + j) mod 128 = (a + k) mod 128"
  then have "128 dvd (a + k) - (a + j)" using assms(1) mod_eq_dvd_iff_nat[of "a + j" "a + k" 128] by simp
  then have "128 dvd k - j" by simp
  then show False using assms nat_dvd_not_less[of "k - j" 128] by simp
qed

definition c_len :: "'z consst_scheme \<Rightarrow> nat" where
  "c_len s = unat (in_e s - in_r s)"

definition c_done :: "'z consst_scheme \<Rightarrow> nat" where
  "c_done s = unat (in_w s - in_r s)"

definition ring :: "u8 list \<Rightarrow> u32 \<Rightarrow> nat \<Rightarrow> u8 list" where
  "ring buf r n = map (\<lambda>k. buf ! ((unat r + k) mod 128)) [0..<n]"

definition typed :: "'z consst_scheme \<Rightarrow> u8 list" where
  "typed s = ring (in_buf s) (in_r s) (c_len s)"

text \<open>What a reader may take, and the line that is edited.\<close>

definition line :: "'z consst_scheme \<Rightarrow> u8 list \<times> u8 list" where
  "line s = (take (c_done s) (typed s), drop (c_done s) (typed s))"

definition cons_ok :: "'z consst_scheme \<Rightarrow> bool" where
  "cons_ok s = (length (in_buf s) = 128 \<and> c_len s \<le> 128 \<and> c_done s \<le> c_len s \<and> cursor s < 1920 \<and> \<not> panicked s)"

lemma typed_length [simp]: "length (typed s) = c_len s"
  by (simp add: typed_def ring_def)

lemma out_frame [simp]:
  "typed (s\<lparr>uart := u\<rparr>) = typed s" "typed (s\<lparr>cursor := p\<rparr>) = typed s" "typed (s\<lparr>crt := scr\<rparr>) = typed s"
  "c_done (s\<lparr>uart := u\<rparr>) = c_done s" "c_done (s\<lparr>cursor := p\<rparr>) = c_done s" "c_done (s\<lparr>crt := scr\<rparr>) = c_done s"
  "c_len (s\<lparr>uart := u\<rparr>) = c_len s" "c_len (s\<lparr>cursor := p\<rparr>) = c_len s" "c_len (s\<lparr>crt := scr\<rparr>) = c_len s"
  by (simp_all add: typed_def c_done_def c_len_def)

lemma ring_put:
  assumes "length buf = 128" and "n < 128"
  shows "ring (buf[(unat r + n) mod 128 := b]) r (Suc n) = ring buf r n @ [b]"
proof -
  have "buf[(unat r + n) mod 128 := b] ! ((unat r + k) mod 128) = buf ! ((unat r + k) mod 128)" if "k < n" for k
    using slot128_inj[OF that assms(2), of "unat r"] by simp
  then show ?thesis using assms(1) by (simp add: ring_def)
qed

lemma e_is: "in_e s = in_r s + of_nat (c_len s)" "in_w s = in_r s + of_nat (c_done s)"
  by (simp_all add: c_len_def c_done_def)

lemma e_slot: "unat (in_e s mod of_nat INPUT_BUF) = (unat (in_r s) + c_len s) mod 128"
  using slot128[of "in_r s" "c_len s"] by (simp add: INPUT_BUF_def e_is[symmetric])

lemma small_len: "x = of_nat n \<Longrightarrow> n \<le> 128 \<Longrightarrow> unat (x :: u32) = n"
  by (simp add: unat_of_nat_small)

text \<open>A character goes to the end of the line.\<close>

lemma type_char:
  fixes b :: u8
  assumes "cons_ok s" and "c_len s < 128"
  defines "t \<equiv> s\<lparr>in_buf := (in_buf s)[unat (in_e s mod of_nat INPUT_BUF) := b], in_e := in_e s + 1\<rparr>"
  shows "c_len t = Suc (c_len s)" "c_done t = c_done s" "typed t = typed s @ [b]" "length (in_buf t) = 128"
proof -
  show l: "c_len t = Suc (c_len s)"
  proof -
    have "in_e t - in_r t = of_nat (Suc (c_len s))" using e_is(1)[of s] by (simp add: t_def)
    from small_len[OF this] show ?thesis using assms(2) by (simp add: c_len_def del: of_nat_Suc)
  qed
  show "c_done t = c_done s" by (simp add: t_def c_done_def)
  show "typed t = typed s @ [b]"
    using ring_put[of "in_buf s" "c_len s" "in_r s" b] assms(1,2) l by (simp add: typed_def) (simp add: t_def e_slot cons_ok_def)
  show "length (in_buf t) = 128" using assms(1) by (simp add: t_def cons_ok_def)
qed

text \<open>The last character of the line is taken back.\<close>

lemma erase_char:
  assumes "cons_ok s" and "in_e s \<noteq> in_w s"
  defines "t \<equiv> s\<lparr>in_e := in_e s - 1\<rparr>"
  shows "Suc (c_len t) = c_len s" "c_done t = c_done s" "typed t = butlast (typed s)" "c_done s < c_len s"
    "in_buf s ! unat ((in_e s - 1) mod of_nat INPUT_BUF) = last (typed s)"
proof -
  show lt: "c_done s < c_len s" using assms(1,2) e_is[of s] by (auto simp: cons_ok_def le_less)
  then obtain n where n: "c_len s = Suc n" by (cases "c_len s") auto
  have e: "in_e s - 1 = in_r s + of_nat n" using e_is(1)[of s] by (simp add: n)
  have "c_len t = n" using small_len[of "in_e t - in_r t" n] assms(1) e n by (simp add: t_def c_len_def cons_ok_def)
  then show "Suc (c_len t) = c_len s" and "typed t = butlast (typed s)" using n by (simp_all add: typed_def ring_def t_def)
  show "c_done t = c_done s" by (simp add: t_def c_done_def)
  show "in_buf s ! unat ((in_e s - 1) mod of_nat INPUT_BUF) = last (typed s)"
    using slot128[of "in_r s" n] by (simp add: typed_def ring_def n e INPUT_BUF_def)
qed

subsection \<open>The editor\<close>

text \<open>Control-\<^verbatim>\<open>U\<close> erases the line, backspace its last character; a carriage return is an end of line; the end of a line, control-\<^verbatim>\<open>D\<close> and
  a full buffer give the line to the readers; with a full buffer further characters are dropped.\<close>

definition edit :: "int \<Rightarrow> u8 list \<times> u8 list \<Rightarrow> u8 list \<times> u8 list" where
  "edit c = (\<lambda>(done, cur).
     if c = 16 then (done, cur)
     else if c = 21 then (done, rev (dropWhile (\<lambda>b. b \<noteq> 10) (rev cur)))
     else if c = 8 \<or> c = 0x7f then (done, butlast cur)
     else if c \<noteq> 0 \<and> length done + length cur < 128 then
       let c = (if c = 13 then 10 else c); cur = cur @ [word_of_int c]
       in if c = 10 \<or> c = 4 \<or> length done + length cur = 128 then (done @ cur, []) else (done, cur)
     else (done, cur))"

lemma line_len: "cons_ok s \<Longrightarrow> length (fst (line s)) = c_done s" "cons_ok s \<Longrightarrow> length (snd (line s)) = c_len s - c_done s"
  by (simp_all add: line_def cons_ok_def)

text \<open>Erasing one character.\<close>

lemma erase_step:
  assumes "cons_ok s" and "in_e s \<noteq> in_w s"
  shows "\<exists>t. consputc BACKSPACE (s\<lparr>in_e := in_e s - 1\<rparr>) = Ret () t \<and> cons_ok t \<and> line t = (fst (line s), butlast (snd (line s)))
     \<and> in_w t = in_w s \<and> in_r t = in_r s \<and> procs t = procs s \<and> held t = held s \<and> unat (in_e t - in_w t) < unat (in_e s - in_w s)"
proof -
  let ?s = "s\<lparr>in_e := in_e s - 1\<rparr>"
  note er = erase_char[OF assms]
  obtain u p scr where c: "consputc BACKSPACE ?s = Ret () (?s\<lparr>uart := u, cursor := p, crt := scr\<rparr>)" "p < 1920"
    using consputc_ok[of ?s BACKSPACE] assms(1) by (auto simp: cons_ok_def)
  let ?t = "?s\<lparr>uart := u, cursor := p, crt := scr\<rparr>"
  have "cons_ok ?t" using assms(1) er(1,2,4) c(2) by (simp add: cons_ok_def)
  moreover have "line ?t = (fst (line s), butlast (snd (line s)))"
    using er(4) by (simp add: line_def er(2,3) take_butlast drop_butlast)
  moreover have "unat (in_e s - 1 - in_w s) < unat (in_e s - in_w s)"
    using assms(2) measure_unat[of "in_e s - in_w s"] by (simp add: diff_right_commute[of _ 1])
  ultimately show ?thesis using c(1) by auto
qed

lemma rev_last: "xs \<noteq> [] \<Longrightarrow> rev xs = last xs # rev (butlast xs)"
  by (induction xs rule: rev_induct) auto

lemma kill_line_edit:
  assumes "cons_ok s" and "unat (in_e s - in_w s) \<le> n"
  shows "\<exists>t. kill_line s n = Ret () t \<and> cons_ok t \<and> line t = (fst (line s), rev (dropWhile (\<lambda>b. b \<noteq> 10) (rev (snd (line s)))))
     \<and> in_r t = in_r s \<and> procs t = procs s \<and> held t = held s"
  using assms
proof (induction n arbitrary: s)
  case 0
  then have "in_e s = in_w s" by (simp add: unat_eq_0)
  then have "snd (line s) = []" using line_len(2)[OF 0(1)] by (simp add: c_len_def c_done_def)
  then show ?case using 0 by (cases "line s") simp
next
  case (Suc n)
  show ?case
  proof (cases "in_e s \<noteq> in_w s \<and> in_buf s ! unat ((in_e s - 1) mod of_nat INPUT_BUF) \<noteq> 10")
    case False
    show ?thesis
    proof (cases "in_e s = in_w s")
      case True
      then have "snd (line s) = []" using line_len(2)[OF Suc.prems(1)] by (simp add: c_len_def c_done_def)
      then show ?thesis using Suc.prems(1) True by (cases "line s") simp
    next
      case ne: False
      note er = erase_char[OF Suc.prems(1) ne]
      have "last (typed s) = 10" using False ne er(5) by simp
      then have "snd (line s) \<noteq> []" "last (snd (line s)) = 10" using er(4) by (auto simp: line_def)
      then have "dropWhile (\<lambda>b. b \<noteq> 10) (rev (snd (line s))) = rev (snd (line s))" using rev_last by (metis (mono_tags, lifting) dropWhile.simps(2))
      then have "rev (dropWhile (\<lambda>b. b \<noteq> 10) (rev (snd (line s)))) = snd (line s)" by simp
      then show ?thesis using Suc.prems(1) False by (cases "line s") auto
    qed
  next
    case True
    then obtain u where u: "consputc BACKSPACE (s\<lparr>in_e := in_e s - 1\<rparr>) = Ret () u" "cons_ok u" "line u = (fst (line s), butlast (snd (line s)))"
      "in_w u = in_w s" "in_r u = in_r s" "procs u = procs s" "held u = held s" "unat (in_e u - in_w u) < unat (in_e s - in_w s)"
      using erase_step[OF Suc.prems(1)] by blast
    obtain t where t: "kill_line u n = Ret () t" "cons_ok t" "line t = (fst (line u), rev (dropWhile (\<lambda>b. b \<noteq> 10) (rev (snd (line u)))))"
      "in_r t = in_r u" "procs t = procs u" "held t = held u"
      using Suc.IH[OF u(2)] u(8) Suc.prems(2) by auto
    note er = erase_char[OF Suc.prems(1)]
    have "snd (line s) \<noteq> []" "last (snd (line s)) \<noteq> 10" using True er(4,5) by (auto simp: line_def)
    then have "dropWhile (\<lambda>b. b \<noteq> 10) (rev (snd (line s))) = dropWhile (\<lambda>b. b \<noteq> 10) (rev (butlast (snd (line s))))"
      using rev_last by (metis (mono_tags, lifting) dropWhile.simps(2))
    then show ?thesis using True u t by simp
  qed
qed

text \<open>Whether a character gives the line to the readers.\<close>

definition commits :: "int \<Rightarrow> u8 list \<times> u8 list \<Rightarrow> bool" where
  "commits c l = (fst (edit c l) \<noteq> fst l)"

lemma full_iff: "in_e s = in_r s + of_nat INPUT_BUF \<longleftrightarrow> c_len s = 128"
proof
  assume "c_len s = 128"
  then show "in_e s = in_r s + of_nat INPUT_BUF" using e_is(1)[of s] by (simp add: INPUT_BUF_def)
qed (simp add: c_len_def INPUT_BUF_def)

lemma room_iff: "in_e s - in_r s < of_nat INPUT_BUF \<longleftrightarrow> c_len s < 128"
  by (simp add: c_len_def INPUT_BUF_def word_less_nat_alt)

lemma consoleintr_char_edit:
  assumes "cons_ok s" and "LkPtable \<notin> set (held s)"
  shows "\<exists>t. consoleintr_char c s = Ret () t \<and> cons_ok t \<and> line t = edit c (line s) \<and> held t = held s \<and> in_r t = in_r s
     \<and> procs t = (if commits c (line s) then map (wake ChCons) (procs s) else procs s)"
proof -
  obtain d cu where l: "line s = (d, cu)" by (cases "line s")
  have len: "length d = c_done s" "length d + length cu = c_len s" using line_len[OF assms(1)] assms(1) l by (simp_all add: cons_ok_def)
  consider "c = 16" | "c = 21" | "c = 8 \<or> c = 0x7f" | "c \<notin> {16, 21, 8, 0x7f}" "c = 0 \<or> \<not> c_len s < 128"
    | "c \<notin> {16, 21, 8, 0x7f}" "c \<noteq> 0" "c_len s < 128" by auto
  then show ?thesis
  proof cases
    case 1
    then show ?thesis using assms by (simp add: consoleintr_char_def edit_def l commits_def)
  next
    case 2
    then show ?thesis
      using kill_line_edit[OF assms(1) order.refl] by (auto simp: consoleintr_char_def edit_def l commits_def)
  next
    case 3
    show ?thesis
    proof (cases "in_e s = in_w s")
      case True
      then have "cu = []" using len by (simp add: c_len_def c_done_def)
      then show ?thesis using 3 True assms by (auto simp: consoleintr_char_def edit_def l commits_def)
    next
      case False
      then show ?thesis using erase_step[OF assms(1) False] 3 by (auto simp: consoleintr_char_def edit_def l commits_def)
    qed
  next
    case 4
    then show ?thesis using room_iff[of s] assms(1) len(2) by (auto simp: consoleintr_char_def edit_def l commits_def)
  next
    case 5
    have room: "in_e s - in_r s < of_nat INPUT_BUF" using 5(3) by (simp add: room_iff)
    define k where "k = (if c = 13 then 10 else c)"
    define t where "t = s\<lparr>in_buf := (in_buf s)[unat (in_e s mod of_nat INPUT_BUF) := word_of_int k], in_e := in_e s + 1\<rparr>"
    note ty = type_char[OF assms(1) 5(3), of "word_of_int k", folded t_def]
    obtain u p scr where c: "consputc k t = Ret () (t\<lparr>uart := u, cursor := p, crt := scr\<rparr>)" "p < 1920"
      using consputc_ok[of t k] assms(1) by (auto simp: cons_ok_def t_def)
    define v where "v = t\<lparr>uart := u, cursor := p, crt := scr\<rparr>"
    have f: "in_e v = in_e s + 1" "in_r v = in_r s" "procs v = procs s" "held v = held s" by (simp_all add: v_def t_def)
    have v: "c_len v = Suc (c_len s)" "c_done v = c_done s" "typed v = typed s @ [word_of_int k]" "cons_ok v"
      using ty assms(1) 5(3) c(2) by (simp_all add: v_def cons_ok_def) (simp_all add: t_def)
    have full: "in_e v = in_r v + of_nat INPUT_BUF \<longleftrightarrow> c_len s + 1 = 128" using full_iff[of v] v(1) by simp
    have lv: "line v = (d, cu @ [word_of_int k])" using l len(1) v by (auto simp: line_def cons_ok_def)
    have step: "consoleintr_char c s = (if k = 10 \<or> k = 4 \<or> in_e v = in_r v + of_nat INPUT_BUF then wakeup ChCons (v\<lparr>in_w := in_e v\<rparr>) else Ret () v)"
      using 5 room c(1) unfolding consoleintr_char_def k_def[symmetric] t_def[symmetric] by (simp add: v_def[symmetric] Let_def k_def[symmetric] t_def[symmetric])
    show ?thesis
    proof (cases "k = 10 \<or> k = 4 \<or> c_len s + 1 = 128")
      case False
      then have "edit c (line s) = (d, cu @ [word_of_int k])"
        using 5 len(2) by (simp add: edit_def l Let_def k_def[symmetric])
      then show ?thesis using False step full v(4) lv f by (simp add: commits_def l)
    next
      case True
      define w where "w = v\<lparr>in_w := in_e v\<rparr>"
      have e: "edit c (line s) = (d @ cu @ [word_of_int k], [])"
        using 5 len(2) True by (simp add: edit_def l Let_def k_def[symmetric])
      have cw: "c_len w = c_len v" "c_done w = c_len v" "typed w = typed v"
        by (simp_all add: w_def c_len_def c_done_def typed_def)
      then have "line w = (d @ cu @ [word_of_int k], [])" "cons_ok w"
        using lv v(4) append_take_drop_id[of "c_done v" "typed v"] by (simp_all add: line_def cons_ok_def) (auto simp: w_def)
      moreover have "cons_ok (wakeup1 ChCons w) = cons_ok w" "line (wakeup1 ChCons w) = line w" "procs (wakeup1 ChCons w) = map (wake ChCons) (procs s)"
          "in_r (wakeup1 ChCons w) = in_r s"
        using f by (simp_all add: wakeup1_def cons_ok_def line_def typed_def c_len_def c_done_def w_def)
      moreover have "wakeup ChCons w = Ret () (wakeup1 ChCons w)" using assms(2) f by (simp add: wakeup_run w_def)
      moreover have "consoleintr_char c s = wakeup ChCons w" using True full step by (auto simp: w_def)
      ultimately show ?thesis using e f by (simp add: commits_def l w_def)
    qed
  qed
qed

text \<open>A sequence of characters, and whether one of them gives the readers something.\<close>

fun edits :: "int list \<Rightarrow> u8 list \<times> u8 list \<Rightarrow> u8 list \<times> u8 list" where
  "edits [] l = l"
| "edits (c # cs) l = edits cs (edit c l)"

lemma wake_wake [simp]: "wake ch (wake ch p) = wake ch p"
  by (simp add: wake_def)

lemma edit_grows: "\<exists>more. fst (edit c l) = fst l @ more"
  by (cases l) (auto simp: edit_def Let_def)

lemma edits_grow: "\<exists>more. fst (edits cs l) = fst l @ more"
proof (induction cs arbitrary: l)
  case (Cons c cs)
  then show ?case using edit_grows[of c l] Cons[of "edit c l"] by (metis append.assoc edits.simps(2))
qed simp

lemma typing:
  "\<lbrakk>cons_ok s; LkPtable \<notin> set (held s)\<rbrakk>
   \<Longrightarrow> \<exists>t. for_each consoleintr_char cs s = Ret () t \<and> cons_ok t \<and> line t = edits cs (line s) \<and> held t = held s \<and> in_r t = in_r s
     \<and> procs t = (if fst (edits cs (line s)) \<noteq> fst (line s) then map (wake ChCons) (procs s) else procs s)"
proof (induction cs arbitrary: s)
  case Nil
  then show ?case by simp
next
  case (Cons c cs)
  obtain u where u: "consoleintr_char c s = Ret () u" "cons_ok u" "line u = edit c (line s)" "held u = held s" "in_r u = in_r s"
    "procs u = (if commits c (line s) then map (wake ChCons) (procs s) else procs s)"
    using consoleintr_char_edit[OF Cons.prems] by blast
  obtain t where t: "for_each consoleintr_char cs u = Ret () t" "cons_ok t" "line t = edits cs (line u)" "held t = held u" "in_r t = in_r u"
    "procs t = (if fst (edits cs (line u)) \<noteq> fst (line u) then map (wake ChCons) (procs u) else procs u)"
    using Cons.IH[of u] u(2,4) Cons.prems(2) by auto
  obtain m where m: "fst (edit c (line s)) = fst (line s) @ m" using edit_grows by blast
  obtain n where n: "fst (edits cs (edit c (line s))) = fst (line s) @ m @ n" using edits_grow[of cs "edit c (line s)"] m by auto
  show ?case using u t m n by (auto simp: commits_def comp_def)
qed

text \<open>C14: The console is a line editor: whatever characters an interrupt brings, \<open>consoleintr\<close> does not panic, keeps the ring buffer and the cursor
  in their bounds, and leaves in the buffer exactly what \<open>edit\<close> makes of them one after the other: the readers'
  part and the line that is still edited.  It wakes the processes that wait for input exactly when the readers' part grew.\<close>

theorem console_edits:
  assumes "cons_ok s" and "LkPtable \<notin> set (held s)" and "LkCons \<notin> set (held s)" and "16 \<notin> set (takeWhile (\<lambda>c. c \<ge> 0) cs)"
  defines "l \<equiv> edits (takeWhile (\<lambda>c. c \<ge> 0) cs) (line s)"
  shows "returns (consoleintr pcs cs s) (\<lambda>_ t. cons_ok t \<and> line t = l \<and> held t = held s \<and>
    procs t = (if fst l \<noteq> fst (line s) then map (wake ChCons) (procs s) else procs s))"
proof -
  let ?s = "s\<lparr>held := LkCons # held s\<rparr>"
  have f: "cons_ok ?s = cons_ok s" "line ?s = line s" by (simp_all add: cons_ok_def line_def typed_def c_len_def c_done_def)
  obtain t where t: "for_each consoleintr_char (takeWhile (\<lambda>c. c \<ge> 0) cs) ?s = Ret () t" "cons_ok t" "line t = l" "held t = LkCons # held s"
    "procs t = (if fst l \<noteq> fst (line s) then map (wake ChCons) (procs s) else procs s)"
    using typing[of ?s "takeWhile (\<lambda>c. c \<ge> 0) cs"] assms(1,2) f by (auto simp: l_def)
  have g: "cons_ok (t\<lparr>held := held s\<rparr>) = cons_ok t" "line (t\<lparr>held := held s\<rparr>) = line t"
    by (simp_all add: cons_ok_def line_def typed_def c_len_def c_done_def)
  show ?thesis
    using assms(3,4) t g by (simp add: consoleintr_def Let_def acquire_free release_head)
qed

subsection \<open>Reading the line\<close>

lemma take_char:
  assumes "cons_ok s" and "in_r s \<noteq> in_w s"
  defines "t \<equiv> s\<lparr>in_r := in_r s + 1\<rparr>"
  shows "cons_ok t" "fst (line s) = in_buf s ! unat (in_r s mod of_nat INPUT_BUF) # fst (line t)" "snd (line t) = snd (line s)"
proof -
  have "c_done s \<noteq> 0" using assms(2) by (auto simp: c_done_def unat_eq_0)
  then obtain d where d: "c_done s = Suc d" by (cases "c_done s") auto
  then obtain n where n: "c_len s = Suc n" using assms(1) by (cases "c_len s") (auto simp: cons_ok_def)
  have b: "n \<le> 128" "d \<le> n" using assms(1) d n by (simp_all add: cons_ok_def)
  have "in_e t - in_r t = of_nat n" "in_w t - in_r t = of_nat d" using e_is[of s] by (simp_all add: t_def n d)
  then have t: "c_len t = n" "c_done t = d" using small_len[of _ n] small_len[of _ d] b by (simp_all add: c_len_def c_done_def)
  then show "cons_ok t" using assms(1) b by (simp add: cons_ok_def) (simp add: t_def)
  have sl: "(unat (in_r t) + k) mod 128 = (unat (in_r s) + Suc k) mod 128" for k
    using slot128[of "in_r s" "Suc k"] slot128[of "in_r t" k] by (simp add: t_def add.assoc)
  have r: "typed t = ring (in_buf s) (in_r t) n" by (simp add: typed_def t) (simp add: t_def)
  have "typed s = in_buf s ! (unat (in_r s) mod 128) # typed t"
    unfolding r by (simp add: typed_def ring_def n map_upt_Suc sl del: upt_Suc)
  then show "fst (line s) = in_buf s ! unat (in_r s mod of_nat INPUT_BUF) # fst (line t)" "snd (line t) = snd (line s)"
    by (simp_all add: line_def d t INPUT_BUF_def unat_mod_distrib)
qed

lemma empty_line: "cons_ok s \<Longrightarrow> in_r s = in_w s \<longleftrightarrow> fst (line s) = []"
  using line_len(1)[of s] by (auto simp: c_done_def unat_eq_0)


definition demo_consst :: consst where
  "demo_consst = filest.extend (pipest.extend demo_pipest \<lparr>files = []\<rparr>)
     \<lparr>cons_locking = True, panicked = False, crt = \<lambda>_. 0, cursor = 0, uart = [], in_buf = replicate 128 0, in_r = 0, in_w = 0, in_e = 0\<rparr>"

lemma demo_consst_fields [simp]:
  "held demo_consst = []" "in_buf demo_consst = replicate 128 0" "in_r demo_consst = 0" "in_w demo_consst = 0" "in_e demo_consst = 0"
  "cursor demo_consst = 0" "panicked demo_consst = False" "procs demo_consst = [demo_proc RUNNING 1 10]"
  using demo_pipest_fields
  by (simp_all add: demo_consst_def filest.defs pipest.defs demo_pipest_def fsst.defs demo_fsst_def lgst.defs demo_lgst_def bst.defs
    demo_bst_def demo_mst_def demo_slst_def demo_kst_def kst.defs slst.defs mst.defs)

lemma demo_consst_ok: "cons_ok demo_consst" "line demo_consst = ([], [])"
  by (simp_all add: cons_ok_def c_len_def c_done_def line_def typed_def ring_def)

text \<open>An \<^verbatim>\<open>h\<close>, an \<^verbatim>\<open>x\<close>, a backspace, an \<^verbatim>\<open>i\<close> and return.\<close>

theorem console_edits_witness:
  "returns (consoleintr (\<lambda>_. []) [104, 120, 8, 105, 13, -1] demo_consst) (\<lambda>_ t. cons_ok t \<and> line t = ([104, 105, 10], []))"
proof -
  have "edits (takeWhile (\<lambda>c. c \<ge> 0) [104, 120, 8, 105, 13, -1]) (line demo_consst) = ([104, 105, 10], [])"
    by (simp add: demo_consst_ok edit_def)
  then show ?thesis
    using console_edits[of demo_consst "[104, 120, 8, 105, 13, -1]" "\<lambda>_. []"] by (auto simp: demo_consst_ok elim!: returns_mono)
qed

definition demo_read :: consst where
  "demo_read = demo_consst\<lparr>in_buf := [104, 105, 10] @ replicate 125 0, in_w := 3, in_e := 3\<rparr>"

lemma demo_read_line: "cons_ok demo_read" "fst (line demo_read) = [104, 105] @ 10 # []"
proof -
  have e: "c_len demo_read = 3" "c_done demo_read = 3" by (simp_all add: demo_read_def c_len_def c_done_def)
  have "[0..<3] = [0, 1, 2 :: nat]" by (simp add: upt_rec)
  then have t: "typed demo_read = [104, 105, 10]" by (simp add: typed_def ring_def e) (simp add: demo_read_def)
  show "cons_ok demo_read" by (simp add: cons_ok_def e) (simp add: demo_read_def)
  show "fst (line demo_read) = [104, 105] @ 10 # []" by (simp add: line_def t e)
qed


end
