(* ===== verification/Args.thy ===== *)
theory Args
  imports Process
begin

text \<open>
  \<^verbatim>\<open>syscall.c\<close>: fetching the arguments of a system call, and \<open>sysproc.c\<close> and the calls of \<^verbatim>\<open>proc.c\<close> that use them.

  The kernel runs on the page table of the process that made the call, and reads and writes its memory at user addresses:
  \<open>user_addr\<close> is the translation by the page table in \<^verbatim>\<open>cr3\<close>.  A page fault in the kernel ends in
  \<^verbatim>\<open>panic("trap")\<close>.  An \<^verbatim>\<open>int\<close> that the C code returns through a pointer is in the result, an option that is
  \<^term>\<open>None\<close> for -1.  A string argument is given with its bytes: the process sleeps in its own call, so
  they cannot change before their use.
\<close>

subsection \<open>User memory\<close>

definition user_addr :: "bool \<Rightarrow> u32 \<Rightarrow> 'z mst_scheme \<Rightarrow> u32 option" where
  "user_addr wr va s =
     (let e = pte_of (mem s) (P2V (cr3 s)) va in
      if present e \<and> (wr \<longrightarrow> e AND PTE_W \<noteq> 0) then Some (tab e + (va - PGROUNDDOWN va)) else None)"

fun get_user :: "u32 \<Rightarrow> nat \<Rightarrow> 'z mst_scheme \<Rightarrow> (u8 list, 'z mst_scheme) outcome" where
  "get_user va 0 s = Ret [] s"
| "get_user va (Suc n) s =
     (case user_addr False va s of
        None \<Rightarrow> Panic ''trap''
      | Some a \<Rightarrow> bnd (get_user (va + 1) n s) (\<lambda>bs s. Ret (mem s a # bs) s))"

fun put_user :: "u32 \<Rightarrow> u8 list \<Rightarrow> 'z mst_scheme \<Rightarrow> (unit, 'z mst_scheme) outcome" where
  "put_user va [] s = Ret () s"
| "put_user va (b # bs) s =
     (case user_addr True va s of
        None \<Rightarrow> Panic ''trap''
      | Some a \<Rightarrow> put_user (va + 1) bs (s\<lparr>mem := (mem s)(a := b)\<rparr>))"

definition bytes32 :: "u32 \<Rightarrow> u8 list" where
  "bytes32 v = put32 (replicate 4 0) 0 v"

definition bytes16 :: "u16 \<Rightarrow> u8 list" where
  "bytes16 v = put16 (replicate 2 0) 0 v"

subsection \<open>Arguments\<close>

definition fetchint :: "u32 \<Rightarrow> 'z mst_scheme \<Rightarrow> (u32 option, 'z mst_scheme) outcome" where
  "fetchint addr s =
     (let len = sz (procs s ! myproc s) in
      if addr \<ge> len \<or> addr + 4 > len then Ret None s
      else bnd (get_user addr 4 s) (\<lambda>bs s. Ret (Some (get32 bs 0)) s))"

text \<open>The loop of \<open>fetchstr\<close>, \<open>n\<close> bytes before the end of the process's memory.\<close>

fun fetchstr_loop :: "u32 \<Rightarrow> nat \<Rightarrow> 'z mst_scheme \<Rightarrow> (u8 list option, 'z mst_scheme) outcome" where
  "fetchstr_loop p 0 s = Ret None s"
| "fetchstr_loop p (Suc n) s =
     (case user_addr False p s of
        None \<Rightarrow> Panic ''trap''
      | Some a \<Rightarrow>
          if mem s a = 0 then Ret (Some []) s
          else bnd (fetchstr_loop (p + 1) n s) (\<lambda>r s. Ret (map_option ((#) (mem s a)) r) s))"

definition fetchstr :: "u32 \<Rightarrow> 'z mst_scheme \<Rightarrow> (u8 list option, 'z mst_scheme) outcome" where
  "fetchstr addr s =
     (let len = sz (procs s ! myproc s) in
      if addr \<ge> len then Ret None s else fetchstr_loop addr (unat len - unat addr) s)"

definition argint :: "nat \<Rightarrow> 'z mst_scheme \<Rightarrow> (u32 option, 'z mst_scheme) outcome" where
  "argint n s = fetchint (tf_esp (tf (procs s ! myproc s)) + 4 + 4 * of_nat n) s"

definition argptr :: "nat \<Rightarrow> u32 \<Rightarrow> 'z mst_scheme \<Rightarrow> (u32 option, 'z mst_scheme) outcome" where
  "argptr n cnt s =
     bnd (argint n s) (\<lambda>r s.
     case r of
       None \<Rightarrow> Ret None s
     | Some i \<Rightarrow>
         let len = sz (procs s ! myproc s) in
         if sint cnt < 0 \<or> i \<ge> len \<or> i + cnt > len then Ret None s else Ret (Some i) s)"

definition argstr :: "nat \<Rightarrow> 'z mst_scheme \<Rightarrow> (u8 list option, 'z mst_scheme) outcome" where
  "argstr n s =
     bnd (argint n s) (\<lambda>r s.
     case r of None \<Rightarrow> Ret None s | Some addr \<Rightarrow> fetchstr addr s)"

text \<open>A call whose first step fetches an argument, and returns -1 when that fails.\<close>

definition with_arg :: "('a option, 's) outcome \<Rightarrow> ('a \<Rightarrow> 's \<Rightarrow> (int, 's) outcome) \<Rightarrow> (int, 's) outcome" where
  "with_arg m k = bnd m (\<lambda>r s. case r of None \<Rightarrow> Ret (-1) s | Some x \<Rightarrow> k x s)"

lemma with_arg_simps [simp]:
  "with_arg (Ret None s) k = Ret (-1) s" "with_arg (Ret (Some x) s) k = k x s"
  "with_arg (Panic m) k = Panic m" "with_arg (Sleep s) k = Sleep s"
  by (simp_all add: with_arg_def)

subsection \<open>Processes and time\<close>

definition sys_fork :: "'z procst_scheme \<Rightarrow> (int, 'z procst_scheme) outcome" where
  "sys_fork s = fork s"

definition sys_exit :: "'z procst_scheme \<Rightarrow> (int, 'z procst_scheme) outcome" where
  "sys_exit s = bnd (exit s) (\<lambda>_ s. Ret 0 s)"

definition sys_wait :: "'z procst_scheme \<Rightarrow> (int, 'z procst_scheme) outcome" where
  "sys_wait s = wait s"

definition sys_kill :: "'z procst_scheme \<Rightarrow> (int, 'z procst_scheme) outcome" where
  "sys_kill s = with_arg (argint 0 s) (\<lambda>p s. kill (sint p) s)"

definition sys_getpid :: "'z procst_scheme \<Rightarrow> (int, 'z procst_scheme) outcome" where
  "sys_getpid s = Ret (pid (procs s ! myproc s)) s"

definition sys_sbrk :: "'z procst_scheme \<Rightarrow> (int, 'z procst_scheme) outcome" where
  "sys_sbrk s = with_arg (argint 0 s) (\<lambda>n s.
     let addr = sint (sz (procs s ! myproc s)) in
     bnd (growproc n s) (\<lambda>r s. Ret (if r < 0 then -1 else addr) s))"

text \<open>The loop of \<open>sys_sleep\<close>: the comparison of a \<^verbatim>\<open>uint\<close> with the \<^verbatim>\<open>int\<close> \<open>n\<close> is unsigned.\<close>

definition sys_sleep_loop :: "u32 \<Rightarrow> u32 \<Rightarrow> 'z procst_scheme \<Rightarrow> (int, 'z procst_scheme) outcome" where
  "sys_sleep_loop n ticks0 s =
     (if ticks s - ticks0 < n then
        if killed (procs s ! myproc s) then bnd (release LkTicks s) (\<lambda>_ s. Ret (-1) s)
        else wait_in (sleep ChTicks (Some LkTicks) s)
      else bnd (release LkTicks s) (\<lambda>_ s. Ret 0 s))"

definition sys_sleep :: "'z procst_scheme \<Rightarrow> (int, 'z procst_scheme) outcome" where
  "sys_sleep s = with_arg (argint 0 s) (\<lambda>n s.
     bnd (acquire LkTicks s) (\<lambda>_ s. sys_sleep_loop n (ticks s) s))"

definition sys_sleep_resume :: "u32 \<Rightarrow> u32 \<Rightarrow> 'z procst_scheme \<Rightarrow> (int, 'z procst_scheme) outcome" where
  "sys_sleep_resume n ticks0 s = bnd (sleep_return LkTicks s) (\<lambda>_ s. sys_sleep_loop n ticks0 s)"

definition sys_uptime :: "'z procst_scheme \<Rightarrow> (int, 'z procst_scheme) outcome" where
  "sys_uptime s =
     bnd (acquire LkTicks s) (\<lambda>_ s.
     let xticks = ticks s in
     bnd (release LkTicks s) (\<lambda>_ s. Ret (sint xticks) s))"

definition sys_hello :: "'z procst_scheme \<Rightarrow> (int, 'z procst_scheme) outcome" where
  "sys_hello s = bnd (cprintf (Some (ascii ''Hello'' @ [10])) [] s) (\<lambda>_ s. Ret 1 s)"

definition sys_helloYou :: "'z procst_scheme \<Rightarrow> (int, 'z procst_scheme) outcome" where
  "sys_helloYou s = with_arg (argstr 0 s) (\<lambda>str s.
     bnd (cprintf (Some (ascii ''%s'' @ [10])) [CStr (Some str)] s) (\<lambda>_ s. Ret 1 s))"

definition sys_welcomeFunction :: "'z procst_scheme \<Rightarrow> (int, 'z procst_scheme) outcome" where
  "sys_welcomeFunction s = with_arg (argint 0 s) (\<lambda>fn s.
     bnd (cprintf (Some (ascii ''I'' @ [39] @ ascii ''m in welcome function'' @ [10])) []
       (upd_proc (myproc s) (\<lambda>p. p\<lparr>executionAddress := fn\<rparr>) s)) (\<lambda>_ s.
     Ret 0 s))"

definition sys_welcomeDone :: "'z procst_scheme \<Rightarrow> (int, 'z procst_scheme) outcome" where
  "sys_welcomeDone s =
     bnd (cprintf (Some (ascii ''I'' @ [39] @ ascii ''m in welcome done, ready to jump to the initial execution point'' @ [10])) [] s) (\<lambda>_ s.
     Ret 0 (upd_proc (myproc s) (\<lambda>p. p\<lparr>tf := (tf p)\<lparr>tf_eip := executionAddress p\<rparr>\<rparr>) s))"

definition sys_setprio :: "'z procst_scheme \<Rightarrow> (int, 'z procst_scheme) outcome" where
  "sys_setprio s = with_arg (argint 0 s) (\<lambda>p s.
     Ret 0 (upd_proc (myproc s) (\<lambda>q. q\<lparr>priority := (if MAX_PRIORITY > sint p then sint p else MAX_PRIORITY)\<rparr>) s))"

subsection \<open>Information about a process\<close>

text \<open>The parent's pid.  For a process other than the first that has no parent, the C code reads the field \<^verbatim>\<open>pid\<close>, at
  offset 16, of a null pointer: that is the user's own memory.\<close>

definition get_ppid :: "int \<Rightarrow> nat \<Rightarrow> 'z mst_scheme \<Rightarrow> (u32, 'z mst_scheme) outcome" where
  "get_ppid q i s =
     (if q = 1 then Ret 0 s
      else
        (case parent (procs s ! i) of
           Some j \<Rightarrow> Ret (word_of_int (pid (procs s ! j))) s
         | None \<Rightarrow> bnd (get_user 16 4 s) (\<lambda>bs s. Ret (get32 bs 0) s)))"

definition put_info :: "int \<Rightarrow> u32 \<Rightarrow> nat \<Rightarrow> 'z mst_scheme \<Rightarrow> (unit, 'z mst_scheme) outcome" where
  "put_info q addr i s =
     (if pid (procs s ! i) \<noteq> q then Ret () s
      else
        bnd (get_ppid q i s) (\<lambda>pp s.
        bnd (put_user addr (bytes32 pp) s) (\<lambda>_ s.
        bnd (put_user (addr + 4) (bytes32 (sz (procs s ! i))) s) (\<lambda>_ s.
        bnd (put_user (addr + 8) (bytes32 (word_of_int (contextswitch (procs s ! i)))) s) (\<lambda>_ s.
        put_user (addr + 12) (cstr (name (procs s ! i)) @ [0]) s)))))"

definition sys_getProcInfo :: "'z procst_scheme \<Rightarrow> (int, 'z procst_scheme) outcome" where
  "sys_getProcInfo s = with_arg (argint 0 s) (\<lambda>q s.
     with_arg (argptr 1 28 s) (\<lambda>addr s.
     bnd (acquire LkPtable s) (\<lambda>_ s.
     bnd (for_each (put_info (sint q) addr) [0..<length (procs s)] s) (\<lambda>_ s.
     bnd (release LkPtable s) (\<lambda>_ s.
     Ret 0 s)))))"

end
