(* ===== verification/Sysfile.thy ===== *)
theory Sysfile
  imports Args
begin

text \<open>
  \<^verbatim>\<open>sysfile.c\<close> but for \<open>sys_exec\<close>: the system calls on files and directories.  The device table is the one of theory
  Console.  A pointer to a file or an inode that may be null is an option; the \<^verbatim>\<open>goto bad\<close> of a function is the
  definition with \<open>bad\<close> in its name.
\<close>

definition O_RDONLY :: u32 where "O_RDONLY = 0"
definition O_WRONLY :: u32 where "O_WRONLY = 1"
definition O_RDWR :: u32 where "O_RDWR = 2"
definition O_CREATE :: u32 where "O_CREATE = 0x200"

subsection \<open>File descriptors\<close>

text \<open>The descriptor and its file.\<close>

definition argfd :: "nat \<Rightarrow> 'z procst_scheme \<Rightarrow> ((nat \<times> nat) option, 'z procst_scheme) outcome" where
  "argfd n s =
     bnd (argint n s) (\<lambda>r s.
     case r of
       None \<Rightarrow> Ret None s
     | Some fd \<Rightarrow>
         if sint fd < 0 \<or> sint fd \<ge> int NOFILE then Ret None s
         else (case ofile (procs s ! myproc s) ! nat (sint fd) of
                 None \<Rightarrow> Ret None s
               | Some f \<Rightarrow> Ret (Some (nat (sint fd), f)) s))"

definition set_fd :: "nat \<Rightarrow> nat option \<Rightarrow> 'z kst_scheme \<Rightarrow> 'z kst_scheme" where
  "set_fd fd f s = upd_proc (myproc s) (\<lambda>p. p\<lparr>ofile := (ofile p)[fd := f]\<rparr>) s"

definition fdalloc :: "nat \<Rightarrow> 'z procst_scheme \<Rightarrow> (nat option, 'z procst_scheme) outcome" where
  "fdalloc f s =
     (case find_index (\<lambda>x. x = None) (ofile (procs s ! myproc s)) of
        Some fd \<Rightarrow> Ret (Some fd) (set_fd fd (Some f) s)
      | None \<Rightarrow> Ret None s)"

definition sys_dup :: "'z procst_scheme \<Rightarrow> (int, 'z procst_scheme) outcome" where
  "sys_dup s = with_arg (argfd 0 s) (\<lambda>(_, f) s.
     with_arg (fdalloc f s) (\<lambda>fd s.
     bnd (filedup f s) (\<lambda>_ s. Ret (int fd) s)))"

definition sys_read :: "'z procst_scheme \<Rightarrow> (int, 'z procst_scheme) outcome" where
  "sys_read s = with_arg (argfd 0 s) (\<lambda>(_, f) s.
     with_arg (argint 2 s) (\<lambda>n s.
     with_arg (argptr 1 n s) (\<lambda>p s.
     bnd (fileread devsw_read f (sint n) s) (\<lambda>(r, bs) s.
     bnd (put_user p bs s) (\<lambda>_ s.
     Ret r s)))))"

definition sys_write :: "'z procst_scheme \<Rightarrow> (int, 'z procst_scheme) outcome" where
  "sys_write s = with_arg (argfd 0 s) (\<lambda>(_, f) s.
     with_arg (argint 2 s) (\<lambda>n s.
     with_arg (argptr 1 n s) (\<lambda>p s.
     bnd (get_user p (unat n) s) (\<lambda>bs s.
     filewrite devsw_write f bs s))))"

definition sys_close :: "'z procst_scheme \<Rightarrow> (int, 'z procst_scheme) outcome" where
  "sys_close s = with_arg (argfd 0 s) (\<lambda>(fd, f) s.
     bnd (fileclose f (set_fd fd None s)) (\<lambda>_ s. Ret 0 s))"

text \<open>\<open>stati\<close> stores the fields of \<^verbatim>\<open>struct stat\<close> one by one; the padding after a \<^verbatim>\<open>short\<close> keeps its bytes.\<close>

definition put_stat :: "u32 \<Rightarrow> stat \<Rightarrow> 'z mst_scheme \<Rightarrow> (unit, 'z mst_scheme) outcome" where
  "put_stat a st s =
     bnd (put_user (a + 4) (bytes32 (of_nat (st_dev st))) s) (\<lambda>_ s.
     bnd (put_user (a + 8) (bytes32 (st_ino st)) s) (\<lambda>_ s.
     bnd (put_user a (bytes16 (st_type st)) s) (\<lambda>_ s.
     bnd (put_user (a + 12) (bytes16 (st_nlink st)) s) (\<lambda>_ s.
     put_user (a + 16) (bytes32 (st_size st)) s))))"

definition sys_fstat :: "'z procst_scheme \<Rightarrow> (int, 'z procst_scheme) outcome" where
  "sys_fstat s = with_arg (argfd 0 s) (\<lambda>(_, f) s.
     with_arg (argptr 1 20 s) (\<lambda>a s.
     bnd (filestat f s) (\<lambda>(r, st) s.
     bnd (case st of None \<Rightarrow> Ret () s | Some st \<Rightarrow> put_stat a st s) (\<lambda>_ s.
     Ret r s))))"

subsection \<open>Links\<close>

text \<open>End the transaction with result -1.\<close>

definition fail_op :: "'z procst_scheme \<Rightarrow> (int, 'z procst_scheme) outcome" where
  "fail_op s = bnd (end_op s) (\<lambda>_ s. Ret (-1) s)"

definition name_buf :: "u8 list" where
  "name_buf = replicate DIRSIZ 0"

definition sys_link_bad :: "nat \<Rightarrow> 'z procst_scheme \<Rightarrow> (int, 'z procst_scheme) outcome" where
  "sys_link_bad ip s =
     bnd (ilock (Some ip) s) (\<lambda>_ s.
     bnd (iupdate ip (upd_inode ip (\<lambda>i. i\<lparr>i_nlink := i_nlink i - 1\<rparr>) s)) (\<lambda>_ s.
     bnd (iunlockput (Some ip) s) (\<lambda>_ s.
     fail_op s)))"

definition sys_link :: "'z procst_scheme \<Rightarrow> (int, 'z procst_scheme) outcome" where
  "sys_link s = with_arg (argstr 0 s) (\<lambda>old s. with_arg (argstr 1 s) (\<lambda>new s.
     bnd (begin_op s) (\<lambda>_ s.
     bnd (namei devsw_read old s) (\<lambda>r s.
     case r of
       None \<Rightarrow> fail_op s
     | Some ip \<Rightarrow>
         bnd (ilock (Some ip) s) (\<lambda>_ s.
         if i_type (inodes s ! ip) = T_DIR then bnd (iunlockput (Some ip) s) (\<lambda>_ s. fail_op s)
         else
           bnd (iupdate ip (upd_inode ip (\<lambda>i. i\<lparr>i_nlink := i_nlink i + 1\<rparr>) s)) (\<lambda>_ s.
           bnd (iunlock (Some ip) s) (\<lambda>_ s.
           bnd (nameiparent devsw_read new name_buf s) (\<lambda>(r, nm) s.
           case r of
             None \<Rightarrow> sys_link_bad ip s
           | Some dp \<Rightarrow>
               bnd (ilock (Some dp) s) (\<lambda>_ s.
               bnd (if i_dev (inodes s ! dp) \<noteq> i_dev (inodes s ! ip) then Ret (-1) s
                    else dirlink devsw_read devsw_write dp nm (i_inum (inodes s ! ip)) s) (\<lambda>r s.
               if r < 0 then bnd (iunlockput (Some dp) s) (\<lambda>_ s. sys_link_bad ip s)
               else
                 bnd (iunlockput (Some dp) s) (\<lambda>_ s.
                 bnd (iput ip s) (\<lambda>_ s.
                 bnd (end_op s) (\<lambda>_ s.
                 Ret 0 s)))))))))))))"

fun isdirempty_loop :: "nat \<Rightarrow> u32 list \<Rightarrow> 'z procst_scheme \<Rightarrow> (bool, 'z procst_scheme) outcome" where
  "isdirempty_loop dp [] s = Ret True s"
| "isdirempty_loop dp (off # offs) s =
     bnd (readi devsw_read dp off 16 s) (\<lambda>(r, bs) s.
     if r \<noteq> 16 then Panic ''isdirempty: readi''
     else if d_inum (get_dirent bs) \<noteq> 0 then Ret False s
     else isdirempty_loop dp offs s)"

definition isdirempty :: "nat \<Rightarrow> 'z procst_scheme \<Rightarrow> (bool, 'z procst_scheme) outcome" where
  "isdirempty dp s = isdirempty_loop dp (drop 2 (dir_offs (i_size (inodes s ! dp)))) s"

definition sys_unlink_bad :: "nat \<Rightarrow> 'z procst_scheme \<Rightarrow> (int, 'z procst_scheme) outcome" where
  "sys_unlink_bad dp s = bnd (iunlockput (Some dp) s) (\<lambda>_ s. fail_op s)"

definition sys_unlink :: "'z procst_scheme \<Rightarrow> (int, 'z procst_scheme) outcome" where
  "sys_unlink s = with_arg (argstr 0 s) (\<lambda>path s.
     bnd (begin_op s) (\<lambda>_ s.
     bnd (nameiparent devsw_read path name_buf s) (\<lambda>(r, nm) s.
     case r of
       None \<Rightarrow> fail_op s
     | Some dp \<Rightarrow>
         bnd (ilock (Some dp) s) (\<lambda>_ s.
         if namecmp nm [46] = 0 \<or> namecmp nm [46, 46] = 0 then sys_unlink_bad dp s
         else
           bnd (dirlookup devsw_read dp nm s) (\<lambda>r s.
           case r of
             None \<Rightarrow> sys_unlink_bad dp s
           | Some (ip, off) \<Rightarrow>
               bnd (ilock (Some ip) s) (\<lambda>_ s.
               if sint (i_nlink (inodes s ! ip)) < 1 then Panic ''unlink: nlink < 1''
               else
                 bnd (if i_type (inodes s ! ip) = T_DIR then isdirempty ip s else Ret True s) (\<lambda>e s.
                 if \<not> e then bnd (iunlockput (Some ip) s) (\<lambda>_ s. sys_unlink_bad dp s)
                 else
                   bnd (writei devsw_write dp (replicate 16 0) off s) (\<lambda>r s.
                   if r \<noteq> 16 then Panic ''unlink: writei''
                   else
                     bnd (if i_type (inodes s ! ip) = T_DIR
                          then iupdate dp (upd_inode dp (\<lambda>i. i\<lparr>i_nlink := i_nlink i - 1\<rparr>) s)
                          else Ret () s) (\<lambda>_ s.
                     bnd (iunlockput (Some dp) s) (\<lambda>_ s.
                     bnd (iupdate ip (upd_inode ip (\<lambda>i. i\<lparr>i_nlink := i_nlink i - 1\<rparr>) s)) (\<lambda>_ s.
                     bnd (iunlockput (Some ip) s) (\<lambda>_ s.
                     bnd (end_op s) (\<lambda>_ s.
                     Ret 0 s)))))))))))))"

subsection \<open>Creating and opening\<close>

definition create_new :: "nat \<Rightarrow> u8 list \<Rightarrow> u16 \<Rightarrow> u16 \<Rightarrow> u16 \<Rightarrow> 'z procst_scheme \<Rightarrow> (nat option, 'z procst_scheme) outcome" where
  "create_new dp nm ty major minor s =
     bnd (ialloc (i_dev (inodes s ! dp)) ty s) (\<lambda>ip s.
     bnd (ilock (Some ip) s) (\<lambda>_ s.
     bnd (iupdate ip (upd_inode ip (\<lambda>i. i\<lparr>i_major := major, i_minor := minor, i_nlink := 1\<rparr>) s)) (\<lambda>_ s.
     bnd (if ty = T_DIR then
            bnd (iupdate dp (upd_inode dp (\<lambda>i. i\<lparr>i_nlink := i_nlink i + 1\<rparr>) s)) (\<lambda>_ s.
            bnd (dirlink devsw_read devsw_write ip [46] (i_inum (inodes s ! ip)) s) (\<lambda>r s.
            if r < 0 then Panic ''create dots''
            else
              bnd (dirlink devsw_read devsw_write ip [46, 46] (i_inum (inodes s ! dp)) s) (\<lambda>r s.
              if r < 0 then Panic ''create dots'' else Ret () s)))
          else Ret () s) (\<lambda>_ s.
     bnd (dirlink devsw_read devsw_write dp nm (i_inum (inodes s ! ip)) s) (\<lambda>r s.
     if r < 0 then Panic ''create: dirlink''
     else bnd (iunlockput (Some dp) s) (\<lambda>_ s. Ret (Some ip) s))))))"

definition create :: "u8 list \<Rightarrow> u16 \<Rightarrow> u16 \<Rightarrow> u16 \<Rightarrow> 'z procst_scheme \<Rightarrow> (nat option, 'z procst_scheme) outcome" where
  "create path ty major minor s =
     bnd (nameiparent devsw_read path name_buf s) (\<lambda>(r, nm) s.
     case r of
       None \<Rightarrow> Ret None s
     | Some dp \<Rightarrow>
         bnd (ilock (Some dp) s) (\<lambda>_ s.
         bnd (dirlookup devsw_read dp nm s) (\<lambda>r s.
         case r of
           Some (ip, _) \<Rightarrow>
             bnd (iunlockput (Some dp) s) (\<lambda>_ s.
             bnd (ilock (Some ip) s) (\<lambda>_ s.
             if ty = T_FILE \<and> i_type (inodes s ! ip) = T_FILE then Ret (Some ip) s
             else bnd (iunlockput (Some ip) s) (\<lambda>_ s. Ret None s)))
         | None \<Rightarrow> create_new dp nm ty major minor s)))"

definition open_flags :: "u32 \<Rightarrow> nat \<Rightarrow> open_file \<Rightarrow> open_file" where
  "open_flags omode ip g = g\<lparr>f_type := FD_INODE, f_ip := ip, f_off := 0, f_readable := (omode AND O_WRONLY = 0),
     f_writable := (omode AND O_WRONLY \<noteq> 0 \<or> omode AND O_RDWR \<noteq> 0)\<rparr>"

text \<open>\<open>sys_open\<close> from the point where it has the locked inode.\<close>

definition open_inode :: "u32 \<Rightarrow> nat \<Rightarrow> 'z procst_scheme \<Rightarrow> (int, 'z procst_scheme) outcome" where
  "open_inode omode ip s =
     bnd (filealloc s) (\<lambda>r s.
     case r of
       None \<Rightarrow> bnd (iunlockput (Some ip) s) (\<lambda>_ s. fail_op s)
     | Some f \<Rightarrow>
         bnd (fdalloc f s) (\<lambda>r s.
         case r of
           None \<Rightarrow> bnd (fileclose f s) (\<lambda>_ s. bnd (iunlockput (Some ip) s) (\<lambda>_ s. fail_op s))
         | Some fd \<Rightarrow>
             bnd (iunlock (Some ip) s) (\<lambda>_ s.
             bnd (end_op s) (\<lambda>_ s.
             Ret (int fd) (upd_file f (open_flags omode ip) s)))))"

definition sys_open :: "'z procst_scheme \<Rightarrow> (int, 'z procst_scheme) outcome" where
  "sys_open s = with_arg (argstr 0 s) (\<lambda>path s. with_arg (argint 1 s) (\<lambda>omode s.
     bnd (begin_op s) (\<lambda>_ s.
     if omode AND O_CREATE \<noteq> 0 then
       bnd (create path T_FILE 0 0 s) (\<lambda>r s.
       case r of None \<Rightarrow> fail_op s | Some ip \<Rightarrow> open_inode omode ip s)
     else
       bnd (namei devsw_read path s) (\<lambda>r s.
       case r of
         None \<Rightarrow> fail_op s
       | Some ip \<Rightarrow>
           bnd (ilock (Some ip) s) (\<lambda>_ s.
           if i_type (inodes s ! ip) = T_DIR \<and> omode \<noteq> O_RDONLY
           then bnd (iunlockput (Some ip) s) (\<lambda>_ s. fail_op s)
           else open_inode omode ip s)))))"

text \<open>The rest of a call that fails by ending its transaction.\<close>

definition with_op :: "('a option, 'z procst_scheme) outcome \<Rightarrow> ('a \<Rightarrow> 'z procst_scheme \<Rightarrow> (int, 'z procst_scheme) outcome)
  \<Rightarrow> (int, 'z procst_scheme) outcome" where
  "with_op m k = bnd m (\<lambda>r s. case r of None \<Rightarrow> fail_op s | Some x \<Rightarrow> k x s)"

definition close_op :: "nat \<Rightarrow> 'z procst_scheme \<Rightarrow> (int, 'z procst_scheme) outcome" where
  "close_op ip s = bnd (iunlockput (Some ip) s) (\<lambda>_ s. bnd (end_op s) (\<lambda>_ s. Ret 0 s))"

definition sys_mkdir :: "'z procst_scheme \<Rightarrow> (int, 'z procst_scheme) outcome" where
  "sys_mkdir s =
     bnd (begin_op s) (\<lambda>_ s.
     with_op (argstr 0 s) (\<lambda>path s.
     with_op (create path T_DIR 0 0 s) close_op))"

definition sys_mknod :: "'z procst_scheme \<Rightarrow> (int, 'z procst_scheme) outcome" where
  "sys_mknod s =
     bnd (begin_op s) (\<lambda>_ s.
     with_op (argstr 0 s) (\<lambda>path s.
     with_op (argint 1 s) (\<lambda>major s.
     with_op (argint 2 s) (\<lambda>minor s.
     with_op (create path T_DEV (ucast major) (ucast minor) s) close_op))))"

definition sys_chdir :: "'z procst_scheme \<Rightarrow> (int, 'z procst_scheme) outcome" where
  "sys_chdir s =
     bnd (begin_op s) (\<lambda>_ s.
     with_op (argstr 0 s) (\<lambda>path s.
     with_op (namei devsw_read path s) (\<lambda>ip s.
     bnd (ilock (Some ip) s) (\<lambda>_ s.
     if i_type (inodes s ! ip) \<noteq> T_DIR then bnd (iunlockput (Some ip) s) (\<lambda>_ s. fail_op s)
     else
       bnd (iunlock (Some ip) s) (\<lambda>_ s.
       bnd (iput (the (cwd (procs s ! myproc s))) s) (\<lambda>_ s.
       bnd (end_op s) (\<lambda>_ s.
       Ret 0 (upd_proc (myproc s) (\<lambda>p. p\<lparr>cwd := Some ip\<rparr>) s))))))))"

definition sys_pipe :: "'z procst_scheme \<Rightarrow> (int, 'z procst_scheme) outcome" where
  "sys_pipe s = with_arg (argptr 0 8 s) (\<lambda>a s.
     with_arg (pipealloc s) (\<lambda>(rf, wf) s.
     let give_up = (\<lambda>s. bnd (fileclose rf s) (\<lambda>_ s. bnd (fileclose wf s) (\<lambda>_ s. Ret (-1) s))) in
     bnd (fdalloc rf s) (\<lambda>r s.
     case r of
       None \<Rightarrow> give_up s
     | Some fd0 \<Rightarrow>
         bnd (fdalloc wf s) (\<lambda>r s.
         case r of
           None \<Rightarrow> give_up (set_fd fd0 None s)
         | Some fd1 \<Rightarrow>
             bnd (put_user a (bytes32 (of_nat fd0)) s) (\<lambda>_ s.
             bnd (put_user (a + 4) (bytes32 (of_nat fd1)) s) (\<lambda>_ s.
             Ret 0 s))))))"

end
