(* ===== verification/Exec.thy ===== *)
theory Exec
  imports Sysfile
begin

text \<open>
  \<^verbatim>\<open>exec.c\<close>, \<open>loaduvm\<close> of \<^verbatim>\<open>vm.c\<close> and \<open>sys_exec\<close>.

  The structures of \<^verbatim>\<open>elf.h\<close> are decoded from their bytes.  \<open>exec\<close> takes the path and the argument strings without their
  NULs.  \<open>pgdir\<close> is 0 and \<open>ip\<close> \<^term>\<open>None\<close> where the C variables are null at \<^verbatim>\<open>goto bad\<close>.
\<close>

definition ELF_MAGIC :: u32 where "ELF_MAGIC = 0x464C457F"
definition ELF_PROG_LOAD :: u32 where "ELF_PROG_LOAD = 1"

record elfhdr =
  eh_magic :: u32
  eh_elf :: "u8 list"
  eh_type :: u16
  eh_machine :: u16
  eh_version :: u32
  eh_entry :: u32
  eh_phoff :: u32
  eh_shoff :: u32
  eh_flags :: u32
  eh_ehsize :: u16
  eh_phentsize :: u16
  eh_phnum :: u16
  eh_shentsize :: u16
  eh_shnum :: u16
  eh_shstrndx :: u16

record proghdr =
  ph_type :: u32
  ph_off :: u32
  ph_vaddr :: u32
  ph_paddr :: u32
  ph_filesz :: u32
  ph_memsz :: u32
  ph_flags :: u32
  ph_align :: u32

definition get_elfhdr :: "u8 list \<Rightarrow> elfhdr" where
  "get_elfhdr b = \<lparr>eh_magic = get32 b 0, eh_elf = take 12 (drop 4 b), eh_type = get16 b 8, eh_machine = get16 b 9,
     eh_version = get32 b 5, eh_entry = get32 b 6, eh_phoff = get32 b 7, eh_shoff = get32 b 8, eh_flags = get32 b 9,
     eh_ehsize = get16 b 20, eh_phentsize = get16 b 21, eh_phnum = get16 b 22, eh_shentsize = get16 b 23,
     eh_shnum = get16 b 24, eh_shstrndx = get16 b 25\<rparr>"

definition get_proghdr :: "u8 list \<Rightarrow> proghdr" where
  "get_proghdr b = \<lparr>ph_type = get32 b 0, ph_off = get32 b 1, ph_vaddr = get32 b 2, ph_paddr = get32 b 3, ph_filesz = get32 b 4,
     ph_memsz = get32 b 5, ph_flags = get32 b 6, ph_align = get32 b 7\<rparr>"

subsection \<open>Loading a segment\<close>

text \<open>The comparison of the result of \<open>readi\<close> with the \<^verbatim>\<open>uint\<close> \<open>n\<close> is one of 32-bit words.\<close>

fun loaduvm_loop :: "nat \<Rightarrow> u32 \<Rightarrow> u32 \<Rightarrow> nat \<Rightarrow> u32 \<Rightarrow> u32 \<Rightarrow> u32 \<Rightarrow> 'z procst_scheme \<Rightarrow> (int, 'z procst_scheme) outcome" where
  "loaduvm_loop 0 d addr ip off len i s = Sleep s"
| "loaduvm_loop (Suc fuel) d addr ip off len i s =
     (if \<not> i < len then Ret 0 s
      else
        bnd (walkpgdir d (addr + i) False s) (\<lambda>pte s.
        if pte = 0 then Panic ''loaduvm: address should exist''
        else
          let pa = PTE_ADDR (load32 (mem s) pte); n = (if len - i < PGSIZE then len - i else PGSIZE) in
          bnd (readi devsw_read ip (off + i) n s) (\<lambda>(r, bs) s.
          let s = s\<lparr>mem := store_bytes (mem s) (P2V pa) bs\<rparr> in
          if word_of_int r \<noteq> n then Ret (-1) s
          else loaduvm_loop fuel d addr ip off len (i + PGSIZE) s)))"

definition loaduvm :: "u32 \<Rightarrow> u32 \<Rightarrow> nat \<Rightarrow> u32 \<Rightarrow> u32 \<Rightarrow> 'z procst_scheme \<Rightarrow> (int, 'z procst_scheme) outcome" where
  "loaduvm d addr ip off len s =
     (if addr mod PGSIZE \<noteq> 0 then Panic ''loaduvm: addr must be page aligned''
      else loaduvm_loop page_fuel d addr ip off len 0 s)"

subsection \<open>exec\<close>

definition exec_bad :: "u32 \<Rightarrow> nat option \<Rightarrow> 'z procst_scheme \<Rightarrow> (int, 'z procst_scheme) outcome" where
  "exec_bad d ip s =
     bnd (if d \<noteq> 0 then freevm d s else Ret () s) (\<lambda>_ s.
     bnd (case ip of None \<Rightarrow> Ret () s | Some _ \<Rightarrow> bnd (iunlockput ip s) (\<lambda>_ s. end_op s)) (\<lambda>_ s.
     Ret (-1) s))"

text \<open>One program header: the new size, or \<^term>\<open>None\<close> for \<^verbatim>\<open>goto bad\<close>.\<close>

definition exec_segment :: "u32 \<Rightarrow> nat \<Rightarrow> u32 \<Rightarrow> u32 \<Rightarrow> 'z procst_scheme \<Rightarrow> (u32 option, 'z procst_scheme) outcome" where
  "exec_segment d ip off len s =
     bnd (readi devsw_read ip off 32 s) (\<lambda>(r, bs) s.
     let ph = get_proghdr bs in
     if r \<noteq> 32 then Ret None s
     else if ph_type ph \<noteq> ELF_PROG_LOAD then Ret (Some len) s
     else if ph_memsz ph < ph_filesz ph then Ret None s
     else if ph_vaddr ph + ph_memsz ph < ph_vaddr ph then Ret None s
     else
       bnd (allocuvm d len (ph_vaddr ph + ph_memsz ph) s) (\<lambda>len s.
       if len = 0 then Ret None s
       else if ph_vaddr ph mod PGSIZE \<noteq> 0 then Ret None s
       else
         bnd (loaduvm d (ph_vaddr ph) ip (ph_off ph) (ph_filesz ph) s) (\<lambda>r s.
         Ret (if r < 0 then None else Some len) s)))"

fun exec_segments :: "u32 \<Rightarrow> nat \<Rightarrow> nat \<Rightarrow> u32 \<Rightarrow> u32 \<Rightarrow> 'z procst_scheme \<Rightarrow> (u32 option, 'z procst_scheme) outcome" where
  "exec_segments d ip 0 off len s = Ret (Some len) s"
| "exec_segments d ip (Suc n) off len s =
     bnd (exec_segment d ip off len s) (\<lambda>r s.
     case r of None \<Rightarrow> Ret None s | Some len \<Rightarrow> exec_segments d ip n (off + 32) len s)"

text \<open>The argument strings go below \<open>sp\<close>; the result is the new \<open>sp\<close> and the addresses of the strings pushed.\<close>

definition push_addr :: "u32 \<Rightarrow> u8 list \<Rightarrow> u32" where
  "push_addr sp str = (sp - (of_nat (strlen str) + 1)) AND NOT 3"

fun push_args :: "u32 \<Rightarrow> nat \<Rightarrow> u32 \<Rightarrow> u8 list list \<Rightarrow> 'z procst_scheme \<Rightarrow> ((u32 \<times> u32 list) option, 'z procst_scheme) outcome" where
  "push_args d argc sp [] s = Ret (Some (sp, [])) s"
| "push_args d argc sp (str # argv) s =
     (if argc \<ge> MAXARG then Ret None s
      else
        let sp = push_addr sp str in
        bnd (copyout d sp (cstr str @ [0]) s) (\<lambda>r s.
        if r < 0 then Ret None s
        else
          bnd (push_args d (argc + 1) sp argv s) (\<lambda>r s.
          Ret (map_option (\<lambda>(end_sp, us). (end_sp, sp # us)) r) s)))"

definition ustack_of :: "u32 \<Rightarrow> u32 list \<Rightarrow> u32 list" where
  "ustack_of sp us = [0xffffffff, of_nat (length us), sp - (of_nat (length us) + 1) * 4] @ us @ [0]"

text \<open>The part of the path after its last slash.\<close>

fun last_elem :: "u8 list \<Rightarrow> u8 list \<Rightarrow> u8 list" where
  "last_elem cur_last [] = cur_last"
| "last_elem cur_last (c # cs) = (if c = 0 then cur_last else last_elem (if c = slash then cs else cur_last) cs)"

definition exec_commit :: "u8 list \<Rightarrow> u32 \<Rightarrow> u32 \<Rightarrow> u32 \<Rightarrow> u32 \<Rightarrow> 'z procst_scheme \<Rightarrow> (int, 'z procst_scheme) outcome" where
  "exec_commit path d len entry sp s =
     (let me = myproc s; old = pgdir (procs s ! me);
          s = upd_proc me (\<lambda>p. p\<lparr>name := safestrcpy (name p) (last_elem path path) 16, pgdir := d, sz := len,
                tf := (tf p)\<lparr>tf_eip := entry, tf_esp := sp\<rparr>\<rparr>) s
      in
      bnd (switchuvm me s) (\<lambda>_ s.
      bnd (freevm old s) (\<lambda>_ s.
      Ret 0 s)))"

text \<open>From the point where the program is loaded: two more pages, of which the second is the stack.\<close>

definition exec_stack :: "u8 list \<Rightarrow> u8 list list \<Rightarrow> u32 \<Rightarrow> u32 \<Rightarrow> u32 \<Rightarrow> 'z procst_scheme \<Rightarrow> (int, 'z procst_scheme) outcome" where
  "exec_stack path argv d len entry s =
     bnd (allocuvm d (PGROUNDUP len) (PGROUNDUP len + 2 * PGSIZE) s) (\<lambda>len s.
     if len = 0 then exec_bad d None s
     else
       bnd (clearpteu d (len - 2 * PGSIZE) s) (\<lambda>_ s.
       bnd (push_args d 0 len argv s) (\<lambda>r s.
       case r of
         None \<Rightarrow> exec_bad d None s
       | Some (sp, us) \<Rightarrow>
           let ustack = ustack_of sp us; sp = sp - (3 + of_nat (length us) + 1) * 4 in
           bnd (copyout d sp (concat (map bytes32 ustack)) s) (\<lambda>r s.
           if r < 0 then exec_bad d None s else exec_commit path d len entry sp s))))"

definition exec :: "u8 list \<Rightarrow> u8 list list \<Rightarrow> 'z procst_scheme \<Rightarrow> (int, 'z procst_scheme) outcome" where
  "exec path argv s =
     bnd (begin_op s) (\<lambda>_ s.
     bnd (namei devsw_read path s) (\<lambda>r s.
     case r of
       None \<Rightarrow> bnd (end_op s) (\<lambda>_ s. bnd (cprintf (Some (ascii ''exec: fail'' @ [10])) [] s) (\<lambda>_ s. Ret (-1) s))
     | Some ip \<Rightarrow>
         bnd (ilock (Some ip) s) (\<lambda>_ s.
         bnd (readi devsw_read ip 0 52 s) (\<lambda>(r, bs) s.
         let elf = get_elfhdr bs in
         if r \<noteq> 52 then exec_bad 0 (Some ip) s
         else if eh_magic elf \<noteq> ELF_MAGIC then exec_bad 0 (Some ip) s
         else
           bnd (setupkvm s) (\<lambda>d s.
           if d = 0 then exec_bad 0 (Some ip) s
           else
             bnd (exec_segments d ip (unat (eh_phnum elf)) (eh_phoff elf) 0 s) (\<lambda>r s.
             case r of
               None \<Rightarrow> exec_bad d (Some ip) s
             | Some len \<Rightarrow>
                 bnd (iunlockput (Some ip) s) (\<lambda>_ s.
                 bnd (end_op s) (\<lambda>_ s.
                 exec_stack path argv d len (eh_entry elf) s))))))))"

text \<open>The argument vector in user memory, entry \<open>i\<close> and on.\<close>

function fetch_argv :: "u32 \<Rightarrow> nat \<Rightarrow> 'z procst_scheme \<Rightarrow> (u8 list list option, 'z procst_scheme) outcome" where
  "fetch_argv uargv i s =
     (if i \<ge> MAXARG then Ret None s
      else
        bnd (fetchint (uargv + 4 * of_nat i) s) (\<lambda>r s.
        case r of
          None \<Rightarrow> Ret None s
        | Some uarg \<Rightarrow>
            if uarg = 0 then Ret (Some []) s
            else
              bnd (fetchstr uarg s) (\<lambda>r s.
              case r of
                None \<Rightarrow> Ret None s
              | Some str \<Rightarrow>
                  bnd (fetch_argv uargv (Suc i) s) (\<lambda>r s. Ret (map_option ((#) str) r) s))))"
  by pat_completeness auto
termination
  by (relation "measure (\<lambda>(u, i, s). MAXARG - i)") auto

declare fetch_argv.simps [simp del]

definition sys_exec :: "'z procst_scheme \<Rightarrow> (int, 'z procst_scheme) outcome" where
  "sys_exec s = with_arg (argstr 0 s) (\<lambda>path s. with_arg (argint 1 s) (\<lambda>uargv s.
     with_arg (fetch_argv uargv 0 s) (\<lambda>argv s. exec path argv s)))"

end
