(* ===== verification/Kbd.thy ===== *)
theory Kbd
  imports Process
begin

unbundle bit_operations_syntax

text \<open>
  \<^verbatim>\<open>kbd.c\<close> and the tables of \<^verbatim>\<open>kbd.h\<close>: the translation of scan codes to characters.  The static variable \<^verbatim>\<open>shift\<close> is the
  field \<open>kbd_shift\<close> of the state; the bytes that the controller has ready at an interrupt are an argument.
\<close>

definition SHIFT :: u32 where "SHIFT = 1"
definition CTL :: u32 where "CTL = 2"
definition ALT :: u32 where "ALT = 4"
definition CAPSLOCK :: u32 where "CAPSLOCK = 8"
definition NUMLOCK :: u32 where "NUMLOCK = 16"
definition SCROLLLOCK :: u32 where "SCROLLLOCK = 32"
definition E0ESC :: u32 where "E0ESC = 64"

text \<open>An array of 256 bytes given by its first entries and by designated ones.\<close>

definition key_table :: "u8 list \<Rightarrow> (nat \<times> u8) list \<Rightarrow> u8 list" where
  "key_table xs ds = foldl (\<lambda>t (i, v). t[i := v]) (xs @ replicate (256 - length xs) 0) ds"

definition shiftcode :: "u8 list" where
  "shiftcode = key_table [] [(0x1D, 2), (0x2A, 1), (0x36, 1), (0x38, 4), (0x9D, 2), (0xB8, 4)]"

definition togglecode :: "u8 list" where
  "togglecode = key_table [] [(0x3A, 8), (0x45, 16), (0x46, 32)]"

definition keypad :: "u8 \<Rightarrow> u8 \<Rightarrow> (nat \<times> u8) list" where
  "keypad kp_enter kp_div = [(0x9C, kp_enter), (0xB5, kp_div), (0xC8, 0xE2), (0xD0, 0xE3), (0xC9, 0xE6), (0xD1, 0xE7),
     (0xCB, 0xE4), (0xCD, 0xE5), (0x97, 0xE0), (0xCF, 0xE1), (0xD2, 0xE8), (0xD3, 0xE9)]"

definition keypad_digits :: "u8 list" where
  "keypad_digits = [0, 42, 0, 32] @ replicate 13 0 @ ascii ''789-456+1230.''"

definition normalmap :: "u8 list" where
  "normalmap = key_table ([0, 0x1B] @ ascii ''1234567890-='' @ [8, 9] @ ascii ''qwertyuiop[]'' @ [10, 0] @
     ascii ''asdfghjkl;'' @ [39, 96, 0, 92] @ ascii ''zxcvbnm,./'' @ keypad_digits) (keypad 10 47)"

definition shiftmap :: "u8 list" where
  "shiftmap = key_table ([0, 0x1B] @ ascii ''!@#$%^&*()_+'' @ [8, 9] @ ascii ''QWERTYUIOP{}'' @ [10, 0] @
     ascii ''ASDFGHJKL:'' @ [34, 126, 0, 124] @ ascii ''ZXCVBNM<>?'' @ keypad_digits) (keypad 10 47)"

definition control :: "u8 \<Rightarrow> u8" where
  "control c = c - 64"

definition ctlmap :: "u8 list" where
  "ctlmap = key_table (replicate 16 0 @ map control (ascii ''QWERTYUIOP'') @ [0, 0, 13, 0] @ map control (ascii ''ASDFGHJKL'') @
     [0, 0, 0, 0, control 92] @ map control (ascii ''ZXCVBNM'') @ [0, 0, control 47, 0, 0]) (keypad 13 (control 47))"

definition charcode :: "u8 list list" where
  "charcode = [normalmap, shiftmap, ctlmap, ctlmap]"

text \<open>\<open>kbdgetc\<close> when a byte is ready: the new value of \<^verbatim>\<open>shift\<close> and the result.\<close>

definition capslock :: "u32 \<Rightarrow> u32 \<Rightarrow> u32" where
  "capslock shift c =
     (if shift AND CAPSLOCK \<noteq> 0 then
        (if 97 \<le> c \<and> c \<le> 122 then c + (65 - 97) else if 65 \<le> c \<and> c \<le> 90 then c + (97 - 65) else c)
      else c)"

definition kbdgetc :: "u32 \<Rightarrow> u8 \<Rightarrow> u32 \<times> u32" where
  "kbdgetc shift b =
     (let data = ucast b :: u32 in
      if data = 0xE0 then (shift OR E0ESC, 0)
      else if data AND 0x80 \<noteq> 0 then
        let data = (if shift AND E0ESC \<noteq> 0 then data else data AND 0x7F)
        in (shift AND NOT (ucast (shiftcode ! unat data) OR E0ESC), 0)
      else
        let (data, shift) = (if shift AND E0ESC \<noteq> 0 then (data OR 0x80, shift AND NOT E0ESC) else (data, shift));
            shift = shift OR ucast (shiftcode ! unat data);
            shift = shift XOR ucast (togglecode ! unat data);
            c = ucast (charcode ! unat (shift AND (CTL OR SHIFT)) ! unat data)
        in (shift, capslock shift c))"

text \<open>The characters of the bytes that are ready, up to the -1 of a controller with no more data.\<close>

fun kbd_chars :: "u32 \<Rightarrow> u8 list \<Rightarrow> u32 \<times> int list" where
  "kbd_chars shift [] = (shift, [])"
| "kbd_chars shift (b # bs) =
     (let (shift, c) = kbdgetc shift b; (shift, cs) = kbd_chars shift bs in (shift, sint c # cs))"

record trapst = procst +
  kbd_shift :: u32

definition kbdintr :: "(nat \<Rightarrow> u32 list) \<Rightarrow> u8 list \<Rightarrow> 'z trapst_scheme \<Rightarrow> (unit, 'z trapst_scheme) outcome" where
  "kbdintr pcs bs s =
     (let (shift, cs) = kbd_chars (kbd_shift s) bs
      in consoleintr pcs cs (s\<lparr>kbd_shift := shift\<rparr>))"

text \<open>The bytes that the serial port has received.\<close>

definition uartintr :: "(nat \<Rightarrow> u32 list) \<Rightarrow> u8 list \<Rightarrow> 'z consst_scheme \<Rightarrow> (unit, 'z consst_scheme) outcome" where
  "uartintr pcs bs s = consoleintr pcs (map uint bs) s"

end
