(* ===== verification/Trap.thy ===== *)
theory Trap
  imports Exec Kbd
begin

text \<open>
  \<^verbatim>\<open>syscall.c\<close>: the dispatch of system calls, \<^verbatim>\<open>trap.c\<close>, and \<^verbatim>\<open>main.c\<close>.

  \<open>trap\<close> takes the trap frame that the hardware and \<^verbatim>\<open>trapasm.S\<close> push.  What the hardware gives it besides is in the
  record \<open>hw\<close>: the number of the CPU, the faulting address, the bytes ready at the keyboard controller and at the serial port,
  and the return addresses on kernel stacks.
\<close>

subsection \<open>System calls\<close>

definition NELEM_syscalls :: nat where "NELEM_syscalls = 31"

definition syscalls :: "nat \<Rightarrow> ('z procst_scheme \<Rightarrow> (int, 'z procst_scheme) outcome) option" where
  "syscalls n = (if 1 \<le> n \<and> n < NELEM_syscalls then Some ([
     sys_fork, sys_exit, sys_wait, sys_pipe, sys_read, sys_kill, sys_exec, sys_fstat, sys_chdir, sys_dup,
     sys_getpid, sys_sbrk, sys_sleep, sys_uptime, sys_open, sys_write, sys_mknod, sys_unlink, sys_link, sys_mkdir,
     sys_close, sys_hello, sys_helloYou, sys_getNumProc, sys_getMaxPid, sys_getProcInfo, sys_setprio, sys_getprio,
     sys_welcomeFunction, sys_welcomeDone] ! (n - 1)) else None)"

definition set_eax :: "u32 \<Rightarrow> 'z kst_scheme \<Rightarrow> 'z kst_scheme" where
  "set_eax v s = upd_proc (myproc s) (\<lambda>p. p\<lparr>tf := (tf p)\<lparr>tf_eax := v\<rparr>\<rparr>) s"

definition syscall :: "'z procst_scheme \<Rightarrow> (unit, 'z procst_scheme) outcome" where
  "syscall s =
     (let p = procs s ! myproc s; num = sint (tf_eax (tf p)) in
      case (if num > 0 \<and> num < int NELEM_syscalls then syscalls (nat num) else None) of
        Some f \<Rightarrow> bnd (f s) (\<lambda>r s. Ret () (set_eax (word_of_int r) s))
      | None \<Rightarrow>
          bnd (cprintf (Some (ascii ''%d %s: unknown sys call %d'' @ [10]))
                 [CInt (word_of_int (pid p)), CStr (Some (name p)), CInt (word_of_int num)] s) (\<lambda>_ s.
          Ret () (set_eax (- 1) s)))"

subsection \<open>Traps\<close>

definition T_SYSCALL :: u32 where "T_SYSCALL = 64"
definition T_IRQ0 :: u32 where "T_IRQ0 = 32"
definition IRQ_TIMER :: u32 where "IRQ_TIMER = 0"
definition IRQ_KBD :: u32 where "IRQ_KBD = 1"
definition IRQ_COM1 :: u32 where "IRQ_COM1 = 4"
definition IRQ_IDE :: u32 where "IRQ_IDE = 14"
definition IRQ_SPURIOUS :: u32 where "IRQ_SPURIOUS = 31"

record hw =
  hw_cpu :: nat
  hw_cr2 :: u32
  hw_kbd :: "u8 list"
  hw_uart :: "u8 list"
  hw_pcs :: "nat \<Rightarrow> u32 list"

definition cur_killed :: "'z kst_scheme \<Rightarrow> bool" where
  "cur_killed s = (cur s \<noteq> None \<and> killed (procs s ! myproc s))"

definition clock_tick :: "nat \<Rightarrow> 'z kst_scheme \<Rightarrow> (unit, 'z kst_scheme) outcome" where
  "clock_tick cpu s =
     (if cpu = 0 then
        bnd (acquire LkTicks s) (\<lambda>_ s.
        bnd (wakeup ChTicks (s\<lparr>ticks := ticks s + 1\<rparr>)) (\<lambda>_ s.
        release LkTicks s))
      else Ret () s)"

definition spurious :: "hw \<Rightarrow> trapframe \<Rightarrow> 'z consst_scheme \<Rightarrow> (unit, 'z consst_scheme) outcome" where
  "spurious h t s = cprintf (Some (ascii ''cpu%d: spurious interrupt at %x:%x'' @ [10]))
     [CInt (of_nat (hw_cpu h)), CInt (ucast (tf_cs t)), CInt (tf_eip t)] s"

definition bad_trap :: "hw \<Rightarrow> trapframe \<Rightarrow> 'z consst_scheme \<Rightarrow> (unit, 'z consst_scheme) outcome" where
  "bad_trap h t s =
     (if cur s = None \<or> tf_cs t AND 3 = 0 then
        bnd (cprintf (Some (ascii ''unexpected trap %d from cpu %d eip %x (cr2=0x%x)'' @ [10]))
               [CInt (tf_trapno t), CInt (of_nat (hw_cpu h)), CInt (tf_eip t), CInt (hw_cr2 h)] s) (\<lambda>_ s.
        Panic ''trap'')
      else
        bnd (cprintf (Some (ascii ''pid %d %s: trap %d err %d on cpu %d eip 0x%x addr 0x%x--kill proc'' @ [10]))
               [CInt (word_of_int (pid (procs s ! myproc s))), CStr (Some (name (procs s ! myproc s))), CInt (tf_trapno t),
                CInt (tf_err t), CInt (of_nat (hw_cpu h)), CInt (tf_eip t), CInt (hw_cr2 h)] s) (\<lambda>_ s.
        Ret () (upd_proc (myproc s) (\<lambda>p. p\<lparr>killed := True\<rparr>) s)))"

text \<open>The \<^verbatim>\<open>switch\<close> of \<open>trap\<close>; \<^verbatim>\<open>ideintr\<close> of the memory disk does nothing.\<close>

definition trap_dispatch :: "hw \<Rightarrow> trapframe \<Rightarrow> 'z trapst_scheme \<Rightarrow> (unit, 'z trapst_scheme) outcome" where
  "trap_dispatch h t s =
     (let no = tf_trapno t in
      if no = T_IRQ0 + IRQ_TIMER then clock_tick (hw_cpu h) s
      else if no = T_IRQ0 + IRQ_IDE \<or> no = T_IRQ0 + IRQ_IDE + 1 then Ret () s
      else if no = T_IRQ0 + IRQ_KBD then kbdintr (hw_pcs h) (hw_kbd h) s
      else if no = T_IRQ0 + IRQ_COM1 then uartintr (hw_pcs h) (hw_uart h) s
      else if no = T_IRQ0 + 7 \<or> no = T_IRQ0 + IRQ_SPURIOUS then spurious h t s
      else bad_trap h t s)"

definition exit_if_killed :: "trapframe \<Rightarrow> 'z procst_scheme \<Rightarrow> (unit, 'z procst_scheme) outcome" where
  "exit_if_killed t s = (if cur_killed s \<and> tf_cs t AND 3 = DPL_USER then exit s else Ret () s)"

definition trap :: "hw \<Rightarrow> trapframe \<Rightarrow> 'z trapst_scheme \<Rightarrow> (unit, 'z trapst_scheme) outcome" where
  "trap h t s =
     (if tf_trapno t = T_SYSCALL then
        bnd (if killed (procs s ! myproc s) then exit s else Ret () s) (\<lambda>_ s.
        bnd (syscall (upd_proc (myproc s) (\<lambda>p. p\<lparr>tf := t\<rparr>) s)) (\<lambda>_ s.
        if killed (procs s ! myproc s) then exit s else Ret () s))
      else
        bnd (trap_dispatch h t s) (\<lambda>_ s.
        bnd (exit_if_killed t s) (\<lambda>_ s.
        bnd (if cur s \<noteq> None \<and> state (procs s ! myproc s) = RUNNING \<and> tf_trapno t = T_IRQ0 + IRQ_TIMER
             then yield s else Ret () s) (\<lambda>_ s.
        exit_if_killed t s))))"

text \<open>The end of a trap whose \<open>yield\<close> gave up the CPU, when the process runs again.\<close>

definition trap_resume :: "trapframe \<Rightarrow> 'z trapst_scheme \<Rightarrow> (unit, 'z trapst_scheme) outcome" where
  "trap_resume t s = bnd (release LkPtable s) (\<lambda>_ s. exit_if_killed t s)"

subsection \<open>Booting\<close>

text \<open>\<open>main\<close> on a machine with one CPU, up to the call of \<open>scheduler\<close>; the initialisation of the interrupt controllers, of
  the segments and of the serial port is left out.\<close>

definition main :: "u8 list \<Rightarrow> 'z trapst_scheme \<Rightarrow> (unit, 'z trapst_scheme) outcome" where
  "main initcode s =
     bnd (kinit1 (kend s) (P2V (4 * 1024 * 1024)) s) (\<lambda>_ s.
     bnd (kvmalloc s) (\<lambda>_ s.
     bnd (kinit2 (P2V (4 * 1024 * 1024)) (P2V PHYSTOP) (binit (consoleinit s))) (\<lambda>_ s.
     bnd (userinit initcode s) (\<lambda>_ s.
     cprintf (Some (ascii ''cpu%d: starting %d'' @ [10])) [CInt 0, CInt 0] s))))"

end
