(* ===== verification/Spinlock.thy ===== *)
theory Spinlock
  imports Sched
begin

text \<open>
  \<^verbatim>\<open>spinlock.c\<close> on a machine with several CPUs: the lock word and the owner field of each
  lock, and for each CPU the interrupt flag, the \<^verbatim>\<open>pushcli\<close> nesting count \<^verbatim>\<open>ncli\<close> and the
  saved flag \<^verbatim>\<open>intena\<close>.

  Every operation takes the CPU \<open>c\<close> it runs on.  \<open>acquire_cpu\<close> and \<open>release_cpu\<close> run to
  their end; \<open>Sleep\<close> is the outcome of an \<open>acquire_cpu\<close> that still spins.  The step
  relation splits them where another CPU can interfere.  Main results: two CPUs never
  hold the same lock, a CPU that holds a lock has interrupts off, and on one CPU the
  operations refine \<open>acquire\<close> and \<open>release\<close> of theory Sched.
\<close>

subsection \<open>State and operations\<close>

record cpu =
  ncli :: int
  intena :: bool
  iflag :: bool

record spinlock =
  lkd :: bool
  lcpu :: "nat option"
  pcs :: "u32 list"

record mach =
  cpus :: "nat \<Rightarrow> cpu"
  lks :: "lock \<Rightarrow> spinlock"

definition upd_cpu :: "nat \<Rightarrow> (cpu \<Rightarrow> cpu) \<Rightarrow> mach \<Rightarrow> mach" where
  "upd_cpu c f m = m\<lparr>cpus := (cpus m)(c := f (cpus m c))\<rparr>"

definition upd_lk :: "lock \<Rightarrow> (spinlock \<Rightarrow> spinlock) \<Rightarrow> mach \<Rightarrow> mach" where
  "upd_lk l f m = m\<lparr>lks := (lks m)(l := f (lks m l))\<rparr>"

lemma upd_lk_simps [simp]:
  "lks (upd_lk l f m) = (lks m)(l := f (lks m l))" "cpus (upd_lk l f m) = cpus m"
  "upd_lk l g (upd_lk l f m) = upd_lk l (\<lambda>k. g (f k)) m"
  by (simp_all add: upd_lk_def)

definition initlock :: "lock \<Rightarrow> mach \<Rightarrow> mach" where
  "initlock l m = upd_lk l (\<lambda>k. k\<lparr>lkd := False, lcpu := None\<rparr>) m"

definition pushcli :: "nat \<Rightarrow> mach \<Rightarrow> mach" where
  "pushcli c m =
     (let eflags = iflag (cpus m c);
          m = upd_cpu c (\<lambda>p. p\<lparr>iflag := False\<rparr>) m;
          m = (if ncli (cpus m c) = 0 then upd_cpu c (\<lambda>p. p\<lparr>intena := eflags\<rparr>) m else m)
      in upd_cpu c (\<lambda>p. p\<lparr>ncli := ncli p + 1\<rparr>) m)"

definition popcli :: "nat \<Rightarrow> mach \<Rightarrow> (unit, mach) outcome" where
  "popcli c m =
     (if iflag (cpus m c) then Panic ''popcli - interruptible''
      else let m = upd_cpu c (\<lambda>p. p\<lparr>ncli := ncli p - 1\<rparr>) m in
        if ncli (cpus m c) < 0 then Panic ''popcli''
        else if ncli (cpus m c) = 0 \<and> intena (cpus m c)
          then Ret () (upd_cpu c (\<lambda>p. p\<lparr>iflag := True\<rparr>) m)
          else Ret () m)"

definition holding :: "nat \<Rightarrow> lock \<Rightarrow> mach \<Rightarrow> (bool, mach) outcome" where
  "holding c l m =
     (let m = pushcli c m;
          r = lkd (lks m l) \<and> lcpu (lks m l) = Some c
      in bnd (popcli c m) (\<lambda>_ m. Ret r m))"

text \<open>\<open>acquire\<close> up to its first \<^verbatim>\<open>xchg\<close>.\<close>

definition acquire_start :: "nat \<Rightarrow> lock \<Rightarrow> mach \<Rightarrow> (unit, mach) outcome" where
  "acquire_start c l m =
     bnd (holding c l (pushcli c m)) (\<lambda>r m.
     if r then Panic ''acquire'' else Ret () m)"

definition acquire_cpu :: "nat \<Rightarrow> lock \<Rightarrow> u32 list \<Rightarrow> mach \<Rightarrow> (unit, mach) outcome" where
  "acquire_cpu c l trace m =
     bnd (acquire_start c l m) (\<lambda>_ m.
     if lkd (lks m l) then Sleep m
     else Ret () (upd_lk l (\<lambda>k. k\<lparr>lkd := True, lcpu := Some c, pcs := trace\<rparr>) m))"

text \<open>\<open>release\<close> up to the store that frees the lock word.\<close>

definition release_start :: "nat \<Rightarrow> lock \<Rightarrow> mach \<Rightarrow> (unit, mach) outcome" where
  "release_start c l m =
     bnd (holding c l m) (\<lambda>r m.
     if \<not> r then Panic ''release''
     else Ret () (upd_lk l (\<lambda>k. k\<lparr>pcs := (pcs k)[0 := 0], lcpu := None\<rparr>) m))"

definition release_cpu :: "nat \<Rightarrow> lock \<Rightarrow> mach \<Rightarrow> (unit, mach) outcome" where
  "release_cpu c l m =
     bnd (release_start c l m) (\<lambda>_ m.
     popcli c (upd_lk l (\<lambda>k. k\<lparr>lkd := False\<rparr>) m))"

text \<open>The return addresses found by following the saved \<^verbatim>\<open>%ebp\<close> chain from the frame of the
  caller's argument \<open>v\<close>; \<open>n\<close> entries are still to be filled.\<close>

fun getcallerpcs_from :: "memory \<Rightarrow> u32 \<Rightarrow> nat \<Rightarrow> u32 list" where
  "getcallerpcs_from mem ebp 0 = []"
| "getcallerpcs_from mem ebp (Suc n) =
     (if ebp = 0 \<or> ebp < KERNBASE \<or> ebp = 0xffffffff then replicate (Suc n) 0
      else load32 mem (ebp + 4) # getcallerpcs_from mem (load32 mem ebp) n)"

definition getcallerpcs :: "memory \<Rightarrow> u32 \<Rightarrow> u32 list" where
  "getcallerpcs mem v = getcallerpcs_from mem (v - 8) 10"

lemma length_getcallerpcs: "length (getcallerpcs mem v) = 10"
proof -
  have "length (getcallerpcs_from mem e n) = n" for e n
    by (induction mem e n rule: getcallerpcs_from.induct) auto
  then show ?thesis by (simp add: getcallerpcs_def)
qed

subsection \<open>Nesting\<close>

definition cpu_ok :: "cpu \<Rightarrow> bool" where
  "cpu_ok p = (0 \<le> ncli p \<and> (0 < ncli p \<longrightarrow> \<not> iflag p))"

lemma pushcli_cpus:
  "cpus (pushcli c m) = (cpus m)(c := (cpus m c)\<lparr>ncli := ncli (cpus m c) + 1, iflag := False,
      intena := (if ncli (cpus m c) = 0 then iflag (cpus m c) else intena (cpus m c))\<rparr>)"
  "lks (pushcli c m) = lks m"
  by (auto simp: pushcli_def upd_cpu_def Let_def)

text \<open>One \<open>popcli\<close> undoes one \<open>pushcli\<close>: the nesting count and the interrupt flag are back.\<close>

lemma popcli_pushcli:
  assumes "cpu_ok (cpus m c)"
  shows "\<exists>b. popcli c (pushcli c m) = Ret () (upd_cpu c (\<lambda>p. p\<lparr>intena := b\<rparr>) m)"
proof -
  have "popcli c (pushcli c m) = Ret () (upd_cpu c (\<lambda>p. p\<lparr>intena :=
      (if ncli (cpus m c) = 0 then iflag (cpus m c) else intena (cpus m c))\<rparr>) m)"
    using assms
    by (cases m; cases "cpus m c")
       (auto simp: popcli_def pushcli_def upd_cpu_def cpu_ok_def Let_def fun_eq_iff)
  then show ?thesis by blast
qed

lemma holding_run:
  assumes "cpu_ok (cpus m c)"
  shows "\<exists>b. holding c l m = Ret (lkd (lks m l) \<and> lcpu (lks m l) = Some c) (upd_cpu c (\<lambda>p. p\<lparr>intena := b\<rparr>) m)"
  using popcli_pushcli[OF assms] by (auto simp: holding_def pushcli_cpus Let_def)

text \<open>With a nonzero count \<open>intena\<close> is not touched by a nested \<open>pushcli\<close>/\<open>popcli\<close>.\<close>

lemma holding_nested:
  assumes "cpu_ok (cpus m c)" and "0 < ncli (cpus m c)"
  shows "holding c l m = Ret (lkd (lks m l) \<and> lcpu (lks m l) = Some c) m"
  using assms
  by (cases m; cases "cpus m c")
     (auto simp: holding_def popcli_def pushcli_def upd_cpu_def cpu_ok_def Let_def fun_eq_iff)

lemma cpu_ok_pushcli: "cpu_ok (cpus m c) \<Longrightarrow> cpu_ok (cpus (pushcli c m) c) \<and> 0 < ncli (cpus (pushcli c m) c)"
  by (auto simp: pushcli_cpus cpu_ok_def)

lemma acquire_start_run:
  assumes "cpu_ok (cpus m c)"
  shows "acquire_start c l m =
    (if lkd (lks m l) \<and> lcpu (lks m l) = Some c then Panic ''acquire'' else Ret () (pushcli c m))"
  using cpu_ok_pushcli[OF assms] by (simp add: acquire_start_def holding_nested pushcli_cpus)

subsection \<open>Several CPUs\<close>

text \<open>Where a CPU is: outside the lock code, spinning in \<open>acquire\<close>, between \<^verbatim>\<open>xchg\<close> and
  the store of \<^verbatim>\<open>lk->cpu\<close>, or between the store that clears \<^verbatim>\<open>lk->cpu\<close> and the one that
  frees the lock word.\<close>

datatype phase = Run | Spin lock | Got lock | Drop lock

inductive cstep :: "mach \<times> (nat \<Rightarrow> phase) \<Rightarrow> mach \<times> (nat \<Rightarrow> phase) \<Rightarrow> bool" where
  spin_start: "cstep (m, ph) (m', ph(c := Spin l))"
    if "ph c = Run" and "acquire_start c l m = Ret () m'"
| xchg_busy: "cstep (m, ph) (m, ph)" if "ph c = Spin l" and "lkd (lks m l)"
| xchg_ok: "cstep (m, ph) (upd_lk l (\<lambda>k. k\<lparr>lkd := True\<rparr>) m, ph(c := Got l))"
    if "ph c = Spin l" and "\<not> lkd (lks m l)"
| set_owner: "cstep (m, ph) (upd_lk l (\<lambda>k. k\<lparr>lcpu := Some c, pcs := trace\<rparr>) m, ph(c := Run))"
    if "ph c = Got l"
| rel_start: "cstep (m, ph) (m', ph(c := Drop l))"
    if "ph c = Run" and "release_start c l m = Ret () m'"
| rel_done: "cstep (m, ph) (m', ph(c := Run))"
    if "ph c = Drop l" and "popcli c (upd_lk l (\<lambda>k. k\<lparr>lkd := False\<rparr>) m) = Ret () m'"

definition holder :: "mach \<Rightarrow> (nat \<Rightarrow> phase) \<Rightarrow> lock \<Rightarrow> nat \<Rightarrow> bool" where
  "holder m ph l c = (lcpu (lks m l) = Some c \<or> ph c = Got l \<or> ph c = Drop l)"

definition spinning :: "phase \<Rightarrow> int" where
  "spinning p = (case p of Spin _ \<Rightarrow> 1 | _ \<Rightarrow> 0)"

lemma spinning_simps [simp]:
  "spinning Run = 0" "spinning (Spin l) = 1" "spinning (Got l) = 0" "spinning (Drop l) = 0"
  "0 \<le> spinning p"
  by (simp_all add: spinning_def split: phase.split)

definition lock_inv :: "mach \<times> (nat \<Rightarrow> phase) \<Rightarrow> bool" where
  "lock_inv = (\<lambda>(m, ph).
     (\<forall>l c c'. holder m ph l c \<and> holder m ph l c' \<longrightarrow> c = c') \<and>
     (\<forall>l. lkd (lks m l) \<longleftrightarrow> (\<exists>c. holder m ph l c)) \<and>
     (\<forall>l c. lcpu (lks m l) = Some c \<longrightarrow> ph c \<noteq> Got l \<and> ph c \<noteq> Drop l) \<and>
     (\<forall>c. cpu_ok (cpus m c) \<and> finite {l. holder m ph l c} \<and>
          ncli (cpus m c) = int (card {l. holder m ph l c}) + spinning (ph c)))"

definition mach0 :: mach where
  "mach0 = \<lparr>cpus = (\<lambda>_. \<lparr>ncli = 0, intena = False, iflag = True\<rparr>),
            lks = (\<lambda>_. \<lparr>lkd = False, lcpu = None, pcs = replicate 10 0\<rparr>)\<rparr>"

lemma lock_inv_init: "lock_inv (mach0, \<lambda>_. Run)"
  by (simp add: lock_inv_def mach0_def holder_def cpu_ok_def spinning_def)

text \<open>What a step does to the fields the invariant reads.\<close>

lemma holder_nonempty_ncli:
  assumes "lock_inv (m, ph)" and "holder m ph l c"
  shows "0 < ncli (cpus m c)"
proof -
  have "finite {l. holder m ph l c}" "l \<in> {l. holder m ph l c}"
    and n: "ncli (cpus m c) = int (card {l. holder m ph l c}) + spinning (ph c)"
    using assms by (auto simp: lock_inv_def)
  then have "0 < card {l. holder m ph l c}" using card_gt_0_iff by blast
  moreover have "0 \<le> spinning (ph c)" by simp
  ultimately show ?thesis using n by linarith
qed

lemma release_start_run:
  assumes "cpu_ok (cpus m c)" and "0 < ncli (cpus m c)"
  shows "release_start c l m =
    (if lkd (lks m l) \<and> lcpu (lks m l) = Some c
     then Ret () (upd_lk l (\<lambda>k. k\<lparr>pcs := (pcs k)[0 := 0], lcpu := None\<rparr>) m)
     else Panic ''release'')"
  by (simp add: release_start_def holding_nested[OF assms])

lemma lock_inv_spin_start:
  assumes "lock_inv (m, ph)" and "ph c = Run"
  shows "lock_inv (pushcli c m, ph(c := Spin l))"
proof -
  have "holder (pushcli c m) (ph(c := Spin l)) = holder m ph"
    using assms(2) by (auto simp: holder_def pushcli_cpus fun_eq_iff)
  moreover have "cpu_ok (cpus (pushcli c m) c)"
    using assms(1) cpu_ok_pushcli by (auto simp: lock_inv_def)
  ultimately show ?thesis
    using assms by (auto simp: lock_inv_def pushcli_cpus cpu_ok_def)
qed

lemma lock_inv_xchg_ok:
  assumes "lock_inv (m, ph)" and "ph c = Spin l" and "\<not> lkd (lks m l)"
  shows "lock_inv (upd_lk l (\<lambda>k. k\<lparr>lkd := True\<rparr>) m, ph(c := Got l))"
proof -
  let ?m = "upd_lk l (\<lambda>k. k\<lparr>lkd := True\<rparr>) m" and ?ph = "ph(c := Got l)"
  have none: "\<not> holder m ph l d" for d using assms(1,3) by (auto simp: lock_inv_def)
  then have none': "lcpu (lks m l) \<noteq> Some d" for d by (auto simp: holder_def)
  have h: "holder ?m ?ph k d = (holder m ph k d \<or> k = l \<and> d = c)" for k d
    using assms(2) by (auto simp: holder_def)
  have "{k. holder ?m ?ph k c} = insert l {k. holder m ph k c}" by (auto simp: h)
  moreover have "{k. holder ?m ?ph k d} = {k. holder m ph k d}" if "d \<noteq> c" for d using that by (auto simp: h)
  ultimately show ?thesis
    using assms none none' unfolding lock_inv_def
    by (auto simp: h)
qed

lemma lock_inv_set_owner:
  assumes "lock_inv (m, ph)" and "ph c = Got l"
  shows "lock_inv (upd_lk l (\<lambda>k. k\<lparr>lcpu := Some c, pcs := trace\<rparr>) m, ph(c := Run))"
proof -
  let ?m = "upd_lk l (\<lambda>k. k\<lparr>lcpu := Some c, pcs := trace\<rparr>) m" and ?ph = "ph(c := Run)"
  have c: "holder m ph l c" using assms(2) by (simp add: holder_def)
  have "lcpu (lks m l) = None"
  proof (cases "lcpu (lks m l)")
    case (Some d)
    then have "holder m ph l d" by (simp add: holder_def)
    then have "d = c" using c assms(1) by (auto simp: lock_inv_def)
    then show ?thesis using Some assms by (auto simp: lock_inv_def)
  qed simp
  then have h: "holder ?m ?ph = holder m ph"
    using assms(2) by (auto simp: holder_def fun_eq_iff)
  have "ph d \<noteq> Got l \<and> ph d \<noteq> Drop l" if "d \<noteq> c" for d
    using assms(1) c that by (auto simp: lock_inv_def holder_def)
  then show ?thesis
    using assms unfolding lock_inv_def prod.case h
    by auto
qed

lemma lock_inv_rel_start:
  assumes "lock_inv (m, ph)" and "ph c = Run" and "lcpu (lks m l) = Some c"
  shows "lock_inv (upd_lk l (\<lambda>k. k\<lparr>pcs := (pcs k)[0 := 0], lcpu := None\<rparr>) m, ph(c := Drop l))"
proof -
  let ?m = "upd_lk l (\<lambda>k. k\<lparr>pcs := (pcs k)[0 := 0], lcpu := None\<rparr>) m" and ?ph = "ph(c := Drop l)"
  have h: "holder ?m ?ph = holder m ph"
    using assms(2,3) by (auto simp: holder_def fun_eq_iff)
  show ?thesis
    using assms unfolding lock_inv_def prod.case h
    by auto
qed

lemma lock_inv_rel_done:
  assumes inv: "lock_inv (m, ph)" and "ph c = Drop l"
    and "popcli c (upd_lk l (\<lambda>k. k\<lparr>lkd := False\<rparr>) m) = Ret () m'"
  shows "lock_inv (m', ph(c := Run))"
proof -
  let ?ph = "ph(c := Run)"
  have c: "holder m ph l c" using assms(2) by (simp add: holder_def)
  have pos: "0 < ncli (cpus m c)" by (rule holder_nonempty_ncli[OF inv c])
  have only: "holder m ph l d \<Longrightarrow> d = c" for d using inv c by (auto simp: lock_inv_def)
  have no: "lcpu (lks m l) = None"
    using inv assms(2) only by (cases "lcpu (lks m l)") (auto simp: lock_inv_def holder_def)
  have lks': "lks m' = (lks m)(l := (lks m l)\<lparr>lkd := False\<rparr>)"
    and cpus': "\<forall>d. d \<noteq> c \<longrightarrow> cpus m' d = cpus m d"
    and ncli': "ncli (cpus m' c) = ncli (cpus m c) - 1" and ok': "cpu_ok (cpus m' c)"
    using assms(3) pos inv
    by (auto simp: popcli_def upd_cpu_def Let_def cpu_ok_def lock_inv_def split: if_splits)
  have h: "holder m' ?ph k d = (holder m ph k d \<and> \<not> (k = l \<and> d = c))" for k d
    using no assms(2) by (auto simp: holder_def lks')
  have cset: "{k. holder m' ?ph k c} = {k. holder m ph k c} - {l}" by (auto simp: h)
  have fin: "finite {k. holder m ph k c}"
    and n: "ncli (cpus m c) = int (card {k. holder m ph k c})"
    using inv assms(2) by (auto simp: lock_inv_def)
  have "int (card ({k. holder m ph k c} - {l})) = ncli (cpus m c) - 1"
    using c fin n pos by (simp add: card_Diff_singleton)
  moreover have "{k. holder m' ?ph k d} = {k. holder m ph k d}" if "d \<noteq> c" for d using that by (auto simp: h)
  ultimately have "cpu_ok (cpus m' d) \<and> finite {l. holder m' ?ph l d} \<and>
      ncli (cpus m' d) = int (card {l. holder m' ?ph l d}) + spinning (?ph d)" for d
    using inv cpus' ncli' ok' fin by (cases "d = c") (auto simp: cset lock_inv_def)
  moreover have "lkd (lks m' k) = (\<exists>d. holder m' ?ph k d)" for k
    using inv only no by (cases "k = l") (auto simp: h lks' lock_inv_def)
  ultimately show ?thesis
    using inv unfolding lock_inv_def by (auto simp: h lks')
qed

lemma cstep_inv: "cstep x y \<Longrightarrow> lock_inv x \<Longrightarrow> lock_inv y"
proof (induction rule: cstep.induct)
  case (spin_start ph c l m m')
  then have "m' = pushcli c m"
    by (auto simp: acquire_start_run lock_inv_def split: if_splits)
  then show ?case using spin_start lock_inv_spin_start by simp
next
  case (rel_start ph c l m m')
  then have ok: "cpu_ok (cpus m c)" by (simp add: lock_inv_def)
  obtain b where hold: "holding c l m = Ret (lkd (lks m l) \<and> lcpu (lks m l) = Some c) (upd_cpu c (\<lambda>p. p\<lparr>intena := b\<rparr>) m)"
    using holding_run[OF ok] by blast
  then have own: "lcpu (lks m l) = Some c"
    using rel_start(2) by (auto simp: release_start_def split: if_splits)
  then have "0 < ncli (cpus m c)"
    using holder_nonempty_ncli[OF rel_start(3), of l c] by (simp add: holder_def)
  then have "m' = upd_lk l (\<lambda>k. k\<lparr>pcs := (pcs k)[0 := 0], lcpu := None\<rparr>) m"
    using rel_start(2) release_start_run[OF ok] by (auto split: if_splits)
  then show ?case using lock_inv_rel_start rel_start own by simp
qed (auto intro: lock_inv_xchg_ok lock_inv_set_owner lock_inv_rel_done)

inductive creach :: "mach \<times> (nat \<Rightarrow> phase) \<Rightarrow> bool" where
  init: "creach (mach0, \<lambda>_. Run)"
| step: "creach x \<Longrightarrow> cstep x y \<Longrightarrow> creach y"

lemma creach_inv: "creach x \<Longrightarrow> lock_inv x"
  by (induction rule: creach.induct) (auto intro: lock_inv_init cstep_inv)

subsection \<open>One CPU: refinement of the held list\<close>

text \<open>CPU \<open>c\<close> of the machine and the state of theory Sched describe the same locks.\<close>

definition refines :: "nat \<Rightarrow> mach \<Rightarrow> 'z kst_scheme \<Rightarrow> bool" where
  "refines c m s = (distinct (held s) \<and> ncli (cpus m c) = int (length (held s)) \<and> cpu_ok (cpus m c) \<and>
     (\<forall>l. l \<in> set (held s) \<longleftrightarrow> lkd (lks m l) \<and> lcpu (lks m l) = Some c))"

lemma refines_acquire:
  assumes "refines c m s" and "lkd (lks m l) \<longrightarrow> lcpu (lks m l) = Some c"
  shows "(case acquire_cpu c l trace m of
       Ret _ m' \<Rightarrow> \<exists>s'. acquire l s = Ret () s' \<and> refines c m' s'
     | Panic e \<Rightarrow> acquire l s = Panic e
     | Sleep _ \<Rightarrow> False)"
proof (cases "l \<in> set (held s)")
  case True
  then have "lkd (lks m l) \<and> lcpu (lks m l) = Some c" using assms(1) by (simp add: refines_def)
  then show ?thesis using assms True
    by (simp add: acquire_cpu_def acquire_start_run acquire_def refines_def)
next
  case False
  then have "\<not> lkd (lks m l)" using assms by (auto simp: refines_def)
  moreover have "cpu_ok (cpus (pushcli c m) c)"
    using assms(1) cpu_ok_pushcli by (auto simp: refines_def)
  ultimately show ?thesis using assms(1) False
    by (auto simp: acquire_cpu_def acquire_start_run acquire_def refines_def pushcli_cpus)
qed

lemma refines_release:
  assumes "refines c m s"
  shows "(case release_cpu c l m of
       Ret _ m' \<Rightarrow> \<exists>s'. release l s = Ret () s' \<and> refines c m' s'
     | Panic e \<Rightarrow> release l s = Panic e
     | Sleep _ \<Rightarrow> False)"
proof (cases "l \<in> set (held s)")
  case True
  then have own: "lkd (lks m l) \<and> lcpu (lks m l) = Some c" and len: "0 < length (held s)"
    using assms by (auto simp: refines_def)
  have "release_cpu c l m = popcli c (upd_lk l (\<lambda>k. k\<lparr>pcs := (pcs k)[0 := 0], lcpu := None, lkd := False\<rparr>) m)"
    using own len assms by (simp add: release_cpu_def release_start_run refines_def)
  moreover obtain n where "length (held s) = Suc n" using len by (cases "length (held s)") auto
  ultimately show ?thesis using assms True len
    by (auto simp: release_def refines_def popcli_def upd_cpu_def cpu_ok_def Let_def
        length_remove1 split: if_splits)
next
  case False
  then have no: "\<not> (lkd (lks m l) \<and> lcpu (lks m l) = Some c)" using assms by (auto simp: refines_def)
  have ok: "cpu_ok (cpus m c)" using assms by (simp add: refines_def)
  show ?thesis using holding_run[OF ok, of l] no False
    by (auto simp: release_cpu_def release_start_def release_def)
qed

subsection \<open>Properties\<close>

text \<open>C27: Mutual exclusion on any number of CPUs: in every state reachable by interleaved steps
  of \<open>acquire\<close> and \<open>release\<close>, two CPUs inside or at the edges of the critical section of a lock
  are the same CPU, the lock word is set exactly when there is one, and a CPU that holds a lock
  runs with interrupts off, with \<^verbatim>\<open>ncli\<close> equal to the number of locks it has or waits for.\<close>

theorem spinlock_mutual_exclusion:
  assumes "creach (m, ph)"
  shows "(\<forall>l c c'. holder m ph l c \<and> holder m ph l c' \<longrightarrow> c = c') \<and>
    (\<forall>l. lkd (lks m l) = (\<exists>c. holder m ph l c)) \<and>
    (\<forall>l c. holder m ph l c \<longrightarrow> \<not> iflag (cpus m c)) \<and>
    (\<forall>c. ncli (cpus m c) = int (card {l. holder m ph l c}) + spinning (ph c))"
proof -
  have inv: "lock_inv (m, ph)" by (rule creach_inv[OF assms])
  then have "\<not> iflag (cpus m c)" if "holder m ph l c" for l c
    using holder_nonempty_ncli[OF inv that] by (auto simp: lock_inv_def cpu_ok_def)
  then show ?thesis using inv by (auto simp: lock_inv_def)
qed

lemma creach_demo: "creach (upd_lk LkPtable (\<lambda>k. k\<lparr>lkd := True\<rparr>) (pushcli 0 mach0), (\<lambda>_. Run)(0 := Got LkPtable))"
proof -
  have "cstep (mach0, \<lambda>_. Run) (pushcli 0 mach0, (\<lambda>_. Run)(0 := Spin LkPtable))"
    by (rule spin_start) (simp_all add: acquire_start_run mach0_def cpu_ok_def)
  moreover have "cstep (pushcli 0 mach0, (\<lambda>_. Run)(0 := Spin LkPtable))
     (upd_lk LkPtable (\<lambda>k. k\<lparr>lkd := True\<rparr>) (pushcli 0 mach0), (\<lambda>_. Run)(0 := Spin LkPtable, 0 := Got LkPtable))"
    by (rule xchg_ok) (simp_all add: pushcli_cpus mach0_def)
  ultimately show ?thesis using creach.step creach.init by (metis fun_upd_upd)
qed

theorem spinlock_mutual_exclusion_witness:
  "\<not> iflag (cpus (upd_lk LkPtable (\<lambda>k. k\<lparr>lkd := True\<rparr>) (pushcli 0 mach0)) 0)"
  using spinlock_mutual_exclusion[OF creach_demo] by (auto simp: holder_def)

text \<open>The list of held locks used by the rest of the model is a faithful view of the lock
  words: on a CPU whose list describes them, \<open>acquire\<close> of a lock that is free or its own behaves
  as the detailed \<open>acquire_cpu\<close> does, panic included, and leaves the two in agreement.\<close>

lemma acquire_refines:
  assumes "refines c m s" and "lkd (lks m l) \<longrightarrow> lcpu (lks m l) = Some c"
  shows "(case acquire_cpu c l trace m of
       Ret _ m' \<Rightarrow> \<exists>s'. acquire l s = Ret () s' \<and> refines c m' s'
     | Panic e \<Rightarrow> acquire l s = Panic e
     | Sleep _ \<Rightarrow> False)"
  by (rule refines_acquire[OF assms])

lemma refines_mach0: "refines 0 mach0 (demo_kst [] None)"
  by (simp add: refines_def mach0_def demo_kst_def cpu_ok_def)

lemma acquire_refines_witness:
  "\<exists>m'. acquire_cpu 0 LkTicks [] mach0 = Ret () m' \<and> refines 0 m' ((demo_kst [] None)\<lparr>held := [LkTicks]\<rparr>)"
  using acquire_refines[OF refines_mach0, of LkTicks "[]"]
  by (auto simp: mach0_def acquire_def demo_kst_def split: outcome.splits)

text \<open>The same for \<open>release\<close>: it frees the lock word, the owner field, the nesting count and
  (at count zero) the interrupt flag in agreement with the list of held locks, and panics exactly
  when the list does not contain the lock.\<close>

lemma release_refines:
  assumes "refines c m s"
  shows "(case release_cpu c l m of
       Ret _ m' \<Rightarrow> \<exists>s'. release l s = Ret () s' \<and> refines c m' s'
     | Panic e \<Rightarrow> release l s = Panic e
     | Sleep _ \<Rightarrow> False)"
  by (rule refines_release[OF assms])

lemma release_refines_witness:
  "release_cpu 0 LkTicks mach0 = Panic ''release''"
proof -
  have "release LkTicks (demo_kst [] None) = Panic ''release''" by (simp add: release_def demo_kst_def)
  then show ?thesis
    using release_refines[OF refines_mach0, of LkTicks] by (auto split: outcome.splits)
qed

end
