(* ===== verification/Alloc.thy ===== *)
theory Alloc
  imports Fs
begin

text \<open>
  Correctness of the disk block allocator of \<^verbatim>\<open>fs.c\<close>.

  \<open>tx s H k\<close>: a file system operation is in a transaction, holds the buffers \<open>H\<close> and may still log \<open>k\<close> blocks.
  \<open>bview\<close> is the content of the disk as this operation sees it, logged blocks included.
\<close>

subsection \<open>Reading and logging blocks in a transaction\<close>

definition quiet_but :: "'z bst_scheme \<Rightarrow> nat set \<Rightarrow> bool" where
  "quiet_but s H = (\<forall>b < disksize s. (\<forall>i \<in> H. b_blockno (bufs s ! i) \<noteq> b) \<longrightarrow> b_readable s b)"

definition tx :: "'z lgst_scheme \<Rightarrow> nat set \<Rightarrow> nat \<Rightarrow> bool" where
  "tx s H k = (bio_ok s H \<and> log_geom s \<and> log_lh s \<and> 1 \<le> l_outstanding s \<and> Collect (dirtyb s) = logged s \<and>
     l_size s \<le> int LOGSIZE \<and> l_n s + int k < l_size s \<and> quiet_but s H \<and>
     (\<forall>i \<in> H. b_blockno (bufs s ! i) \<in> logged s \<or> bview s (b_blockno (bufs s ! i)) = disk s (b_blockno (bufs s ! i))))"

lemma room_but:
  assumes "bio_ok s H" and q: "quiet_but s H"
  shows "NBUF \<le> b_room s + card (Collect (dirtyb s)) + card H"
proof -
  have inv: "bio_inv s H" using assms(1) by (simp add: bio_ok_def)
  note D = bio_invD[OF inv]
  let ?D = "{i. i < NBUF \<and> b_dirty (bufs s ! i)}"
  have H: "H \<subseteq> {..<NBUF}" using D(9) by auto
  have used: "i \<in> H" if i: "i < NBUF" "b_refcnt (bufs s ! i) \<noteq> 0" for i
  proof (rule ccontr)
    assume n: "i \<notin> H"
    let ?b = "b_blockno (bufs s ! i)"
    have c: "cached s ?b i" using D(11)[OF i] i(1) by (simp add: cached_def)
    have "b_blockno (bufs s ! j) \<noteq> ?b" if "j \<in> H" for j
      using D(4)[OF c, of j] D(9)[OF that] n that by (auto simp: cached_def)
    then have "b_readable s ?b" using q D(5)[OF c] by (auto simp: quiet_but_def)
    then show False using c i(2) by (auto simp: b_readable_def)
  qed
  have c: "cached s (b_blockno (bufs s ! i)) i" if "i \<in> ?D" for i
    using that D(8)[of i] by (simp add: cached_def)
  have "inj_on (\<lambda>i. b_blockno (bufs s ! i)) ?D" by (rule inj_onI) (metis D(4) c)
  moreover have "(\<lambda>i. b_blockno (bufs s ! i)) ` ?D \<subseteq> Collect (dirtyb s)"
    using c unfolding dirtyb_def by blast
  moreover have fin: "finite (Collect (dirtyb s))"
    by (rule finite_subset[of _ "{..<disksize s}"]) (auto simp: dirtyb_def dest: D(5))
  ultimately have "card ?D \<le> card (Collect (dirtyb s))" by (metis card_inj_on_le)
  moreover have "{..<NBUF} \<subseteq> free_bufs s \<union> ?D \<union> H" using used by (auto simp: free_bufs_def)
  then have "NBUF \<le> card (free_bufs s \<union> ?D \<union> H)"
    using card_mono[of "free_bufs s \<union> ?D \<union> H" "{..<NBUF}"] H finite_subset[OF H] by simp
  moreover have "card (free_bufs s \<union> ?D \<union> H) \<le> card (free_bufs s) + card ?D + card H"
    using card_Un_le[of "free_bufs s \<union> ?D" H] card_Un_le[of "free_bufs s" ?D] by linarith
  ultimately show ?thesis by (simp add: b_room_def)
qed

lemma txD:
  assumes "tx s H k"
  shows "bio_ok s H" "log_geom s" "log_lh s" "1 \<le> l_outstanding s" "Collect (dirtyb s) = logged s" "l_size s \<le> int LOGSIZE"
    "l_n s + int k < l_size s" "quiet_but s H" "0 \<le> l_n s" "length (disk s b) = BSIZE"
    "i \<in> H \<Longrightarrow> b_blockno (bufs s ! i) \<in> logged s \<or> bview s (b_blockno (bufs s ! i)) = disk s (b_blockno (bufs s ! i))"
  using assms bio_invD(6)[of s H b] by (auto simp: tx_def bio_ok_def log_lh_def)

lemma tx_less: "tx s H k \<Longrightarrow> j \<le> k \<Longrightarrow> tx s H j"
  by (auto simp: tx_def)

lemma tx_room:
  assumes "tx s H k" and "card H \<le> k"
  shows "0 < b_room s"
proof -
  have "card (Collect (dirtyb s)) \<le> nat (l_n s)" using logged_card[of s] by (simp add: txD(5)[OF assms(1)])
  then show ?thesis
    using room_but[OF txD(1,8)[OF assms(1)]] txD(6,7,9)[OF assms(1)] assms(2) by (simp add: NBUF_30 LOGSIZE_30)
qed

lemma tx_frame:
  assumes "log_frame s t" and "l_n t = l_n s" and "l_block t = l_block s"
  shows "log_geom t = log_geom s" "log_lh t = log_lh s" "logged t = logged s" "l_outstanding t = l_outstanding s"
    "l_size t = l_size s" "disksize t = disksize s"
proof -
  note F = log_frame_fields[OF assms(1)]
  have h: "home t = home s" using assms by (simp add: home_def fun_eq_iff)
  show g: "logged t = logged s" using h assms by (simp add: logged_def)
  show "log_geom t = log_geom s" "l_outstanding t = l_outstanding s" "l_size t = l_size s" "disksize t = disksize s"
    using F by simp_all
  show "log_lh t = log_lh s" using assms h g F by (simp add: log_lh_def)
qed

text \<open>Reading a block: the handle is new, and nothing changes in what the operation sees.\<close>

lemma tx_bread:
  assumes t: "tx s H k" and "card H \<le> k" and b: "b < disksize s" "\<And>j. j \<in> H \<Longrightarrow> b_blockno (bufs s ! j) \<noteq> b"
  shows "returns (bread 1 b s) (\<lambda>i t. i \<notin> H \<and> tx t (insert i H) k \<and> log_frame s t \<and> b_blockno (bufs t ! i) = b \<and>
    b_data (bufs t ! i) = bview s b \<and> bview t = bview s \<and> disk t = disk s \<and> logged t = logged s \<and> l_n t = l_n s \<and>
    (\<forall>j \<in> H. b_blockno (bufs t ! j) = b_blockno (bufs s ! j)))"
proof -
  note D = txD[OF t]
  have r: "b_readable s b" using D(8) b by (auto simp: quiet_but_def)
  show ?thesis
  proof (rule returns_mono[OF bio.rd_law[OF D(1) r]], goal_cases)
    case 1
    then show ?case using tx_room[OF t assms(2)] by simp
  next
    case (2 i u)
    have f: "bio_frame s u" and w: "bview u = bview s" and d: "disk u = disk s" and P: "Collect (dirtyb u) = Collect (dirtyb s)"
      and o: "bio_ok u (insert i H)" and n: "i \<notin> H" and bi: "b_blockno (bufs u ! i) = b"
      and bj: "\<forall>j \<in> H. b_blockno (bufs u ! j) = b_blockno (bufs s ! j)"
      and R: "\<forall>c. b_readable u c = (b_readable s c \<and> c \<noteq> b)" using 2 by blast+
    note L = bio_frame_log[OF f]
    note T = tx_frame[OF log_frame_bio[OF f] L(6,7)]
    have c: "bview u b = disk u b" if "b \<notin> logged s" using bio.clean_law[OF D(1) r] that D(5) w d by simp
    have q: "quiet_but u (insert i H)" using D(8) bi bj R by (auto simp: quiet_but_def T(6))
    have "tx u (insert i H) k"
      unfolding tx_def using o q D(2-7) P T L bi bj D(11) w d c by auto
    moreover have "b_data (bufs u ! i) = bview s b" using bio.got_law[OF o insertI1] bi w by simp
    ultimately show ?case using n bi bj w d log_frame_bio[OF f] T(3) L(6) by blast
  qed
qed

text \<open>Releasing it.\<close>

lemma tx_brelse:
  assumes t: "tx s H k" and i: "i \<in> H"
  shows "returns (brelse i s) (\<lambda>_ t. tx t (H - {i}) k \<and> log_frame s t \<and> bview t = bview s \<and> disk t = disk s \<and>
    logged t = logged s \<and> l_n t = l_n s \<and> (\<forall>j. b_blockno (bufs t ! j) = b_blockno (bufs s ! j)))"
proof -
  note D = txD[OF t]
  have "b_blockno (bufs s ! i) \<in> Collect (dirtyb s) \<or> bview s (b_blockno (bufs s ! i)) = disk s (b_blockno (bufs s ! i))"
    using D(11)[OF i] D(5) by simp
  then show ?thesis
  proof (rule returns_mono[OF bio.rel_law[OF D(1) i]], goal_cases)
    case (1 x u)
    have f: "bio_frame s u" and w: "bview u = bview s" and d: "disk u = disk s" and P: "Collect (dirtyb u) = Collect (dirtyb s)"
      and o: "bio_ok u (H - {i})" and bj: "\<forall>j. b_blockno (bufs u ! j) = b_blockno (bufs s ! j)"
      and R: "\<forall>c. b_readable u c = (b_readable s c \<or> c = b_blockno (bufs s ! i))" using 1 by blast+
    note L = bio_frame_log[OF f]
    note T = tx_frame[OF log_frame_bio[OF f] L(6,7)]
    have q: "quiet_but u (H - {i})"
      unfolding quiet_but_def
    proof (intro allI impI)
      fix c assume c: "c < disksize u" "\<forall>j \<in> H - {i}. b_blockno (bufs u ! j) \<noteq> c"
      show "b_readable u c"
      proof (cases "c = b_blockno (bufs s ! i)")
        case False
        then have "b_readable s c" using D(8) c bj by (auto simp: quiet_but_def T(6))
        then show ?thesis using R by blast
      qed (use R in blast)
    qed
    have "tx u (H - {i}) k"
      unfolding tx_def using o q D(2-7) P T L bj D(11) w d by auto
    then show ?case using bj w d log_frame_bio[OF f] T(3) L(6) by blast
  qed
qed

text \<open>Changing a held block and logging it uses up one slot.\<close>

lemma tx_modify:
  assumes t: "tx s H (Suc k)" and i: "i \<in> H" and d: "length d = BSIZE" and b: "b = b_blockno (bufs s ! i)" "\<not> in_log s b"
  shows "returns (log_write i (set_data i d s)) (\<lambda>_ t. tx t H k \<and> log_frame s t \<and> bview t = (bview s)(b := d) \<and>
    disk t = disk s \<and> logged t = insert b (logged s) \<and> (\<forall>j. b_blockno (bufs t ! j) = b_blockno (bufs s ! j)))"
proof -
  note D = txD[OF t]
  let ?s = "set_data i d s"
  have p: "bio_ok ?s H" "bio_frame s ?s" "bview ?s = (bview s)(b := d)" "disk ?s = disk s"
    "Collect (dirtyb ?s) = Collect (dirtyb s)" "\<And>j. b_blockno (bufs ?s ! j) = b_blockno (bufs s ! j)"
    "b_readable ?s = b_readable s"
    using bio.put_law[OF D(1) i d] b(1) by blast+
  note L = bio_frame_log[OF p(2)]
  note T = tx_frame[OF log_frame_bio[OF p(2)] L(6,7)]
  have il: "in_log ?s = in_log s" by (rule log_frame_fields(7)[OF log_frame_bio[OF p(2)]])
  show ?thesis
  proof (rule returns_mono[OF log_write_run[OF p(1) i _ _ _ _ _ b(1)[unfolded p(6)[symmetric]]]], goal_cases)
    case (7 x u)
    have o: "bio_ok u H" and f: "log_frame ?s u" and lh: "log_lh u" and w: "bview u = bview ?s" and dk: "disk u = disk ?s"
      and P: "Collect (dirtyb u) = insert b (Collect (dirtyb ?s))" and g: "logged u = insert b (logged ?s)"
      and n: "l_n u = l_n ?s + (if b \<in> logged ?s then 0 else 1)" and R: "b_readable u = b_readable ?s"
      and bj: "\<forall>j. b_blockno (bufs u ! j) = b_blockno (bufs ?s ! j)"
      using 7 by blast+
    note F = log_frame_fields[OF f]
    have q: "quiet_but u H" using D(8) bj p(6) R p(7) F(11) T(6) by (simp add: quiet_but_def)
    have "tx u H k"
      unfolding tx_def
      using o q D(2-7) P p(4-6) lh F T L bj D(11) w dk n g p(3) by auto
    moreover have "log_frame s u" by (rule log_frame_trans[OF log_frame_bio[OF p(2)] f])
    ultimately show ?case using w p(3,4,6) dk g T(3) bj by simp
  qed (use D T L b il p(6) LOGSIZE_30 in \<open>auto simp: tx_def\<close>)
qed

text \<open>The whole cycle for one block.\<close>

lemma tx_update:
  assumes t: "tx s {} (Suc k)" and b: "b < disksize s" "\<not> in_log s b" and F: "\<And>d. length d = BSIZE \<Longrightarrow> length (F d) = BSIZE"
  shows "returns (bnd (bread 1 b s) (\<lambda>i s. bnd (log_write i (set_data i (F (b_data (bufs s ! i))) s)) (\<lambda>_ s. brelse i s)))
    (\<lambda>_ t. tx t {} k \<and> log_frame s t \<and> bview t = (bview s)(b := F (bview s b)) \<and> disk t = disk s)"
proof (rule returns_bnd[OF tx_bread[OF t _ b(1)]], goal_cases)
  case (3 i u)
  then have u: "tx u {i} (Suc k)" and f: "log_frame s u" and bi: "b_blockno (bufs u ! i) = b"
    and dt: "b_data (bufs u ! i) = bview s b" and w: "bview u = bview s" and d: "disk u = disk s" by auto
  have len: "length (bview s b) = BSIZE" using bio.got_law[OF txD(1)[OF u], of i] dt by auto
  have nl: "\<not> in_log u b" using b(2) log_frame_fields(7)[OF f] by simp
  show ?case
  proof (rule returns_bnd[OF tx_modify[OF u _ _ bi[symmetric] nl]], goal_cases)
    case (3 x v)
    then have v: "tx v {i} k" and f2: "log_frame s v" and w2: "bview v = (bview s)(b := F (bview s b))" and d2: "disk v = disk s"
      using log_frame_trans[OF f] w d dt by auto
    show ?case
      by (rule returns_mono[OF tx_brelse[OF v]]) (use w2 d2 log_frame_trans[OF f2] in auto)
  qed (use dt len F in auto)
qed auto

subsection \<open>The map of free blocks\<close>

lemma bit_used_bit: "bit_used d bi = bit (d ! (bi div 8)) (bi mod 8)"
  using and_exp_eq_0_iff_not_bit[of "d ! (bi div 8)" "bi mod 8"] by (simp add: bit_used_def push_bit_of_1)

lemma length_set_used [simp]: "length (set_used d bi) = length d" "length (set_free d bi) = length d"
  by (simp_all add: set_used_def set_free_def)

lemma div_mod_eq_iff: "(a :: nat) = b \<longleftrightarrow> a div 8 = b div 8 \<and> a mod 8 = b mod 8"
  by (metis div_mult_mod_eq)

lemma bit_used_set:
  assumes "bi < 8 * length d"
  shows "bit_used (set_used d bi) bj = (bj = bi \<or> bit_used d bj)"
    and "bit_used (set_free d bi) bj = (bj \<noteq> bi \<and> bit_used d bj)"
proof -
  have i: "bi div 8 < length d" using assms by (simp add: less_mult_imp_div_less mult.commute)
  have m: "bi mod 8 < LENGTH(8)" "bj mod 8 < LENGTH(8)" by simp_all
  note d = div_mod_eq_iff[of bj bi]
  show "bit_used (set_used d bi) bj = (bj = bi \<or> bit_used d bj)"
    using i m unfolding bit_used_bit set_used_def push_bit_of_1 d
    by (cases "bj div 8 = bi div 8") (auto simp: bit_or_iff bit_exp_iff)
  show "bit_used (set_free d bi) bj = (bj \<noteq> bi \<and> bit_used d bj)"
    using i m unfolding bit_used_bit set_free_def push_bit_of_1 d
    by (cases "bj div 8 = bi div 8") (auto simp: bit_and_iff bit_not_iff bit_exp_iff)
qed

definition nblocks :: "'z fsst_scheme \<Rightarrow> nat" where
  "nblocks s = unat (sb_size (sb s))"

definition bitmap_of :: "'z fsst_scheme \<Rightarrow> nat \<Rightarrow> nat" where
  "bitmap_of s b = BBLOCK (of_nat b) (sb s)"

definition used :: "'z fsst_scheme \<Rightarrow> nat \<Rightarrow> bool" where
  "used s b = bit_used (bview s (bitmap_of s b)) (b mod BPB)"

text \<open>The layout of the disk: the map is on the disk and outside the log, and a free block is a block of the disk that belongs
  neither to the log nor to the map.\<close>

definition alloc_ok :: "'z fsst_scheme \<Rightarrow> bool" where
  "alloc_ok s = (\<forall>b < nblocks s. bitmap_of s b < disksize s \<and> \<not> in_log s (bitmap_of s b) \<and>
     (\<not> used s b \<longrightarrow> b < disksize s \<and> \<not> in_log s b \<and> (\<forall>c < nblocks s. bitmap_of s c \<noteq> b)))"

lemma BPB_4096: "BPB = 4096" by (simp add: BPB_def BSIZE_def)

lemma nblocks_less: "nblocks s < 2 ^ 32"
  using unsigned_less[of "sb_size (sb s)"] by (simp add: nblocks_def)

lemma bitmap_of_chunk:
  assumes "k * BPB + bi < nblocks s" and "bi < BPB"
  shows "bitmap_of s (k * BPB + bi) = bitmap_of s (k * BPB)" and "(k * BPB + bi) mod BPB = bi"
proof -
  have l: "k * BPB + bi < 2 ^ 32" "k * BPB < 2 ^ 32" using assms(1) nblocks_less[of s] by simp_all
  have "of_nat (k * BPB + bi) div of_nat BPB = (of_nat (k * BPB) div of_nat BPB :: u32)"
    using l assms(2) unat_of_nat_small[of "k * BPB + bi", where 'a = 32] unat_of_nat_small[of "k * BPB", where 'a = 32]
    by (simp add: word_unat_eq_iff unat_div_distrib BPB_4096 del: of_nat_add of_nat_mult)
  then show "bitmap_of s (k * BPB + bi) = bitmap_of s (k * BPB)" by (simp add: bitmap_of_def BBLOCK_def)
  show "(k * BPB + bi) mod BPB = bi" using assms(2) by simp
qed

lemma bitmap_of_eq: "b < nblocks s \<Longrightarrow> c < nblocks s \<Longrightarrow> bitmap_of s b = bitmap_of s c \<Longrightarrow> b div BPB = c div BPB"
proof -
  assume l: "b < nblocks s" "c < nblocks s" and e: "bitmap_of s b = bitmap_of s c"
  have u: "unat (of_nat b div of_nat BPB :: u32) = b div BPB" if "b < nblocks s" for b
    using that nblocks_less[of s] unat_of_nat_small[of b, where 'a = 32] by (simp add: unat_div_distrib BPB_4096)
  from e have "of_nat b div of_nat BPB + sb_bmapstart (sb s) = (of_nat c div of_nat BPB + sb_bmapstart (sb s) :: u32)"
    unfolding bitmap_of_def BBLOCK_def by (rule word_unat_eqD)
  then have "of_nat b div of_nat BPB = (of_nat c div of_nat BPB :: u32)" by (simp only: add_right_cancel)
  then show ?thesis using u[OF l(1)] u[OF l(2)] by simp
qed

lemma upt_filter: "filter (\<lambda>i. b + i < lim) [0..<n] = [0..<min n (lim - b)]"
proof (induction n)
  case (Suc n)
  show ?case
  proof (cases "b + n < lim")
    case True
    then have "min (Suc n) (lim - b) = Suc n" "min n (lim - b) = n" by linarith+
    then show ?thesis using Suc True by simp
  next
    case False
    then have "min (Suc n) (lim - b) = min n (lim - b)" by linarith
    then show ?thesis using Suc False by simp
  qed
qed simp

lemma free_bit_iff:
  "free_bit lim b d = Some i \<longleftrightarrow> i < BPB \<and> b + i < lim \<and> \<not> bit_used d i \<and> (\<forall>j < i. bit_used d j)"
  "free_bit lim b d = None \<longleftrightarrow> (\<forall>i < BPB. b + i < lim \<longrightarrow> bit_used d i)"
proof -
  have "free_bit lim b d = find (\<lambda>i. \<not> bit_used d i) [0..<min BPB (lim - b)]" by (simp add: free_bit_def upt_filter)
  then show "free_bit lim b d = Some i \<longleftrightarrow> i < BPB \<and> b + i < lim \<and> \<not> bit_used d i \<and> (\<forall>j < i. bit_used d j)"
    and "free_bit lim b d = None \<longleftrightarrow> (\<forall>i < BPB. b + i < lim \<longrightarrow> bit_used d i)"
    by (auto simp: find_Some_iff find_None_iff)
qed

text \<open>What stays: the file system's own variables.\<close>

lemma fs_frame:
  assumes "log_frame s (t :: 'z fsst_scheme)"
  shows "sb t = sb s" "inodes t = inodes s" "nblocks t = nblocks s" "bitmap_of t = bitmap_of s" "in_log t = in_log s" "disksize t = disksize s"
proof -
  note F = log_frame_fields[OF assms]
  show "sb t = sb s" "inodes t = inodes s" using F(14) by (cases s; cases t; simp)+
  then show "nblocks t = nblocks s" "bitmap_of t = bitmap_of s" by (simp_all add: nblocks_def bitmap_of_def fun_eq_iff)
  show "in_log t = in_log s" "disksize t = disksize s" using F by simp_all
qed

lemma used_cong: "log_frame s (t :: 'z fsst_scheme) \<Longrightarrow> bview t = bview s \<Longrightarrow> used t = used s"
  by (simp add: used_def fs_frame fun_eq_iff)

lemma alloc_ok_cong: "log_frame s (t :: 'z fsst_scheme) \<Longrightarrow> used t = used s \<Longrightarrow> alloc_ok t = alloc_ok s"
  by (simp add: alloc_ok_def fs_frame)

text \<open>The state after block \<open>b\<close> is taken.\<close>

definition taken :: "'z fsst_scheme \<Rightarrow> nat \<Rightarrow> 'z fsst_scheme \<Rightarrow> bool" where
  "taken s b t = (b < nblocks s \<and> \<not> used s b \<and> (\<forall>c < b. used s c) \<and> log_frame s t \<and>
     (\<forall>c < nblocks s. used t c = (c = b \<or> used s c)) \<and> bview t b = replicate BSIZE 0 \<and>
     (\<forall>c. c \<noteq> b \<and> c \<noteq> bitmap_of s b \<longrightarrow> bview t c = bview s c))"

lemma bview_len: "tx s H k \<Longrightarrow> i \<in> H \<Longrightarrow> length (bview s (b_blockno (bufs s ! i))) = BSIZE"
  using bio.got_law[of s H i] by (auto simp: tx_def)

lemma taken_of_view:
  assumes b: "b < nblocks s" "\<not> used s b" "\<forall>c < b. used s c" and ok: "alloc_ok s" and f: "log_frame s t"
    and len: "length (bview s (bitmap_of s b)) = BSIZE"
    and w: "bview t = (bview s)(bitmap_of s b := set_used (bview s (bitmap_of s b)) (b mod BPB), b := replicate BSIZE 0)"
  shows "taken s b t"
proof -
  have nb: "bitmap_of s c \<noteq> b" if "c < nblocks s" for c using ok b that by (simp add: alloc_ok_def)
  have u: "used t c = (c = b \<or> used s c)" if c: "c < nblocks s" for c
  proof (cases "bitmap_of s c = bitmap_of s b")
    case True
    then have e: "c div BPB = b div BPB" using bitmap_of_eq c b(1) by blast
    then have m: "c mod BPB = b mod BPB \<longleftrightarrow> c = b" by (metis div_mult_mod_eq)
    have "b mod BPB < 8 * length (bview s (bitmap_of s b))" by (simp add: len BPB_def BSIZE_def)
    then show ?thesis
      using True nb[OF c] m by (simp add: used_def fs_frame[OF f] w bit_used_set)
  next
    case False
    then show ?thesis using nb[OF c] by (auto simp: used_def fs_frame[OF f] w)
  qed
  show ?thesis unfolding taken_def using b f u w by auto
qed

lemma taken_alloc_ok:
  assumes "taken s b t" and "alloc_ok s"
  shows "alloc_ok t"
proof -
  have f: "log_frame s t" and u: "\<forall>c < nblocks s. used t c = (c = b \<or> used s c)" using assms(1) by (auto simp: taken_def)
  show ?thesis using assms(2) u unfolding alloc_ok_def fs_frame[OF f] by blast
qed

lemma taken_frame: "log_frame s u \<Longrightarrow> bview u = bview s \<Longrightarrow> taken u b t \<Longrightarrow> taken s b t"
  using log_frame_trans[of s u t] by (simp add: taken_def fs_frame used_cong)

lemma bzero_run:
  assumes "tx s {} (Suc k)" and "b < disksize s" "\<not> in_log s b"
  shows "returns (bzero 1 b s) (\<lambda>_ t. tx t {} k \<and> log_frame s t \<and> bview t = (bview s)(b := replicate BSIZE 0))"
  unfolding bzero_def
  by (rule returns_mono[OF tx_update[OF assms, of "\<lambda>_. replicate BSIZE 0"]]) auto

text \<open>A chunk of the map with a free bit: the bit is set, and the block cleared.\<close>

lemma balloc_take:
  assumes u: "tx u {i} (Suc (Suc q))" and f: "log_frame s u" and w: "bview u = bview s" and bi: "b_blockno (bufs u ! i) = bitmap_of s (k * BPB)"
    and ok: "alloc_ok s" and fb: "free_bit (nblocks s) (k * BPB) (bview s (bitmap_of s (k * BPB))) = Some j"
    and low: "\<And>c. c < k * BPB \<Longrightarrow> used s c"
  shows "returns (bnd (log_write i (set_data i (set_used (bview s (bitmap_of s (k * BPB))) j) u)) (\<lambda>_ s.
         bnd (brelse i s) (\<lambda>_ s.
         bnd (bzero 1 (k * BPB + j) s) (\<lambda>_ s.
         Ret (of_nat (k * BPB + j)) s)))) (\<lambda>(x :: u32) t. taken s (unat x) t \<and> tx t {} q)"
proof -
  let ?b = "k * BPB + j" and ?c = "bitmap_of s (k * BPB)"
  have J: "j < BPB" "?b < nblocks s" "\<not> bit_used (bview s ?c) j" "\<And>l. l < j \<Longrightarrow> bit_used (bview s ?c) l"
    using fb by (auto simp: free_bit_iff)
  note bm = bitmap_of_chunk[OF J(2,1)]
  have us: "used s (k * BPB + l) = bit_used (bview s ?c) l" if "l \<le> j" for l
    using bitmap_of_chunk[of k l s] J that by (simp add: used_def)
  have nu: "\<not> used s ?b" using us[of j] J(3) by simp
  have lo: "used s c" if c: "c < ?b" for c
  proof (cases "c < k * BPB")
    case False
    then have "c = k * BPB + (c - k * BPB)" "c - k * BPB < j" using c by auto
    then show ?thesis using us[of "c - k * BPB"] J(4) by simp
  qed (rule low)
  have k: "k * BPB < nblocks s" using J(2) by simp
  have geo: "\<not> in_log s ?c" "?b < disksize s" "\<not> in_log s ?b" using ok J(2) k nu by (auto simp: alloc_ok_def)
  have len: "length (bview s ?c) = BSIZE" using bview_len[OF u, of i] w bi by simp
  have x: "unat (of_nat ?b :: u32) = ?b" using J(2) nblocks_less[of s] unat_of_nat_small[of ?b, where 'a = 32] by simp
  have nl: "\<not> in_log u ?c" using geo(1) fs_frame(5)[OF f] by simp
  show ?thesis
  proof (rule returns_bnd[OF tx_modify[OF u _ _ bi[symmetric] nl]], goal_cases)
    case (3 z v)
    then have v: "tx v {i} (Suc q)" and fv: "log_frame s v" and wv: "bview v = (bview s)(?c := set_used (bview s ?c) j)"
      using log_frame_trans[OF f] w by auto
    show ?case
    proof (rule returns_bnd[OF tx_brelse[OF v]], goal_cases)
      case (2 z y)
      then have y: "tx y {} (Suc q)" and fy: "log_frame s y" and wy: "bview y = bview v" using log_frame_trans[OF fv] by auto
      show ?case
      proof (rule returns_bnd[OF bzero_run[OF y]], goal_cases)
        case (3 z t)
        then have ft: "log_frame s t" using log_frame_trans[OF fy] by blast
        have "taken s ?b t"
          by (rule taken_of_view[OF J(2) nu _ ok ft]) (use 3 wy wv bm len lo in auto)
        then show ?case using 3 by (simp only: returns_Ret x simp_thms)
      qed (use geo fs_frame[OF fy] in auto)
    qed simp
  qed (use len in auto)
qed

definition alloc_result :: "nat \<Rightarrow> 'z fsst_scheme \<Rightarrow> (u32, 'z fsst_scheme) outcome \<Rightarrow> bool" where
  "alloc_result q s m = (if \<exists>b < nblocks s. \<not> used s b then returns m (\<lambda>x t. taken s (unat x) t \<and> tx t {} q)
     else m = Panic ''balloc: out of blocks'')"

lemma alloc_result_frame:
  assumes "log_frame s u" and "bview u = bview s" and "alloc_result q u m"
  shows "alloc_result q s m"
proof -
  have e: "nblocks u = nblocks s" "used u = used s" using assms(1,2) by (simp_all add: fs_frame used_cong)
  show ?thesis
    using assms(3) taken_frame[OF assms(1,2)] unfolding alloc_result_def e
    by (auto elim!: returns_mono split: if_splits)
qed

lemma balloc_loop_run:
  assumes "tx s {} (Suc (Suc q))" and "alloc_ok s" and "n = (nblocks s + BPB - 1) div BPB" and "k \<le> n"
    and "\<And>c. c < k * BPB \<Longrightarrow> c < nblocks s \<Longrightarrow> used s c"
  shows "alloc_result q s (balloc_loop 1 (map (\<lambda>k. k * BPB) [k..<n]) s)"
  using assms
proof (induction "n - k" arbitrary: k s)
  case 0
  have "nblocks s \<le> n * BPB" using 0(4) by (simp add: BPB_4096)
  then have "used s c" if "c < nblocks s" for c using that 0 by simp
  then show ?case using 0(1) by (auto simp: alloc_result_def)
next
  case (Suc m)
  note t = Suc.prems(1) and ok = Suc.prems(2) and low = Suc.prems(5)
  have kn: "k < n" using Suc.hyps(2) by simp
  have k: "k * BPB < nblocks s" using kn Suc.prems(3) by (simp add: BPB_4096)
  have lt: "bitmap_of s (k * BPB) < disksize s" using ok k by (simp add: alloc_ok_def)
  have low': "used s c" if "c < k * BPB" for c using low[OF that] that k by simp
  let ?d = "bview s (bitmap_of s (k * BPB))"
  let ?K = "\<lambda>bp s. case free_bit (unat (sb_size (sb s))) (k * BPB) (b_data (bufs s ! bp)) of
       Some bi \<Rightarrow>
         bnd (log_write bp (set_data bp (set_used (b_data (bufs s ! bp)) bi) s)) (\<lambda>_ s.
         bnd (brelse bp s) (\<lambda>_ s.
         bnd (bzero 1 (k * BPB + bi) s) (\<lambda>_ s.
         Ret (of_nat (k * BPB + bi)) s)))
     | None \<Rightarrow> bnd (brelse bp s) (\<lambda>_ s. balloc_loop 1 (map (\<lambda>k. k * BPB) [Suc k..<n]) s)"
  have eq: "balloc_loop 1 (map (\<lambda>k. k * BPB) [k..<n]) s = bnd (bread 1 (bitmap_of s (k * BPB)) s) ?K"
    by (simp only: upt_conv_Cons[OF kn] list.map balloc_loop.simps bitmap_of_def)
  obtain i u where run: "bread 1 (bitmap_of s (k * BPB)) s = Ret i u" and u: "tx u {i} (Suc (Suc q))" and f: "log_frame s u"
    and bi: "b_blockno (bufs u ! i) = bitmap_of s (k * BPB)" and dt: "b_data (bufs u ! i) = ?d" and w: "bview u = bview s"
    by (rule returnsE[OF tx_bread[OF t _ lt]]) auto
  have fbu: "free_bit (unat (sb_size (sb u))) (k * BPB) (b_data (bufs u ! i)) = free_bit (nblocks s) (k * BPB) ?d"
    using fs_frame(1)[OF f] dt by (simp add: nblocks_def)
  show ?case
  proof (cases "free_bit (nblocks s) (k * BPB) ?d")
    case (Some j)
    then have "k * BPB + j < nblocks s" "\<not> used s (k * BPB + j)"
      using bitmap_of_chunk[of k j s] by (auto simp: free_bit_iff used_def)
    then show ?thesis
      using balloc_take[OF u f w bi ok Some low'] fbu Some dt run eq by (auto simp: alloc_result_def)
  next
    case None
    obtain v where rel: "brelse i u = Ret () v" and v: "tx v {} (Suc (Suc q))" and fv: "log_frame s v" and wv: "bview v = bview s"
      by (rule returnsE[OF tx_brelse[OF u insertI1]]) (use w log_frame_trans[OF f] in auto)
    have used': "used v c" if c: "c < Suc k * BPB" "c < nblocks v" for c
    proof (cases "c < k * BPB")
      case False
      then have e: "c = k * BPB + (c - k * BPB)" "c - k * BPB < BPB" using c by auto
      then have "bit_used ?d (c - k * BPB)" using None c(2) fs_frame(3)[OF fv] by (auto simp: free_bit_iff)
      then have "used s c" using bitmap_of_chunk[of k "c - k * BPB" s] e c(2) fs_frame(3)[OF fv] by (simp add: used_def)
      then show ?thesis using used_cong[OF fv wv] by simp
    qed (use low' used_cong[OF fv wv] in simp)
    have "alloc_result q v (balloc_loop 1 (map (\<lambda>k. k * BPB) [Suc k..<n]) v)"
      by (rule Suc.hyps(1)[OF _ v]) (use Suc.hyps(2) Suc.prems(3) kn used' ok alloc_ok_cong[OF fv] used_cong[OF fv wv] fs_frame(3)[OF fv] in auto)
    then show ?thesis using alloc_result_frame[OF fv wv] eq run fbu None rel by simp
  qed
qed

lemma balloc_run:
  assumes "tx s {} (Suc (Suc q))" and "alloc_ok s"
  shows "alloc_result q s (balloc 1 s)"
  using balloc_loop_run[OF assms refl, of 0] by (simp add: balloc_def nblocks_def)

lemma balloc_free:
  assumes "tx s {} (Suc (Suc q))" and "alloc_ok s" and "b < nblocks s" and "\<not> used s b"
  shows "returns (balloc 1 s) (\<lambda>x t. taken s (unat x) t \<and> tx t {} q)"
proof -
  have e: "\<exists>b < nblocks s. \<not> used s b" using assms(3,4) by blast
  show ?thesis using balloc_run[OF assms(1,2)] unfolding alloc_result_def if_P[OF e] .
qed

text \<open>Freeing: the bit of the block is cleared; it must have been set.\<close>

definition freed :: "'z fsst_scheme \<Rightarrow> nat \<Rightarrow> 'z fsst_scheme \<Rightarrow> bool" where
  "freed s b t = (log_frame s t \<and> (\<forall>c < nblocks s. used t c = (c \<noteq> b \<and> used s c)) \<and>
     (\<forall>c. c \<noteq> bitmap_of s b \<longrightarrow> bview t c = bview s c))"

lemma bfree_start:
  assumes t: "tx s {} q" and b: "b < nblocks s" and geo: "bitmap_of s b < disksize s"
  obtains i u where "tx u {i} q" and "log_frame s u" and "b_blockno (bufs u ! i) = bitmap_of s b" and "bview u = bview s"
    and "bfree 1 (of_nat b) s = (if \<not> used s b then Panic ''freeing free block''
      else bnd (log_write i (set_data i (set_free (bview s (bitmap_of s b)) (b mod BPB)) u)) (\<lambda>_ s. brelse i s))"
proof -
  have x: "unat (of_nat b :: u32) = b" using b nblocks_less[of s] unat_of_nat_small[of b, where 'a = 32] by simp
  have bi: "unat (of_nat b mod of_nat BPB :: u32) = b mod BPB" by (simp add: unat_mod_distrib x BPB_4096)
  obtain i u where run: "bread 1 (bitmap_of s b) s = Ret i u" and u: "tx u {i} q" and f: "log_frame s u"
    and k: "b_blockno (bufs u ! i) = bitmap_of s b" and dt: "b_data (bufs u ! i) = bview s (bitmap_of s b)" and w: "bview u = bview s"
    by (rule returnsE[OF tx_bread[OF t _ geo]]) auto
  have eq: "bfree 1 (of_nat b) s = (if \<not> used s b then Panic ''freeing free block''
      else bnd (log_write i (set_data i (set_free (bview s (bitmap_of s b)) (b mod BPB)) u)) (\<lambda>_ s. brelse i s))"
    using run[unfolded bitmap_of_def] by (simp add: bfree_def Let_def bi dt used_def bitmap_of_def)
  show thesis by (rule that[OF u f k w eq])
qed

lemma bfree_free:
  assumes "tx s {} q" and "b < nblocks s" and "bitmap_of s b < disksize s" and "\<not> used s b"
  shows "bfree 1 (of_nat b) s = Panic ''freeing free block''"
  by (rule bfree_start[OF assms(1-3)]) (simp only: assms(4) simp_thms if_True)

lemma bfree_run:
  assumes t: "tx s {} (Suc q)" and b: "b < nblocks s" and geo: "bitmap_of s b < disksize s" "\<not> in_log s (bitmap_of s b)"
    and us: "used s b"
  shows "returns (bfree 1 (of_nat b) s) (\<lambda>_ t. freed s b t \<and> tx t {} q)"
proof -
  obtain i u where u: "tx u {i} (Suc q)" and f: "log_frame s u" and k: "b_blockno (bufs u ! i) = bitmap_of s b" and w: "bview u = bview s"
    and "bfree 1 (of_nat b) s = (if \<not> used s b then Panic ''freeing free block''
      else bnd (log_write i (set_data i (set_free (bview s (bitmap_of s b)) (b mod BPB)) u)) (\<lambda>_ s. brelse i s))"
    by (rule bfree_start[OF t b geo(1)])
  then have eq: "bfree 1 (of_nat b) s =
      bnd (log_write i (set_data i (set_free (bview s (bitmap_of s b)) (b mod BPB)) u)) (\<lambda>_ s. brelse i s)"
    by (simp only: us simp_thms if_False)
  let ?d = "bview s (bitmap_of s b)"
  have len: "length ?d = BSIZE" using bview_len[OF u, of i] w k by simp
  show ?thesis unfolding eq
  proof (rule returns_bnd[OF tx_modify[OF u _ _ k[symmetric]]], goal_cases)
    case (4 z v)
    then have v: "tx v {i} q" and fv: "log_frame s v" and wv: "bview v = (bview s)(bitmap_of s b := set_free ?d (b mod BPB))"
      using log_frame_trans[OF f] w by auto
    show ?case
    proof (rule returns_mono[OF tx_brelse[OF v]], goal_cases)
      case (2 z t)
      then have ft: "log_frame s t" and wt: "bview t = bview v" using log_frame_trans[OF fv] by auto
      have "used t c = (c \<noteq> b \<and> used s c)" if c: "c < nblocks s" for c
      proof (cases "bitmap_of s c = bitmap_of s b")
        case True
        then have "c div BPB = b div BPB" using bitmap_of_eq c b by blast
        then have m: "c mod BPB = b mod BPB \<longleftrightarrow> c = b" by (metis div_mult_mod_eq)
        have "b mod BPB < 8 * length ?d" by (simp add: len BPB_def BSIZE_def)
        then show ?thesis using True m by (simp add: used_def fs_frame[OF ft] wt wv bit_used_set)
      qed (auto simp: used_def fs_frame[OF ft] wt wv)
      then show ?case using 2 ft wt wv by (simp add: freed_def)
    qed simp
  qed (use len geo fs_frame[OF f] in auto)
qed

subsection \<open>Properties\<close>

text \<open>C17: The allocator of disk blocks takes the first free block.  It marks that block and no other as used, clears it, and
  changes nothing else on the disk as the operation sees it; when no block is free it panics.\<close>

theorem balloc_first_free:
  assumes "tx s {} (q + 2)" and "alloc_ok s"
  shows "if \<exists>b < nblocks s. \<not> used s b
    then returns (balloc 1 s) (\<lambda>x t. \<not> used s (unat x) \<and> unat x < nblocks s \<and> (\<forall>c < unat x. used s c) \<and>
      (\<forall>c < nblocks s. used t c = (c = unat x \<or> used s c)) \<and> bview t (unat x) = replicate BSIZE 0 \<and>
      (\<forall>c. c \<noteq> unat x \<and> c \<noteq> bitmap_of s (unat x) \<longrightarrow> bview t c = bview s c) \<and> tx t {} q \<and> alloc_ok t)
    else balloc 1 s = Panic ''balloc: out of blocks''"
proof (cases "\<exists>b < nblocks s. \<not> used s b")
  case True
  then have "returns (balloc 1 s) (\<lambda>x t. taken s (unat x) t \<and> tx t {} q)"
    using balloc_free[of s q] assms by auto
  then have "returns (balloc 1 s) (\<lambda>x t. taken s (unat x) t \<and> tx t {} q \<and> alloc_ok t)"
    by (rule returns_mono) (use assms(2) taken_alloc_ok in blast)
  then show ?thesis unfolding if_P[OF True] by (rule returns_mono) (auto simp: taken_def)
next
  case False
  have "alloc_result q s (balloc 1 s)" using balloc_run[of s q] assms by simp
  then show ?thesis unfolding if_not_P[OF False] alloc_result_def .
qed

text \<open>C18: A block that was allocated can be freed, which puts the map of used blocks back as it was; freeing it a second time
  panics.\<close>

theorem balloc_bfree_roundtrip:
  assumes "tx s {} (Suc q + 2)" and "alloc_ok s" and "b < nblocks s" and "\<not> used s b"
  shows "returns (bnd (balloc 1 s) (\<lambda>x s. bnd (bfree 1 x s) (\<lambda>_ s. Ret x s)))
    (\<lambda>x t. (\<forall>c < nblocks s. used t c = used s c) \<and> bfree 1 x t = Panic ''freeing free block'')"
proof (rule returns_bnd)
  show "returns (balloc 1 s) (\<lambda>x t. taken s (unat x) t \<and> tx t {} (Suc q))"
    using balloc_free[of s "Suc q" b] assms by simp
  fix x :: u32 and t assume "taken s (unat x) t \<and> tx t {} (Suc q)"
  then have k: "taken s (unat x) t" and tt: "tx t {} (Suc q)" by auto
  have f: "log_frame s t" and n: "unat x < nblocks s" "\<not> used s (unat x)" using k by (auto simp: taken_def)
  have ok: "alloc_ok t" by (rule taken_alloc_ok[OF k assms(2)])
  note F = fs_frame[OF f]
  have u: "used t (unat x)" using k n by (simp add: taken_def)
  have geo: "bitmap_of t (unat x) < disksize t" "\<not> in_log t (bitmap_of t (unat x))" using ok n F by (simp_all add: alloc_ok_def)
  have run: "returns (bfree 1 x t) (\<lambda>_ v. freed t (unat x) v \<and> tx v {} q)"
    using bfree_run[OF tt _ geo u] n F by simp
  show "returns (bnd (bfree 1 x t) (\<lambda>_ s. Ret x s))
    (\<lambda>x t. (\<forall>c < nblocks s. used t c = used s c) \<and> bfree 1 x t = Panic ''freeing free block'')"
  proof (rule returns_bnd[OF run])
    fix z v assume "freed t (unat x) v \<and> tx v {} q"
    then have v: "freed t (unat x) v" "tx v {} q" by auto
    note G = fs_frame[of t v]
    have fv: "log_frame t v" using v by (simp add: freed_def)
    have us: "used v c = used s c" if "c < nblocks s" for c using v k that F n by (auto simp: freed_def taken_def)
    have "bfree 1 (of_nat (unat x)) v = Panic ''freeing free block''"
      by (rule bfree_free[OF v(2)]) (use us n geo F fs_frame[OF fv] in auto)
    then show "returns (Ret x v) (\<lambda>x t. (\<forall>c < nblocks s. used t c = used s c) \<and> bfree 1 x t = Panic ''freeing free block'')"
      using us by simp
  qed
qed

subsection \<open>A concrete transaction\<close>

lemma tx_of_wf:
  assumes "log_wf s" and "quiet s" and "1 \<le> l_outstanding s" and "l_n s + int k < l_size s"
  shows "tx s {} k"
  using log_wfD[OF assms(1)] assms(2-4) by (simp add: tx_def quiet_def quiet_but_def)

definition demo_alloc :: fsst where
  "demo_alloc = lgst.extend demo_lgst \<lparr>sb = (decode_sb (demo_disk 1))\<lparr>sb_size := 2\<rparr>, inodes = []\<rparr>"

lemma demo_alloc_fields [simp]:
  "l_start demo_alloc = 2" "l_size demo_alloc = 30" "l_outstanding demo_alloc = 1" "l_dev demo_alloc = 1"
  "l_n demo_alloc = 1" "l_block demo_alloc = 700 # replicate 29 0" "nblocks demo_alloc = 2" "disksize demo_alloc = 1000"
  by (simp_all add: demo_alloc_def lgst.defs nblocks_def)

lemma demo_alloc_same: "same_bst demo_lgst demo_alloc"
  by (simp add: same_bst_def demo_alloc_def lgst.defs mypid_def myproc_def)

lemma demo_alloc_tx: "k \<le> 28 \<Longrightarrow> tx demo_alloc {} k"
proof -
  assume "k \<le> 28"
  moreover have "log_wf demo_alloc" using same_bst_wf(1)[OF demo_alloc_same] demo_log_wf by simp
  moreover have "quiet demo_alloc" using same_bst_eqs(10)[OF demo_alloc_same] demo_quiet by simp
  ultimately show ?thesis by (intro tx_of_wf) auto
qed

lemma demo_alloc_map: "b < 2 \<Longrightarrow> bitmap_of demo_alloc b = 58"
proof -
  assume "b < 2"
  then have "b = 0 \<or> b = 1" by auto
  then have "of_nat b div 4096 = (0 :: u32)" by auto
  moreover have "get32 (demo_disk 1) 6 = 58"
    by (simp add: demo_disk_def get32_put32s BSIZE_def del: put32s.simps)
  ultimately show ?thesis
    by (simp add: bitmap_of_def BBLOCK_def BPB_4096 demo_alloc_def lgst.defs decode_sb_def)
qed

lemma demo_alloc_unused: "b < 2 \<Longrightarrow> \<not> used demo_alloc b"
proof -
  assume b: "b < 2"
  have w: "bview demo_alloc = bview demo_bst" using same_bst_eqs(4)[OF demo_alloc_same] same_bst_eqs(4)[OF demo_same] by simp
  have inv: "bio_inv demo_bst {}" using demo_ok by (simp add: bio_ok_def)
  have "bview demo_bst 58 = replicate BSIZE 0"
    using bview_uncached[OF inv, of 58] by (simp add: demo_cached demo_disk_def)
  then show ?thesis using b by (simp add: used_def demo_alloc_map w bit_used_bit BPB_4096 BSIZE_def)
qed

lemma demo_alloc_ok: "alloc_ok demo_alloc"
  unfolding alloc_ok_def using demo_alloc_map
  by (auto simp: in_log_def logno_def)

theorem balloc_first_free_witness:
  "returns (balloc 1 demo_alloc) (\<lambda>x t. unat x = 0 \<and> used t 0)"
proof -
  have e: "\<exists>b < nblocks demo_alloc. \<not> used demo_alloc b" using demo_alloc_unused[of 0] by (intro exI[of _ 0]) simp
  show ?thesis
  proof (rule returns_mono[OF balloc_first_free[of demo_alloc 1, unfolded if_P[OF e], OF demo_alloc_tx demo_alloc_ok]], goal_cases)
    case (2 x t)
    then have "unat x = 0" using demo_alloc_unused[of 0] by (metis gr0I zero_less_numeral)
    then show ?case using 2 by simp
  qed simp
qed

theorem balloc_bfree_roundtrip_witness:
  "returns (bnd (balloc 1 demo_alloc) (\<lambda>x s. bnd (bfree 1 x s) (\<lambda>_ s. Ret x s))) (\<lambda>x t. \<not> used t 1)"
  by (rule returns_mono[OF balloc_bfree_roundtrip[of demo_alloc 0 1, OF demo_alloc_tx demo_alloc_ok]])
     (use demo_alloc_unused in auto)

end
