(* ===== verification/Inode.thy ===== *)
theory Inode
  imports Alloc
begin

text \<open>
  Correctness of the inode layer of \<^verbatim>\<open>fs.c\<close>: how inodes lie in their blocks, and that \<open>iupdate\<close> stores an inode where \<open>ilock\<close>
  finds it.
\<close>

subsection \<open>Mixed halves and words\<close>

lemma get16_put32:
  assumes "4 * k + 3 < length d" and "2 * j + 1 < length d" and "j div 2 \<noteq> k"
  shows "get16 (put32 d k v) j = get16 d j"
proof -
  have "2 * j + a \<noteq> 4 * k + b" if "a < 2" "b < 4" for a b using that assms(3) by presburger
  from this[of 0] this[of 1] show ?thesis using assms by (simp add: get16_def put32_def nth_list_update)
qed

lemma get32_put16:
  assumes "2 * k + 1 < length d" and "4 * j + 3 < length d" and "k div 2 \<noteq> j"
  shows "get32 (put16 d k v) j = get32 d j"
proof -
  have "2 * k + a \<noteq> 4 * j + b" if "a < 2" "b < 4" for a b using that assms(3) by presburger
  from this[of 0] this[of 1] show ?thesis using assms by (simp add: get32_def put16_def nth_list_update)
qed

lemma get16_put32s:
  assumes "4 * (k + length vs) \<le> length d" and "2 * j + 1 < length d" and "j div 2 < k \<or> k + length vs \<le> j div 2"
  shows "get16 (put32s d k vs) j = get16 d j"
  using assms
proof (induction d k vs rule: put32s.induct)
  case (2 d k v vs)
  have "j div 2 \<noteq> k" using "2.prems" by auto
  then show ?case using 2 by (auto simp: get16_put32)
qed simp

subsection \<open>Inodes in a block\<close>

lemma IPB_8: "IPB = 8" by (simp add: IPB_def BSIZE_def)

lemma length_put_dinode [simp]: "length (put_dinode d k di) = length d"
  by (simp add: put_dinode_def Let_def)

lemmas put_get = get16_put16 get32_put32 get16_put32 get32_put16 get16_put32s get32_put32s

text \<open>Inode \<open>k\<close> has the words \<open>16 k\<close> to \<open>16 k + 15\<close>.\<close>

lemma put_dinode_other:
  assumes d: "length d = BSIZE" "k < IPB" "length (di_addrs di) = NDIRECT + 1"
  shows "j < 256 \<Longrightarrow> j div 32 \<noteq> k \<Longrightarrow> get16 (put_dinode d k di) j = get16 d j"
    and "j < 128 \<Longrightarrow> j div 16 \<noteq> k \<Longrightarrow> get32 (put_dinode d k di) j = get32 d j"
proof -
  have b: "length d = 512" "k < 8" "length (di_addrs di) = 13" using d by (simp_all add: BSIZE_def IPB_8 NDIRECT_def)
  show "get16 (put_dinode d k di) j = get16 d j" if j: "j < 256" "j div 32 \<noteq> k"
  proof -
    have "j < 32 * k \<or> 32 * Suc k \<le> j" using j(2) div_nat_eqI[of 32 k j] by force
    then have n: "j \<noteq> 32 * k" "j \<noteq> 32 * k + 1" "j \<noteq> 32 * k + 2" "j \<noteq> 32 * k + 3" "j div 2 \<noteq> 16 * k + 2"
      "j div 2 < 16 * k + 3 \<or> 16 * k + 3 + 13 \<le> j div 2"
      by auto
    show ?thesis using b j(1) n by (simp add: put_dinode_def Let_def put_get)
  qed
  show "get32 (put_dinode d k di) j = get32 d j" if j: "j < 128" "j div 16 \<noteq> k"
  proof -
    have "j < 16 * k \<or> 16 * Suc k \<le> j" using j(2) div_nat_eqI[of 16 k j] by force
    then have n: "j \<noteq> 16 * k + 2" "\<not> (16 * k + 3 \<le> j \<and> j < 16 * k + 3 + 13)" "(32 * k) div 2 \<noteq> j" "(32 * k + 1) div 2 \<noteq> j"
      "(32 * k + 2) div 2 \<noteq> j" "(32 * k + 3) div 2 \<noteq> j"
      by auto
    show ?thesis using b j(1) n by (auto simp add: put_dinode_def Let_def put_get)
  qed
qed

lemma get_dinode_put:
  assumes d: "length d = BSIZE" "k < IPB" "length (di_addrs di) = NDIRECT + 1" "l < IPB"
  shows "get_dinode (put_dinode d k di) l = (if l = k then di else get_dinode d l)"
proof (cases "l = k")
  case True
  have b: "length d = 512" "k < 8" "length (di_addrs di) = 13" using d by (simp_all add: BSIZE_def IPB_8 NDIRECT_def)
  have q: "(32 * k) div 2 = 16 * k" "(32 * k + 1) div 2 = 16 * k" "(32 * k + 2) div 2 = 16 * k + 1" "(32 * k + 3) div 2 = 16 * k + 1"
    by auto
  have "map (\<lambda>j. get32 (put_dinode d k di) (16 * k + 3 + j)) [0..<NDIRECT + 1] = di_addrs di"
    by (rule nth_equalityI) (use b in \<open>auto simp: NDIRECT_def put_dinode_def Let_def put_get simp del: upt_Suc\<close>)
  moreover have "get16 (put_dinode d k di) (32 * k) = di_type di" "get16 (put_dinode d k di) (32 * k + 1) = di_major di"
    "get16 (put_dinode d k di) (32 * k + 2) = di_minor di" "get16 (put_dinode d k di) (32 * k + 3) = di_nlink di"
    "get32 (put_dinode d k di) (16 * k + 2) = di_size di"
    using b q by (simp_all add: put_dinode_def Let_def put_get)
  ultimately show ?thesis using True by (simp add: get_dinode_def)
next
  case False
  have "get16 (put_dinode d k di) (32 * l + a) = get16 d (32 * l + a)" if "a < 4" for a
    by (rule put_dinode_other(1)[OF d(1-3)]) (use d(4) that False in \<open>auto simp: IPB_8\<close>)
  from this[of 0] this[of 1] this[of 2] this[of 3]
  have "get16 (put_dinode d k di) (32 * l) = get16 d (32 * l)" "get16 (put_dinode d k di) (32 * l + 1) = get16 d (32 * l + 1)"
    "get16 (put_dinode d k di) (32 * l + 2) = get16 d (32 * l + 2)" "get16 (put_dinode d k di) (32 * l + 3) = get16 d (32 * l + 3)"
    by simp_all
  moreover have w: "get32 (put_dinode d k di) (16 * l + a) = get32 d (16 * l + a)" if "a < 16" for a
    by (rule put_dinode_other(2)[OF d(1-3)]) (use d(4) that False in \<open>auto simp: IPB_8\<close>)
  have "get32 (put_dinode d k di) (16 * l + 2) = get32 d (16 * l + 2)" by (rule w) simp
  moreover have "map (\<lambda>j. get32 (put_dinode d k di) (16 * l + 3 + j)) [0..<NDIRECT + 1] = map (\<lambda>j. get32 d (16 * l + 3 + j)) [0..<NDIRECT + 1]"
    by (rule map_cong[OF refl]) (use w in \<open>simp add: NDIRECT_def add.assoc\<close>)
  ultimately show ?thesis using False by (simp add: get_dinode_def del: upt_Suc)
qed

subsection \<open>Storing and loading\<close>

definition inode_blk :: "'z fsst_scheme \<Rightarrow> nat \<Rightarrow> nat" where
  "inode_blk s i = IBLOCK (i_inum (inodes s ! i)) (sb s)"

definition inode_slot :: "'z fsst_scheme \<Rightarrow> nat \<Rightarrow> nat" where
  "inode_slot s i = unat (i_inum (inodes s ! i) mod of_nat IPB)"

lemma inode_slot_less: "inode_slot s i < IPB"
  by (simp add: inode_slot_def IPB_8 unat_mod_distrib)

text \<open>A cached inode on disk 1, with all its addresses, whose block is on the disk and not in the log.\<close>

definition inode_ok :: "'z fsst_scheme \<Rightarrow> nat \<Rightarrow> bool" where
  "inode_ok s i = (i_dev (inodes s ! i) = 1 \<and> length (i_addrs (inodes s ! i)) = NDIRECT + 1 \<and>
     inode_blk s i < disksize s \<and> \<not> in_log s (inode_blk s i))"

lemma iupdate_run:
  assumes "tx s {} (Suc q)" and "inode_ok s i"
  shows "returns (iupdate i s) (\<lambda>_ t. tx t {} q \<and> log_frame s t \<and>
    bview t = (bview s)(inode_blk s i := put_dinode (bview s (inode_blk s i)) (inode_slot s i) (dinode_of (inodes s ! i))))"
proof -
  let ?F = "\<lambda>d. put_dinode d (inode_slot s i) (dinode_of (inodes s ! i))"
  have "iupdate i s = bnd (bread 1 (inode_blk s i) s) (\<lambda>bp s. bnd (log_write bp (set_data bp (?F (b_data (bufs s ! bp))) s)) (\<lambda>_ s. brelse bp s))"
    using assms(2) by (simp add: iupdate_def Let_def inode_ok_def inode_blk_def inode_slot_def)
  then show ?thesis
    using tx_update[OF assms(1), of "inode_blk s i" ?F] assms(2)
    by (auto simp: inode_ok_def elim!: returns_mono)
qed

text \<open>States that differ only in the inode cache: its entries, its locks and whatever the file system adds to the log's state.\<close>

definition same_io :: "'z lgst_scheme \<Rightarrow> 'y lgst_scheme \<Rightarrow> bool" where
  "same_io s t = (mypid t = mypid s \<and> length (procs t) = length (procs s) \<and> (\<forall>b. slk t (SlBuf b) = slk s (SlBuf b)) \<and>
     bufs t = bufs s \<and> lru t = lru s \<and> disk t = disk s \<and> disksize t = disksize s \<and> held t = held s \<and> cur t = cur s \<and>
     l_start t = l_start s \<and> l_size t = l_size s \<and> l_outstanding t = l_outstanding s \<and> l_dev t = l_dev s \<and>
     l_n t = l_n s \<and> l_block t = l_block s)"

lemma same_io_eqs:
  assumes "same_io s t"
  shows "bview t = bview s" "in_log t = in_log s" "tx t H k = tx s H k" "disksize t = disksize s"
proof -
  note S = assms[unfolded same_io_def]
  have c: "cached t = cached s" and cl: "bclean t = bclean s" and m: "\<And>i. mine (SlBuf i) t = mine (SlBuf i) s"
    using S by (simp_all add: cached_def bclean_def mine_def fun_eq_iff)
  have bf: "bfind t' b t = bfind t' b s" for t' b using S by (simp add: bfind_def)
  show w: "bview t = bview s" using S bf by (auto simp: bview_def fun_eq_iff split: option.splits)
  have l: "logno t = logno s" and h: "home t = home s" using S by (simp_all add: logno_def home_def fun_eq_iff)
  show il: "in_log t = in_log s" using S l by (simp add: in_log_def fun_eq_iff)
  show d: "disksize t = disksize s" using S by simp
  have g: "logged t = logged s" using S h by (simp add: logged_def)
  have i: "bio_inv t H = bio_inv s H" using S by (simp add: bio_inv_def c cl m)
  have o: "bio_ok t H = bio_ok s H" using i S by (auto simp: bio_ok_def inctx_def)
  have dt: "dirtyb t = dirtyb s" using S by (simp add: dirtyb_def c fun_eq_iff)
  have q: "quiet_but t H = quiet_but s H" using S by (simp add: quiet_but_def b_readable_def c)
  show "tx t H k = tx s H k"
    using S by (simp add: tx_def o q dt g w log_geom_def log_lh_def l h il)
qed

lemma same_io_trans: "same_io s t \<Longrightarrow> same_io t u \<Longrightarrow> same_io s u"
  by (simp add: same_io_def)

lemma same_io_upd_inode [simp]: "same_io s (upd_inode i f s)"
  by (simp add: same_io_def upd_inode_def mypid_def myproc_def)

lemma same_io_lock [simp]: "same_io s (s\<lparr>slk := (slk s)(SlInode i := l)\<rparr>)"
  by (simp add: same_io_def mypid_def myproc_def)

lemma upd_inode_simps [simp]:
  "inodes (upd_inode i f s) = (inodes s)[i := f (inodes s ! i)]" "sb (upd_inode i f s) = sb s" "slk (upd_inode i f s) = slk s"
  "mypid (upd_inode i f s) = mypid s" "procs (upd_inode i f s) = procs s" "held (upd_inode i f s) = held s"
  by (simp_all add: upd_inode_def mypid_def myproc_def)

lemma mypid_log_frame: "log_frame s t \<Longrightarrow> inctx s \<Longrightarrow> mypid t = mypid s"
  using mypid_frame[of "set_lh (l_n t) (l_block t) s" t] by (simp add: log_frame_def set_lh_def inctx_def mypid_def myproc_def)

lemma tx_inctx: "tx s H k \<Longrightarrow> inctx s"
  by (simp add: tx_def bio_ok_def)

text \<open>Locking an inode that is not in memory yet reads it from its block.\<close>

definition ilocked :: "'z fsst_scheme \<Rightarrow> nat \<Rightarrow> dinode \<Rightarrow> 'z fsst_scheme \<Rightarrow> bool" where
  "ilocked s j di t = (inodes t = (inodes s)[j := (load_inode di (inodes s ! j))\<lparr>i_valid := True\<rparr>] \<and> bview t = bview s \<and>
     mine (SlInode j) t \<and> sb t = sb s)"

lemma ilock_load:
  assumes t: "tx s {} q" and ok: "i_dev (inodes s ! j) = 1" "inode_blk s j < disksize s" and j: "j < length (inodes s)"
    and r: "1 \<le> i_ref (inodes s ! j)" "\<not> i_valid (inodes s ! j)" and l: "\<not> locked (slk s (SlInode j))"
  shows "if di_type (get_dinode (bview s (inode_blk s j)) (inode_slot s j)) = 0 then ilock (Some j) s = Panic ''ilock: no type''
    else returns (ilock (Some j) s) (\<lambda>_ t. ilocked s j (get_dinode (bview s (inode_blk s j)) (inode_slot s j)) t \<and> tx t {} q)"
proof -
  let ?di = "get_dinode (bview s (inode_blk s j)) (inode_slot s j)"
  let ?s = "s\<lparr>slk := (slk s)(SlInode j := \<lparr>locked = True, lpid = mypid s\<rparr>)\<rparr>"
  have io: "same_io s ?s" by simp
  note E = same_io_eqs[OF io]
  have hl: "held s = []" using txD(1)[OF t] by (simp add: bio_ok_def inctx_def)
  have ts: "tx ?s {} q" using t E(3) by simp
  have bd: "inode_blk s j < disksize ?s" using ok(2) by simp
  obtain i u where run: "bread 1 (inode_blk s j) ?s = Ret i u" and u: "tx u {i} q" and f: "log_frame ?s u"
    and dt: "b_data (bufs u ! i) = bview s (inode_blk s j)" and w: "bview u = bview s"
    by (rule returnsE[OF tx_bread[OF ts _ bd]]) (use E in auto)
  let ?u = "upd_inode j (load_inode ?di) u"
  have iu: "same_io u ?u" by simp
  have tu: "tx ?u {i} q" using u same_io_eqs(3)[OF iu] by blast
  obtain v where rel: "brelse i ?u = Ret () v" and v: "tx v {} q" and fv: "log_frame ?u v" and wv: "bview v = bview ?u"
    by (rule returnsE[OF tx_brelse[OF tu insertI1]]) auto
  note Fu = fs_frame[OF f] log_frame_fields(13)[OF f, of j]
  note Fv = fs_frame[OF fv] log_frame_fields(13)[OF fv, of j]
  have iv: "inodes v = (inodes s)[j := load_inode ?di (inodes s ! j)]" using Fv Fu by simp
  have sv: "slk v (SlInode j) = \<lparr>locked = True, lpid = mypid s\<rparr>" using Fv Fu by simp
  have e: "ilock (Some j) s = (let s = upd_inode j (\<lambda>ip. ip\<lparr>i_valid := True\<rparr>) v in
      if i_type (inodes s ! j) = 0 then Panic ''ilock: no type'' else Ret () s)"
    using run ok(1) r l hl dt rel by (simp add: ilock_def acquiresleep_free inode_blk_def inode_slot_def Let_def)
  have mp: "mypid v = mypid s"
    using mypid_log_frame[OF f] mypid_log_frame[OF fv] tx_inctx[OF ts] tx_inctx[OF tu] same_io_def[of s ?s] io iu
    by (simp add: same_io_def)
  have ty: "i_type (inodes (upd_inode j (\<lambda>ip. ip\<lparr>i_valid := True\<rparr>) v) ! j) = di_type ?di"
    using iv j by (simp add: load_inode_def)
  have wu: "bview ?u = bview s" using same_io_eqs(1)[OF iu] w by simp
  let ?t = "upd_inode j (\<lambda>ip. ip\<lparr>i_valid := True\<rparr>) v"
  have it: "same_io v ?t" by simp
  have fin: "ilocked s j ?di ?t \<and> tx ?t {} q"
    using same_io_eqs(1,3)[OF it] v wv wu iv j sv mp Fv Fu by (simp add: ilocked_def mine_def)
  show ?thesis
  proof (cases "di_type ?di = 0")
    case True
    then show ?thesis using e ty by (simp add: Let_def)
  next
    case False
    then show ?thesis using e ty fin by (simp add: Let_def)
  qed
qed

lemma tx_view_length: "tx s H k \<Longrightarrow> length (bview s b) = BSIZE"
proof -
  assume "tx s H k"
  then have inv: "bio_inv s H" by (simp add: tx_def bio_ok_def)
  note D = bio_invD[OF inv]
  show ?thesis
  proof (cases "bfind 1 b s")
    case (Some i)
    then have "i < NBUF" using bfind_iff(1)[OF inv] by (auto simp: cached_def)
    then show ?thesis using Some D(6,7) by (simp add: bview_def)
  qed (simp add: bview_def D(6))
qed

subsection \<open>Properties\<close>

text \<open>C21: What \<open>iupdate\<close> stores of a cached inode is what a process that locks another cache entry for the same inode number
  gets, whatever that entry held; every other inode of the block, and every other block, is as it was.\<close>

theorem iupdate_ilock:
  assumes t: "tx s {} (Suc q)" and ok: "inode_ok s i" and ty: "i_type (inodes s ! i) \<noteq> 0"
    and j: "j < length (inodes s)" "i_dev (inodes s ! j) = 1" "i_inum (inodes s ! j) = i_inum (inodes s ! i)"
    and r: "1 \<le> i_ref (inodes s ! j)" "\<not> i_valid (inodes s ! j)" and l: "\<not> locked (slk s (SlInode j))"
  shows "returns (bnd (iupdate i s) (\<lambda>_ s. ilock (Some j) s))
    (\<lambda>_ t. dinode_of (inodes t ! j) = dinode_of (inodes s ! i) \<and> i_valid (inodes t ! j) \<and> mine (SlInode j) t \<and>
      (\<forall>k < IPB. k \<noteq> inode_slot s i \<longrightarrow> get_dinode (bview t (inode_blk s i)) k = get_dinode (bview s (inode_blk s i)) k) \<and>
      (\<forall>b. b \<noteq> inode_blk s i \<longrightarrow> bview t b = bview s b))"
proof (rule returns_bnd[OF iupdate_run[OF t ok]])
  let ?b = "inode_blk s i" and ?k = "inode_slot s i" and ?di = "dinode_of (inodes s ! i)"
  fix x u assume u: "tx u {} q \<and> log_frame s u \<and> bview u = (bview s)(?b := put_dinode (bview s ?b) ?k ?di)"
  then have f: "log_frame s u" by simp
  note F = fs_frame[OF f] log_frame_fields(13)[OF f, of j]
  have e: "inode_blk u j = ?b" "inode_slot u j = ?k" using F j(3) by (simp_all add: inode_blk_def inode_slot_def)
  have len: "length (di_addrs ?di) = NDIRECT + 1" using ok by (simp add: inode_ok_def dinode_of_def)
  have bl: "length (bview s ?b) = BSIZE" by (rule tx_view_length[OF t])
  have g: "get_dinode (bview u ?b) k = (if k = ?k then ?di else get_dinode (bview s ?b) k)" if "k < IPB" for k
    using get_dinode_put[OF bl inode_slot_less[of s i] len that] u by simp
  have di: "get_dinode (bview u ?b) ?k = ?di" using g[OF inode_slot_less[of s i]] by simp
  have ju: "i_dev (inodes u ! j) = 1" "inode_blk u j < disksize u" "j < length (inodes u)" "1 \<le> i_ref (inodes u ! j)"
    "\<not> i_valid (inodes u ! j)" "\<not> locked (slk u (SlInode j))"
    using j r l F e ok by (simp_all add: inode_ok_def)
  have "returns (ilock (Some j) u) (\<lambda>_ t. ilocked u j ?di t \<and> tx t {} q)"
    using ilock_load[OF conjunct1[OF u] ju] ty by (simp add: e di dinode_of_def)
  then show "returns (ilock (Some j) u) (\<lambda>_ t. dinode_of (inodes t ! j) = ?di \<and> i_valid (inodes t ! j) \<and> mine (SlInode j) t \<and>
      (\<forall>k < IPB. k \<noteq> ?k \<longrightarrow> get_dinode (bview t ?b) k = get_dinode (bview s ?b) k) \<and> (\<forall>b. b \<noteq> ?b \<longrightarrow> bview t b = bview s b))"
    by (rule returns_mono) (use g u j F in \<open>auto simp: ilocked_def dinode_of_def load_inode_def\<close>)
qed

definition demo_ino :: fsst where
  "demo_ino = demo_alloc\<lparr>inodes := [demo_inode\<lparr>i_dev := 1, i_inum := 3, i_ref := 1, i_valid := True, i_type := T_FILE, i_nlink := 1\<rparr>,
     demo_inode\<lparr>i_dev := 1, i_inum := 3, i_ref := 1\<rparr>]\<rparr>"

lemma demo_ino_tx: "k \<le> 28 \<Longrightarrow> tx demo_ino {} k"
  using same_io_eqs(3)[of demo_alloc demo_ino] demo_alloc_tx[of k]
  by (simp add: same_io_def demo_ino_def mypid_def myproc_def)

lemma demo_ino_ok: "inode_ok demo_ino 0"
proof -
  have "get32 (demo_disk 1) 5 = 32"
    by (simp add: demo_disk_def get32_put32s BSIZE_def del: put32s.simps)
  then have "inode_blk demo_ino 0 = 32"
    by (simp add: inode_blk_def demo_ino_def IBLOCK_def IPB_8 demo_alloc_def lgst.defs decode_sb_def)
  then show ?thesis by (simp add: inode_ok_def demo_ino_def demo_inode_def NDIRECT_def in_log_def logno_def)
qed

theorem iupdate_ilock_witness:
  "returns (bnd (iupdate 0 demo_ino) (\<lambda>_ s. ilock (Some 1) s)) (\<lambda>_ t. i_type (inodes t ! 1) = T_FILE \<and> i_nlink (inodes t ! 1) = 1)"
proof -
  have l: "slk demo_ino i = \<lparr>locked = False, lpid = 0\<rparr>" for i by (simp add: demo_ino_def demo_alloc_def lgst.defs)
  have "returns (bnd (iupdate 0 demo_ino) (\<lambda>_ s. ilock (Some 1) s)) (\<lambda>_ t. dinode_of (inodes t ! 1) = dinode_of (inodes demo_ino ! 0))"
    by (rule returns_mono[OF iupdate_ilock[OF demo_ino_tx[of "Suc 0"] demo_ino_ok, of 1]])
       (use l in \<open>simp_all add: demo_ino_def T_FILE_def demo_inode_def\<close>)
  then show ?thesis by (rule returns_mono) (simp add: dinode_of_def demo_ino_def T_FILE_def)
qed

end
