(* ===== verification/FileIO.thy ===== *)
theory FileIO
  imports Inode
begin

text \<open>
  Correctness of reading and writing files, \<open>readi\<close> and \<open>writei\<close> of \<^verbatim>\<open>fs.c\<close>, against a file as a function from positions to
  bytes: \<open>fbyte s i p\<close> is byte \<open>p\<close> of the file of the cached inode \<open>i\<close>.
\<close>

subsection \<open>The bytes of a file\<close>

definition blockaddr :: "'z fsst_scheme \<Rightarrow> nat \<Rightarrow> nat \<Rightarrow> nat" where
  "blockaddr s i bn =
     (if bn < NDIRECT then unat (i_addrs (inodes s ! i) ! bn)
      else unat (get32 (bview s (unat (i_addrs (inodes s ! i) ! NDIRECT))) (bn - NDIRECT)))"

definition fbyte :: "'z fsst_scheme \<Rightarrow> nat \<Rightarrow> nat \<Rightarrow> u8" where
  "fbyte s i p = bview s (blockaddr s i (p div BSIZE)) ! (p mod BSIZE)"

text \<open>The first \<open>n\<close> blocks of the file are allocated: different blocks of the disk, outside the log, and none of them is the
  block of addresses.\<close>

definition mapped :: "'z fsst_scheme \<Rightarrow> nat \<Rightarrow> nat \<Rightarrow> bool" where
  "mapped s i n = (i_dev (inodes s ! i) = 1 \<and> n \<le> MAXFILE \<and> inj_on (blockaddr s i) {..<n} \<and>
     (\<forall>bn < n. blockaddr s i bn \<noteq> 0 \<and> blockaddr s i bn < disksize s \<and> \<not> in_log s (blockaddr s i bn)) \<and>
     (NDIRECT < n \<longrightarrow> i_addrs (inodes s ! i) ! NDIRECT \<noteq> 0 \<and> unat (i_addrs (inodes s ! i) ! NDIRECT) < disksize s \<and>
        unat (i_addrs (inodes s ! i) ! NDIRECT) \<notin> blockaddr s i ` {..<n}))"

lemma file_consts: "NDIRECT = 12" "NINDIRECT = 128" "MAXFILE = 140" "BSIZE = 512"
  by (simp_all add: MAXFILE_def NDIRECT_def NINDIRECT_def BSIZE_def)

lemma mapped_cong:
  assumes "log_frame s (t :: 'z fsst_scheme)" and "bview t = bview s"
  shows "blockaddr t i = blockaddr s i" "fbyte t i = fbyte s i" "mapped t i n = mapped s i n"
proof -
  note F = fs_frame[OF assms(1)]
  show b: "blockaddr t i = blockaddr s i" by (simp add: blockaddr_def fun_eq_iff F assms(2))
  show "fbyte t i = fbyte s i" by (simp add: fbyte_def fun_eq_iff b assms(2))
  show "mapped t i n = mapped s i n" by (simp add: mapped_def b F)
qed

lemma bmap_run:
  assumes t: "tx s {} q" and m: "mapped s i n" and b: "unat bn < n"
  shows "returns (bmap i bn s) (\<lambda>a t. unat a = blockaddr s i (unat bn) \<and> tx t {} q \<and> log_frame s t \<and> bview t = bview s)"
proof (cases "unat bn < NDIRECT")
  case True
  then have lt: "bn < of_nat NDIRECT" by (simp add: word_less_nat_alt file_consts)
  have "blockaddr s i (unat bn) \<noteq> 0" using m b by (simp add: mapped_def)
  then have "i_addrs (inodes s ! i) ! unat bn \<noteq> 0" using True by (auto simp: blockaddr_def)
  then have "bmap i bn s = Ret (i_addrs (inodes s ! i) ! unat bn) s" using lt by (simp add: bmap_def)
  then show ?thesis using True t log_frame_bio[of s s] by (simp add: blockaddr_def)
next
  case False
  let ?a = "i_addrs (inodes s ! i) ! NDIRECT" and ?k = "unat bn - NDIRECT"
  have n: "NDIRECT < n" using False b by simp
  have k: "unat (bn - of_nat NDIRECT) = ?k" using False by (simp add: unat_sub word_le_nat_alt file_consts)
  have "n \<le> 140" using m by (simp add: mapped_def file_consts)
  then have "?k < 128" using b False by (simp add: file_consts)
  then have lt: "\<not> bn < of_nat NDIRECT" "bn - of_nat NDIRECT < of_nat NINDIRECT"
    using False k by (simp_all add: word_less_nat_alt file_consts)
  have a: "?a \<noteq> 0" "unat ?a < disksize s" and d: "i_dev (inodes s ! i) = 1" using m n by (auto simp: mapped_def)
  have ad: "blockaddr s i (unat bn) = unat (get32 (bview s (unat ?a)) ?k)" using False by (simp add: blockaddr_def)
  then have nz: "get32 (bview s (unat ?a)) ?k \<noteq> 0" using m b by (auto simp: mapped_def)
  obtain h u where run: "bread 1 (unat ?a) s = Ret h u" and u: "tx u {h} q" and f: "log_frame s u"
    and dt: "b_data (bufs u ! h) = bview s (unat ?a)" and w: "bview u = bview s"
    by (rule returnsE[OF tx_bread[OF t _ a(2)]]) auto
  have e: "bmap i bn s = bnd (brelse h u) (\<lambda>_ s'. Ret (get32 (bview s (unat ?a)) ?k) s')"
    using lt a d nz run dt k by (simp add: bmap_def Let_def)
  show ?thesis unfolding e
    by (rule returns_bnd[OF tx_brelse[OF u insertI1]]) (use ad w log_frame_trans[OF f] in auto)
qed

subsection \<open>Reading\<close>

lemma view_bytes:
  assumes "length d = BSIZE" and "p mod BSIZE + m \<le> BSIZE"
  shows "take m (drop (p mod BSIZE) d) = map (\<lambda>x. d ! (x mod BSIZE)) [p..<p + m]"
proof (rule nth_equalityI)
  show "length (take m (drop (p mod BSIZE) d)) = length (map (\<lambda>x. d ! (x mod BSIZE)) [p..<p + m])" using assms by simp
  fix j assume "j < length (take m (drop (p mod BSIZE) d))"
  then have j: "j < m" using assms by simp
  then have "(p + j) mod BSIZE = p mod BSIZE + j" using assms(2) by (simp add: mod_add_left_eq[of p, symmetric])
  then show "take m (drop (p mod BSIZE) d) ! j = map (\<lambda>x. d ! (x mod BSIZE)) [p..<p + m] ! j" using j assms by simp
qed

lemma same_block:
  assumes "p \<le> x" and "x < p + m" and "p mod BSIZE + m \<le> BSIZE"
  shows "x div BSIZE = p div BSIZE"
proof (rule div_nat_eqI)
  have e: "BSIZE * (p div BSIZE) + p mod BSIZE = p" by simp
  show "BSIZE * (p div BSIZE) \<le> x" using assms e by linarith
  show "x < BSIZE * Suc (p div BSIZE)" using assms e unfolding mult_Suc_right by linarith
qed

text \<open>A chunk stays inside one block.\<close>

lemma chunk_room: "unat off mod BSIZE + unat (chunk off n) \<le> BSIZE"
proof -
  have "unat off mod 512 < 512" by simp
  then show ?thesis by (simp add: chunk_nat BSIZE_def)
qed

lemma chunk_step:
  assumes "n \<noteq> 0" and "unat off + unat n < 2 ^ 32"
  shows "unat (off + chunk off n) = unat off + unat (chunk off n)" "unat (n - chunk off n) = unat n - unat (chunk off n)"
    "unat (n - chunk off n) < unat n"
proof -
  have c: "unat (chunk off n) \<le> unat n" by (rule chunk_le)
  show "unat (off + chunk off n) = unat off + unat (chunk off n)" using assms(2) c by (intro unat_add_lem[THEN iffD1]) simp
  show "unat (n - chunk off n) = unat n - unat (chunk off n)" using c by (simp add: unat_sub word_le_nat_alt)
  show "unat (n - chunk off n) < unat n" by (rule chunk_decr[OF assms(1)])
qed

lemma off_div: "unat (off div of_nat BSIZE :: u32) = unat off div BSIZE" "unat (off mod of_nat BSIZE :: u32) = unat off mod BSIZE"
  by (simp_all add: unat_div_distrib unat_mod_distrib BSIZE_def)

lemma chunk_bytes:
  assumes "tx s H q"
  shows "take (unat (chunk off n)) (drop (unat off mod BSIZE) (bview s (blockaddr s i (unat off div BSIZE)))) =
    map (fbyte s i) [unat off..<unat off + unat (chunk off n)]"
proof -
  note R = chunk_room[of off n]
  have "map (\<lambda>x. bview s (blockaddr s i (unat off div BSIZE)) ! (x mod BSIZE)) [unat off..<unat off + unat (chunk off n)] =
    map (fbyte s i) [unat off..<unat off + unat (chunk off n)]"
  proof (rule map_cong[OF refl])
    fix x assume "x \<in> set [unat off..<unat off + unat (chunk off n)]"
    then have "x div BSIZE = unat off div BSIZE" by (intro same_block[OF _ _ R]) simp_all
    then show "bview s (blockaddr s i (unat off div BSIZE)) ! (x mod BSIZE) = fbyte s i x" by (simp only: fbyte_def)
  qed
  then show ?thesis by (simp only: view_bytes[OF tx_view_length[OF assms] R])
qed

text \<open>What reading leaves alone.\<close>

definition only_cache :: "'z fsst_scheme \<Rightarrow> nat set \<Rightarrow> nat \<Rightarrow> 'z fsst_scheme \<Rightarrow> bool" where
  "only_cache s H q t = (tx t H q \<and> log_frame s t \<and> bview t = bview s)"

lemma only_cache_trans: "only_cache s H q t \<Longrightarrow> only_cache t K r u \<Longrightarrow> only_cache s K r u"
  by (auto simp: only_cache_def elim: log_frame_trans)

lemma get_file_block:
  assumes t: "tx s {} q" and m: "mapped s i nb" and p: "unat off < BSIZE * nb"
  shows "returns (bnd (bmap i (off div of_nat BSIZE) s) (\<lambda>addr s. bread (i_dev (inodes s ! i)) (unat addr) s))
    (\<lambda>h t. only_cache s {h} q t \<and> b_blockno (bufs t ! h) = blockaddr s i (unat off div BSIZE) \<and>
      b_data (bufs t ! h) = bview s (blockaddr s i (unat off div BSIZE)))"
proof -
  have bn: "unat (off div of_nat BSIZE) < nb" using p by (simp add: off_div less_mult_imp_div_less mult.commute)
  let ?b = "blockaddr s i (unat off div BSIZE)"
  have b: "?b < disksize s" and d: "i_dev (inodes s ! i) = 1" using m bn by (auto simp: mapped_def off_div)
  show ?thesis
  proof (rule returns_bnd[OF bmap_run[OF t m bn]], elim conjE)
    fix a u assume a: "unat a = blockaddr s i (unat (off div of_nat BSIZE))" and u: "tx u {} q" and f: "log_frame s u" and w: "bview u = bview s"
    note F = fs_frame[OF f]
    have "returns (bread 1 ?b u) (\<lambda>h t. only_cache s {h} q t \<and> b_blockno (bufs t ! h) = ?b \<and> b_data (bufs t ! h) = bview s ?b)"
    proof (rule returns_mono[OF tx_bread[OF u]], goal_cases)
      case (4 h v)
      then show ?case using w log_frame_trans[OF f] by (simp add: only_cache_def)
    qed (use b F in auto)
    then show "returns (bread (i_dev (inodes u ! i)) (unat a) u)
      (\<lambda>h t. only_cache s {h} q t \<and> b_blockno (bufs t ! h) = ?b \<and> b_data (bufs t ! h) = bview s ?b)"
      using a d F by (simp add: off_div)
  qed
qed

lemma readi_loop_run:
  assumes "tx s {} q" and "mapped s i nb" and "unat off + unat n \<le> BSIZE * nb"
  shows "returns (readi_loop i off n s) (\<lambda>bs t. bs = map (fbyte s i) [unat off..<unat off + unat n] \<and> only_cache s {} q t)"
  using assms
proof (induction "unat n" arbitrary: off n s rule: less_induct)
  case less
  note t = less.prems(1) and m = less.prems(2)
  show ?case
  proof (cases "n = 0")
    case True
    then show ?thesis using t log_frame_bio[of s s] by (subst readi_loop.simps) (simp add: only_cache_def)
  next
    case False
    have nb: "nb \<le> 140" using m by (simp add: mapped_def file_consts)
    have wrap: "unat off + unat n < 2 ^ 32" using less.prems(3) nb by (simp add: file_consts)
    note C = chunk_step[OF False wrap] and R = chunk_room[of off n]
    let ?m = "unat (chunk off n)" and ?p = "unat off"
    let ?bytes = "take ?m (drop (?p mod BSIZE) (bview s (blockaddr s i (?p div BSIZE))))"
    have p: "?p < BSIZE * nb" using less.prems(3) False unat_gt_0[of n] by linarith
    have bs: "?bytes = map (fbyte s i) [?p..<?p + ?m]"
      by (rule chunk_bytes[OF t])
    have split: "[?p..<?p + unat n] = [?p..<?p + ?m] @ [?p + ?m..<?p + ?m + (unat n - ?m)]"
      using upt_add_eq_append[of ?p "?p + ?m" "unat n - ?m"] chunk_le[of off n] by simp
    have "returns (bnd (bnd (bmap i (off div of_nat BSIZE) s) (\<lambda>addr s. bread (i_dev (inodes s ! i)) (unat addr) s))
        (\<lambda>h s. let m = chunk off n; bytes = take (unat m) (drop (unat (off mod of_nat BSIZE)) (b_data (bufs s ! h)))
          in bnd (brelse h s) (\<lambda>_ s. bnd (readi_loop i (off + m) (n - m) s) (\<lambda>rest s. Ret (bytes @ rest) s))))
      (\<lambda>bs t. bs = map (fbyte s i) [?p..<?p + unat n] \<and> only_cache s {} q t)"
    proof (rule returns_bnd[OF get_file_block[OF t m p]], goal_cases)
      case (1 h u)
      then have u: "tx u {h} q" and c: "only_cache s {h} q u" by (auto simp: only_cache_def)
      have dt: "b_data (bufs u ! h) = bview s (blockaddr s i (?p div BSIZE))" using 1 by simp
      have "returns (bnd (brelse h u) (\<lambda>_ s. bnd (readi_loop i (off + chunk off n) (n - chunk off n) s) (\<lambda>rest s. Ret (?bytes @ rest) s)))
        (\<lambda>bs t. bs = map (fbyte s i) [?p..<?p + unat n] \<and> only_cache s {} q t)"
      proof (rule returns_bnd[OF tx_brelse[OF u]], goal_cases)
        case (2 x v)
        then have cv: "only_cache s {} q v" using c by (auto simp: only_cache_def elim: log_frame_trans)
        then have v: "tx v {} q" and f: "log_frame s v" and w: "bview v = bview s" by (auto simp: only_cache_def)
        note M = mapped_cong[OF f w]
        show ?case
          by (rule returns_bnd[OF less.hyps[OF C(3) v]])
             (use M C m less.prems(3) chunk_le[of off n] bs split cv in \<open>auto dest: only_cache_trans\<close>)
      qed simp
      then show ?case by (simp add: Let_def dt off_div)
    qed
    then show ?thesis using False by (subst readi_loop.simps) (simp add: bnd_assoc)
  qed
qed

subsection \<open>Writing\<close>

text \<open>The bytes \<open>src\<close> went to position \<open>p\<close> of the file, and nothing else changed.\<close>

definition wrote_file :: "'z fsst_scheme \<Rightarrow> nat \<Rightarrow> nat \<Rightarrow> nat \<Rightarrow> u8 list \<Rightarrow> 'z fsst_scheme \<Rightarrow> bool" where
  "wrote_file s i nb p src t = (log_frame s t \<and> (\<forall>bn < nb. blockaddr t i bn = blockaddr s i bn) \<and>
     (\<forall>x < BSIZE * nb. fbyte t i x = (if p \<le> x \<and> x < p + length src then src ! (x - p) else fbyte s i x)) \<and>
     (\<forall>b. b \<notin> blockaddr s i ` {..<nb} \<longrightarrow> bview t b = bview s b))"

lemma wrote_file_mapped:
  assumes "wrote_file s i nb p src t"
  shows "mapped t i nb = mapped s i nb"
proof -
  have f: "log_frame s t" and b: "\<And>bn. bn < nb \<Longrightarrow> blockaddr t i bn = blockaddr s i bn" using assms by (auto simp: wrote_file_def)
  have "inj_on (blockaddr t i) {..<nb} = inj_on (blockaddr s i) {..<nb}" by (rule inj_on_cong) (simp add: b)
  moreover have "blockaddr t i ` {..<nb} = blockaddr s i ` {..<nb}" by (rule image_cong) (simp_all add: b)
  ultimately show ?thesis by (simp add: mapped_def fs_frame[OF f] b)
qed

lemma wrote_file_nil: "only_cache s H q t \<Longrightarrow> wrote_file s i nb p [] t"
  unfolding only_cache_def by (elim conjE) (auto simp: wrote_file_def mapped_cong)

lemma wrote_file_trans:
  assumes "wrote_file s i nb p a u" and "wrote_file u i nb (p + length a) b t"
  shows "wrote_file s i nb p (a @ b) t"
proof -
  have "blockaddr u i ` {..<nb} = blockaddr s i ` {..<nb}"
    by (rule image_cong) (use assms(1) in \<open>simp_all add: wrote_file_def\<close>)
  then show ?thesis
    using assms by (auto simp: wrote_file_def nth_append elim: log_frame_trans)
qed

lemma splice_nth:
  assumes "k + length a \<le> length d" and "x < length d"
  shows "(take k d @ a @ drop (k + length a) d) ! x = (if k \<le> x \<and> x < k + length a then a ! (x - k) else d ! x)"
  using assms by (auto simp: nth_append min_def)

lemma write_file_block:
  assumes m: "mapped s i nb" and f: "log_frame s t" and len: "length (bview s (blockaddr s i (p div BSIZE))) = BSIZE"
    and p: "p < BSIZE * nb" and a: "p mod BSIZE + length a \<le> BSIZE"
    and w: "bview t = (bview s)(blockaddr s i (p div BSIZE) :=
      take (p mod BSIZE) (bview s (blockaddr s i (p div BSIZE))) @ a @ drop (p mod BSIZE + length a) (bview s (blockaddr s i (p div BSIZE))))"
  shows "wrote_file s i nb p a t"
proof -
  let ?B = "blockaddr s i (p div BSIZE)"
  have bn: "p div BSIZE < nb" using p by (simp add: less_mult_imp_div_less mult.commute)
  have inj: "blockaddr s i x = ?B \<longleftrightarrow> x = p div BSIZE" if "x < nb" for x
    using m bn that by (auto simp: mapped_def inj_on_def)
  have nind: "NDIRECT < nb \<Longrightarrow> unat (i_addrs (inodes s ! i) ! NDIRECT) \<noteq> ?B" using m bn by (auto simp: mapped_def)
  have ba: "blockaddr t i x = blockaddr s i x" if "x < nb" for x
    using nind that by (cases "x < NDIRECT") (simp_all add: blockaddr_def fs_frame[OF f] w)
  have "fbyte t i x = (if p \<le> x \<and> x < p + length a then a ! (x - p) else fbyte s i x)" if x: "x < BSIZE * nb" for x
  proof -
    have xb: "x div BSIZE < nb" using x by (simp add: less_mult_imp_div_less mult.commute)
    show ?thesis
    proof (cases "x div BSIZE = p div BSIZE")
      case True
      have e: "BSIZE * (p div BSIZE) + p mod BSIZE = p" "BSIZE * (p div BSIZE) + x mod BSIZE = x"
        using mult_div_mod_eq[of BSIZE x] unfolding True by simp_all
      have i: "p mod BSIZE \<le> x mod BSIZE \<longleftrightarrow> p \<le> x" by (rule iffI) (use e in linarith)+
      have j: "x mod BSIZE < p mod BSIZE + length a \<longleftrightarrow> x < p + length a" by (rule iffI) (use e in linarith)+
      have k: "x mod BSIZE - p mod BSIZE = x - p" using e by linarith
      have "x mod BSIZE < BSIZE" by (simp add: BSIZE_def)
      then show ?thesis
        using a len by (simp add: fbyte_def ba[OF bn] True w splice_nth i j k)
    next
      case False
      then have "\<not> (p \<le> x \<and> x < p + length a)" using same_block[OF _ _ a, of x] by blast
      then show ?thesis using False inj[OF xb] by (auto simp add: fbyte_def ba[OF xb] w)
    qed
  qed
  then show ?thesis using f ba w bn by (auto simp: wrote_file_def)
qed

text \<open>The number of blocks that a range of positions touches.\<close>

definition nsteps :: "nat \<Rightarrow> nat \<Rightarrow> nat" where
  "nsteps p len = (if len = 0 then 0 else (p + len - 1) div BSIZE - p div BSIZE + 1)"

lemma nsteps_chunk:
  assumes n: "n \<noteq> 0"
  shows "nsteps (unat off) (unat n) = Suc (nsteps (unat off + unat (chunk off n)) (unat n - unat (chunk off n)))"
proof (cases "unat n \<le> 512 - unat off mod 512")
  case True
  then have "chunk off n = n" by (metis chunk_nat min.absorb1 word_unat_eqD)
  moreover have "(unat off + unat n - 1) div 512 = unat off div 512"
  proof (rule div_nat_eqI)
    have e: "512 * (unat off div 512) + unat off mod 512 = unat off" by simp
    have "0 < unat n" using n by (simp add: unat_gt_0)
    then show "512 * (unat off div 512) \<le> unat off + unat n - 1" using e by linarith
    show "unat off + unat n - 1 < 512 * Suc (unat off div 512)"
      using e True \<open>0 < unat n\<close> unfolding mult_Suc_right by linarith
  qed
  ultimately show ?thesis using n by (simp add: nsteps_def BSIZE_def unat_eq_0)
next
  case False
  let ?m = "512 - unat off mod 512"
  have m: "unat (chunk off n) = ?m" using False by (simp add: chunk_nat)
  have e: "unat off + ?m = 512 * Suc (unat off div 512)"
    using mult_div_mod_eq[of 512 "unat off"] mod_less_divisor[of 512 "unat off"] unfolding mult_Suc_right by linarith
  then have d: "(unat off + ?m) div 512 = Suc (unat off div 512)" by simp
  have "Suc (unat off div 512) \<le> (unat off + unat n - 1) div 512"
    using div_le_mono[of "unat off + ?m" "unat off + unat n - 1" 512] d False by simp
  then have le: "Suc (unat off div 512) \<le> (unat off + unat n - 1) div 512" .
  have s: "unat off + ?m + (unat n - ?m) - 1 = unat off + unat n - 1" using False by linarith
  have nz: "(unat n - ?m = 0) = False" "(unat n = 0) = False" using False by auto
  have l: "nsteps (unat off) (unat n) = (unat off + unat n - 1) div 512 - unat off div 512 + 1"
    by (simp only: nsteps_def BSIZE_def nz if_False)
  have r: "nsteps (unat off + ?m) (unat n - ?m) = (unat off + unat n - 1) div 512 - Suc (unat off div 512) + 1"
    by (simp only: nsteps_def BSIZE_def nz if_False s d)
  show ?thesis unfolding m l r using le by linarith
qed

lemma writei_loop_run:
  assumes "tx s {} (q + nsteps (unat off) (unat n))" and "mapped s i nb" and "unat off + unat n \<le> BSIZE * nb" and "length src = unat n"
  shows "returns (writei_loop i src off n s)
    (\<lambda>x t. x = off + n \<and> wrote_file s i nb (unat off) src t \<and> tx t {} q)"
  using assms
proof (induction "unat n" arbitrary: off n src s rule: less_induct)
  case less
  note t = less.prems(1) and m = less.prems(2)
  show ?case
  proof (cases "n = 0")
    case True
    then have "wrote_file s i nb (unat off) [] s" using t log_frame_bio[of s s] by (intro wrote_file_nil) (auto simp: only_cache_def nsteps_def)
    then show ?thesis using True t less.prems(4) by (subst writei_loop.simps) (simp add: nsteps_def)
  next
    case False
    have nb: "nb \<le> 140" using m by (simp add: mapped_def file_consts)
    have wrap: "unat off + unat n < 2 ^ 32" using less.prems(3) nb by (simp add: file_consts)
    note C = chunk_step[OF False wrap] and R = chunk_room[of off n]
    let ?m = "unat (chunk off n)" and ?p = "unat off"
    let ?B = "blockaddr s i (?p div BSIZE)" and ?a = "take ?m src"
    let ?q = "q + nsteps (?p + ?m) (unat n - ?m)"
    let ?new = "take (?p mod BSIZE) (bview s ?B) @ ?a @ drop (?p mod BSIZE + ?m) (bview s ?B)"
    have t': "tx s {} (Suc ?q)" using t nsteps_chunk[OF False, of off] by simp
    have p: "?p < BSIZE * nb" using less.prems(3) False unat_gt_0[of n] by linarith
    have ml: "length ?a = ?m" using less.prems(4) chunk_le[of off n] by simp
    have bn: "?p div BSIZE < nb" using p by (simp add: less_mult_imp_div_less mult.commute)
    have nl: "\<not> in_log s ?B" using m bn by (simp add: mapped_def)
    have len: "length ?new = BSIZE" using tx_view_length[OF t, of ?B] ml R by simp
    have "returns (bnd (bnd (bmap i (off div of_nat BSIZE) s) (\<lambda>addr s. bread (i_dev (inodes s ! i)) (unat addr) s))
        (\<lambda>h s. let m = chunk off n; k = unat (off mod of_nat BSIZE); d = b_data (bufs s ! h);
            s = set_data h (take k d @ take (unat m) src @ drop (k + unat m) d) s
          in bnd (log_write h s) (\<lambda>_ s. bnd (brelse h s) (\<lambda>_ s. writei_loop i (drop (unat m) src) (off + m) (n - m) s))))
      (\<lambda>x t. x = off + n \<and> wrote_file s i nb ?p src t \<and> tx t {} q)"
    proof (rule returns_bnd[OF get_file_block[OF t' m p]], goal_cases)
      case (1 h u)
      then have u: "tx u {h} (Suc ?q)" and f: "log_frame s u" and w: "bview u = bview s" and bi: "b_blockno (bufs u ! h) = ?B"
        and dt: "b_data (bufs u ! h) = bview s ?B" by (auto simp: only_cache_def)
      have nlu: "\<not> in_log u ?B" using nl fs_frame(5)[OF f] by simp
      have "returns (bnd (log_write h (set_data h ?new u)) (\<lambda>_ s. bnd (brelse h s) (\<lambda>_ s.
          writei_loop i (drop ?m src) (off + chunk off n) (n - chunk off n) s)))
        (\<lambda>x t. x = off + n \<and> wrote_file s i nb ?p src t \<and> tx t {} q)"
      proof (rule returns_bnd[OF tx_modify[OF u insertI1 len bi[symmetric] nlu]], goal_cases)
        case (1 x v)
        then have v: "tx v {h} ?q" and fv: "log_frame s v" and wv: "bview v = (bview s)(?B := ?new)"
          using log_frame_trans[OF f] w by auto
        show ?case
        proof (rule returns_bnd[OF tx_brelse[OF v insertI1]], goal_cases)
          case (1 x y)
          then have y: "tx y {} ?q" and fy: "log_frame s y" and wy: "bview y = (bview s)(?B := ?new)"
            using log_frame_trans[OF fv] wv by auto
          have W: "wrote_file s i nb ?p ?a y"
            by (rule write_file_block[OF m fy tx_view_length[OF t] p]) (use R ml wy in simp_all)
          note M = wrote_file_mapped[OF W]
          show ?case
          proof (rule returns_mono[OF less.hyps[OF C(3)]], goal_cases)
            case (5 x z)
            then have "wrote_file s i nb ?p (?a @ drop ?m src) z"
              using C ml by (intro wrote_file_trans[OF W]) simp
            then show ?case using 5 by simp
          qed (use y C M m less.prems(3,4) chunk_le[of off n] in simp_all)
        qed
      qed
      then show ?case by (simp add: Let_def dt off_div)
    qed
    then show ?thesis using False by (subst writei_loop.simps) (simp add: bnd_assoc)
  qed
qed

subsection \<open>Files as lists of bytes\<close>

definition content :: "'z fsst_scheme \<Rightarrow> nat \<Rightarrow> u8 list" where
  "content s i = map (fbyte s i) [0..<unat (i_size (inodes s ! i))]"

definition file_ok :: "'z fsst_scheme \<Rightarrow> nat \<Rightarrow> nat \<Rightarrow> bool" where
  "file_ok s i nb = (mapped s i nb \<and> inode_ok s i \<and> i < length (inodes s) \<and> i_type (inodes s ! i) \<noteq> T_DEV \<and>
     unat (i_size (inodes s ! i)) \<le> BSIZE * nb \<and> inode_blk s i \<notin> blockaddr s i ` {..<nb} \<and>
     (NDIRECT < nb \<longrightarrow> inode_blk s i \<noteq> unat (i_addrs (inodes s ! i) ! NDIRECT)))"

lemma length_content [simp]: "length (content s i) = unat (i_size (inodes s ! i))"
  by (simp add: content_def)

lemma file_okD:
  assumes "file_ok s i nb"
  shows "mapped s i nb" "inode_ok s i" "i < length (inodes s)" "i_type (inodes s ! i) \<noteq> T_DEV" "nb \<le> 140"
    "unat (i_size (inodes s ! i)) \<le> BSIZE * nb" "unat (i_size (inodes s ! i)) \<le> 71680"
  using assms by (auto simp: file_ok_def mapped_def file_consts)

lemma readi_run:
  assumes t: "tx s {} q" and ok: "file_ok s i nb" and off: "off \<le> i_size (inodes s ! i)" and n: "unat n < 2 ^ 31"
  shows "returns (readi dr i off n s) (\<lambda>(r, bs) t. bs = take (unat n) (drop (unat off) (content s i)) \<and> r = int (length bs) \<and>
    only_cache s {} q t)"
proof -
  note D = file_okD[OF ok]
  let ?sz = "i_size (inodes s ! i)"
  have o: "unat off \<le> unat ?sz" using off by (simp add: word_le_nat_alt)
  have w: "unat off + unat n < 2 ^ 32" using o D(7) n by simp
  then have on: "unat (off + n) = unat off + unat n" by (intro unat_add_lem[THEN iffD1]) simp
  let ?n = "if off + n > ?sz then ?sz - off else n"
  have un: "unat ?n = min (unat n) (unat ?sz - unat off)"
    using o on by (auto simp: unat_sub word_le_nat_alt word_less_nat_alt min_def)
  have g: "\<not> off > ?sz" "\<not> off + n < off" using o on by (simp_all add: word_less_nat_alt linorder_not_less)
  have le: "unat off + unat ?n \<le> BSIZE * nb" using un o D(6) by simp
  have bs: "map (fbyte s i) [unat off..<unat off + unat ?n] = take (unat n) (drop (unat off) (content s i))"
    using o un by (simp add: content_def drop_map take_map min_def)
  have "returns (bnd (readi_loop i off ?n s) (\<lambda>bytes s. Ret (sint ?n, bytes) s))
    (\<lambda>(r, bs) t. bs = take (unat n) (drop (unat off) (content s i)) \<and> r = int (length bs) \<and> only_cache s {} q t)"
  proof (rule returns_bnd[OF readi_loop_run[OF t D(1) le]], goal_cases)
    case (1 x u)
    have "sint ?n = int (unat ?n)" by (rule sint_small) (use un n in simp)
    then show ?case using 1 bs un o by simp
  qed
  then show ?thesis using D(4) g by (simp add: readi_def Let_def)
qed

text \<open>A change of the size of the inode in the cache, or of another block, leaves the blocks of the file.\<close>

lemma same_blocks:
  assumes "i_addrs (inodes t ! i) = i_addrs (inodes s ! i)"
    and "NDIRECT < nb \<Longrightarrow> bview t (unat (i_addrs (inodes s ! i) ! NDIRECT)) = bview s (unat (i_addrs (inodes s ! i) ! NDIRECT))"
  shows "bn < nb \<Longrightarrow> blockaddr t i bn = blockaddr s i bn"
  using assms by (simp add: blockaddr_def)

lemma grow_inode:
  assumes t: "tx s {} (Suc q)" and ok: "file_ok s i nb" and sz: "unat n \<le> BSIZE * nb"
  shows "returns (iupdate i (upd_inode i (\<lambda>ip. ip\<lparr>i_size := n\<rparr>) s)) (\<lambda>_ t. tx t {} q \<and> file_ok t i nb \<and>
    inodes t = (inodes s)[i := (inodes s ! i)\<lparr>i_size := n\<rparr>] \<and> i_size (inodes t ! i) = n \<and> (\<forall>x < BSIZE * nb. fbyte t i x = fbyte s i x))"
proof -
  note D = file_okD[OF ok]
  let ?u = "upd_inode i (\<lambda>ip. ip\<lparr>i_size := n\<rparr>) s"
  have io: "same_io s ?u" by simp
  note E = same_io_eqs[OF io]
  have iu: "inodes ?u ! i = (inodes s ! i)\<lparr>i_size := n\<rparr>" using D(3) by simp
  have eb: "inode_blk ?u i = inode_blk s i" "inode_slot ?u i = inode_slot s i" using iu by (simp_all add: inode_blk_def inode_slot_def)
  have oku: "inode_ok ?u i" using D(2) iu E by (simp add: inode_ok_def eb)
  have tu: "tx ?u {} (Suc q)" using t E(3) by simp
  have nb: "inode_blk s i \<notin> blockaddr s i ` {..<nb}" "NDIRECT < nb \<Longrightarrow> inode_blk s i \<noteq> unat (i_addrs (inodes s ! i) ! NDIRECT)"
    using ok by (auto simp: file_ok_def)
  show ?thesis
  proof (rule returns_mono[OF iupdate_run[OF tu oku]], elim conjE)
    fix x z assume z: "tx z {} q" and f: "log_frame ?u z"
      and w: "bview z = (bview ?u)(inode_blk ?u i := put_dinode (bview ?u (inode_blk ?u i)) (inode_slot ?u i) (dinode_of (inodes ?u ! i)))"
    note F = fs_frame[OF f]
    have iz: "inodes z ! i = (inodes s ! i)\<lparr>i_size := n\<rparr>" using F iu by simp
    have wz: "bview z b = bview s b" if "b \<noteq> inode_blk s i" for b using w that E(1) eb by simp
    have b: "blockaddr z i bn = blockaddr s i bn" if "bn < nb" for bn
      by (rule same_blocks[of _ _ _ nb]) (use iz wz nb(2) that in auto)
    have inj: "inj_on (blockaddr z i) {..<nb} = inj_on (blockaddr s i) {..<nb}" by (rule inj_on_cong) (simp add: b)
    have im: "blockaddr z i ` {..<nb} = blockaddr s i ` {..<nb}" by (rule image_cong) (simp_all add: b)
    have dz: "disksize z = disksize s" "in_log z = in_log s" "sb z = sb s" using F E by simp_all
    have ez: "inode_blk z i = inode_blk s i" using iz dz by (simp add: inode_blk_def)
    have "file_ok z i nb"
      using ok iz b inj im dz ez sz F by (simp add: file_ok_def mapped_def inode_ok_def)
    moreover have "fbyte z i x = fbyte s i x" if x: "x < BSIZE * nb" for x
    proof -
      have xb: "x div BSIZE < nb" using x by (simp add: less_mult_imp_div_less mult.commute)
      then have "blockaddr s i (x div BSIZE) \<noteq> inode_blk s i" using nb(1) xb by (metis imageI lessThan_iff)
      then show ?thesis by (simp add: fbyte_def b[OF xb] wz)
    qed
    moreover have "inodes z = (inodes s)[i := (inodes s ! i)\<lparr>i_size := n\<rparr>]" using F by simp
    ultimately show "tx z {} q \<and> file_ok z i nb \<and> inodes z = (inodes s)[i := (inodes s ! i)\<lparr>i_size := n\<rparr>] \<and>
        i_size (inodes z ! i) = n \<and> (\<forall>x < BSIZE * nb. fbyte z i x = fbyte s i x)"
      using z iz D(3) by simp
  qed
qed

text \<open>The list of bytes after a write: the bytes of \<open>a\<close> replace those at \<open>p\<close>, and what lies past the end extends the list.\<close>

definition splice :: "nat \<Rightarrow> u8 list \<Rightarrow> u8 list \<Rightarrow> u8 list" where
  "splice p a c = take p c @ a @ drop (p + length a) c"

lemma length_splice: "p \<le> length c \<Longrightarrow> length (splice p a c) = max (length c) (p + length a)"
  by (simp add: splice_def)

lemma content_splice:
  assumes p: "p \<le> unat (i_size (inodes s ! i))" and sz: "unat (i_size (inodes t ! i)) = max (unat (i_size (inodes s ! i))) (p + length a)"
    and f: "\<And>x. x < unat (i_size (inodes t ! i)) \<Longrightarrow> fbyte t i x = (if p \<le> x \<and> x < p + length a then a ! (x - p) else fbyte s i x)"
  shows "content t i = splice p a (content s i)"
proof (rule nth_equalityI)
  show "length (content t i) = length (splice p a (content s i))" using p sz by (simp add: length_splice)
next
  fix x assume "x < length (content t i)"
  then have x: "x < unat (i_size (inodes t ! i))" by simp
  show "content t i ! x = splice p a (content s i) ! x"
    using x p sz f[OF x] by (auto simp: content_def splice_def nth_append)
qed

lemma file_ok_wrote:
  assumes ok: "file_ok s i nb" and w: "wrote_file s i nb p a t"
  shows "file_ok t i nb"
proof -
  have F: "log_frame s t" and b: "\<And>bn. bn < nb \<Longrightarrow> blockaddr t i bn = blockaddr s i bn" using w by (auto simp: wrote_file_def)
  have im: "blockaddr t i ` {..<nb} = blockaddr s i ` {..<nb}" by (rule image_cong) (simp_all add: b)
  have "inode_blk t i = inode_blk s i" by (simp add: inode_blk_def fs_frame[OF F])
  then show ?thesis using ok fs_frame[OF F] wrote_file_mapped[OF w] im by (simp add: file_ok_def inode_ok_def)
qed

lemma writei_run:
  assumes t: "tx s {} (Suc (q + nsteps (unat off) (length src)))" and ok: "file_ok s i nb" and off: "off \<le> i_size (inodes s ! i)"
    and le: "unat off + length src \<le> BSIZE * nb"
  shows "returns (writei dw i src off s)
    (\<lambda>r t. r = int (length src) \<and> content t i = splice (unat off) src (content s i) \<and> file_ok t i nb \<and> tx t {} q \<and>
      (\<exists>m. inodes t = (inodes s)[i := (inodes s ! i)\<lparr>i_size := m\<rparr>]))"
proof -
  note D = file_okD[OF ok]
  let ?n = "of_nat (length src) :: u32" and ?sz = "unat (i_size (inodes s ! i))"
  have l: "unat off + length src \<le> 71680" using le D(5) by (simp add: file_consts)
  have un: "unat ?n = length src" using l by (simp add: unat_of_nat take_bit_nat_eq_self)
  have on: "unat (off + ?n) = unat off + length src" using l un by (subst unat_add_lem[THEN iffD1]) simp_all
  have g: "\<not> off > i_size (inodes s ! i)" "\<not> off + ?n < off" "\<not> off + ?n > of_nat (MAXFILE * BSIZE)"
    using off on l by (simp_all add: word_less_nat_alt word_le_nat_alt linorder_not_less file_consts)
  have sn: "sint ?n = int (length src)" using sint_small[of ?n] un l by simp
  have o: "unat off \<le> ?sz" using off by (simp add: word_le_nat_alt)
  have t': "tx s {} (Suc q + nsteps (unat off) (unat ?n))" using t un by simp
  have "returns (bnd (writei_loop i src off ?n s) (\<lambda>off s.
        if ?n > 0 \<and> off > i_size (inodes s ! i) then
          bnd (iupdate i (upd_inode i (\<lambda>ip. ip\<lparr>i_size := off\<rparr>) s)) (\<lambda>_ s. Ret (sint ?n) s)
        else Ret (sint ?n) s))
    (\<lambda>r t. r = int (length src) \<and> content t i = splice (unat off) src (content s i) \<and> file_ok t i nb \<and> tx t {} q \<and>
      (\<exists>m. inodes t = (inodes s)[i := (inodes s ! i)\<lparr>i_size := m\<rparr>]))"
  proof (rule returns_bnd[OF writei_loop_run[OF t' D(1)]], goal_cases)
    case (3 x u)
    then have x: "x = off + ?n" and w: "wrote_file s i nb (unat off) src u" and tu: "tx u {} (Suc q)" by simp_all
    have oku: "file_ok u i nb" by (rule file_ok_wrote[OF ok w])
    have iu': "inodes u = inodes s" using w fs_frame(2)[of s u] by (simp add: wrote_file_def)
    then have iu: "inodes u ! i = inodes s ! i" by simp
    have fb: "fbyte u i y = (if unat off \<le> y \<and> y < unat off + length src then src ! (y - unat off) else fbyte s i y)"
      if "y < BSIZE * nb" for y using w that by (simp add: wrote_file_def)
    show ?case
    proof (cases "?n > 0 \<and> x > i_size (inodes u ! i)")
      case True
      have sx: "unat x \<le> BSIZE * nb" "unat x = max ?sz (unat off + length src)"
        using x on le True iu by (simp_all add: word_less_nat_alt)
      have "returns (iupdate i (upd_inode i (\<lambda>ip. ip\<lparr>i_size := x\<rparr>) u))
        (\<lambda>_ t. content t i = splice (unat off) src (content s i) \<and> file_ok t i nb \<and> tx t {} q \<and>
      (\<exists>m. inodes t = (inodes s)[i := (inodes s ! i)\<lparr>i_size := m\<rparr>]))"
        by (rule returns_mono[OF grow_inode[OF tu oku sx(1)]], intro conjI content_splice[OF o]) (use sx fb iu' in auto)
      then show ?thesis using True sn by (simp add: returns_bnd)
    next
      case False
      then have "length src = 0 \<or> unat off + length src \<le> ?sz"
        using x on iu un by (auto simp: word_less_nat_alt unat_gt_0 linorder_not_less)
      then have "content u i = splice (unat off) src (content s i)"
        using o by (intro content_splice[OF o]) (auto simp: iu fb D(6) order_less_le_trans[OF _ D(6)])
      then show ?thesis using False oku tx_less[OF tu] sn iu' by (auto intro!: exI[of _ "i_size (inodes s ! i)"])
    qed
  qed (use un le in simp_all)
  then show ?thesis using D(4) g by (simp add: writei_def Let_def)
qed

text \<open>C20: Reading an inode gives the bytes of the file: \<open>readi\<close> at offset \<open>off\<close> returns the bytes of the file from there, at most
  \<open>n\<close> of them and none past the end, together with their number, and changes neither the file nor any block of the disk.\<close>

theorem readi_content:
  assumes t: "tx s {} q" and ok: "file_ok s i nb" and off: "off \<le> i_size (inodes s ! i)" and n: "unat n < 2 ^ 31"
  shows "returns (readi dr i off n s) (\<lambda>(r, bs) t. bs = take (unat n) (drop (unat off) (content s i)) \<and> r = int (length bs) \<and>
    content t i = content s i \<and> bview t = bview s \<and> inodes t = inodes s \<and> tx t {} q)"
proof (rule returns_mono[OF readi_run[OF assms]], elim case_prodE' conjE)
  fix x t r bs assume x: "x = (r, bs)" "bs = take (unat n) (drop (unat off) (content s i))" "r = int (length bs)"
    and c: "only_cache s {} q t"
  have "log_frame s t" and w: "bview t = bview s" and "tx t {} q" using c by (auto simp: only_cache_def)
  moreover have "inodes t = inodes s" by (rule fs_frame(2)) fact
  moreover have "content t i = content s i"
    using mapped_cong(2)[OF \<open>log_frame s t\<close> w, of i] calculation by (simp add: content_def)
  ultimately show "(case x of (r, bs) \<Rightarrow> \<lambda>t. bs = take (unat n) (drop (unat off) (content s i)) \<and> r = int (length bs) \<and>
    content t i = content s i \<and> bview t = bview s \<and> inodes t = inodes s \<and> tx t {} q) t" using x by simp
qed


definition demo_fio :: fsst where
  "demo_fio = demo_ino\<lparr>inodes := (inodes demo_ino)[0 := (inodes demo_ino ! 0)\<lparr>i_size := 5, i_addrs := [100, 101] @ replicate 11 0\<rparr>]\<rparr>"

lemma demo_fio_inode: "inodes demo_fio ! 0 = (inodes demo_ino ! 0)\<lparr>i_size := 5, i_addrs := [100, 101] @ replicate 11 0\<rparr>"
  by (simp add: demo_fio_def demo_ino_def)

lemma demo_fio_io: "same_io demo_ino demo_fio"
  by (simp add: same_io_def demo_fio_def mypid_def myproc_def)

lemma demo_fio_ok: "file_ok demo_fio 0 2"
proof -
  note E = same_io_eqs[OF demo_fio_io]
  have i: "i_inum (inodes demo_fio ! 0) = 3" "i_dev (inodes demo_fio ! 0) = 1" "i_type (inodes demo_fio ! 0) = T_FILE"
    by (simp_all add: demo_fio_inode demo_ino_def)
  have sb: "sb demo_fio = sb demo_ino" by (simp add: demo_fio_def)
  have "get32 (demo_disk 1) 5 = 32"
    by (simp add: demo_disk_def get32_put32s BSIZE_def del: put32s.simps)
  then have b: "inode_blk demo_fio 0 = 32"
    by (simp add: inode_blk_def sb i demo_ino_def IBLOCK_def IPB_8 demo_alloc_def lgst.defs decode_sb_def)
  have a: "blockaddr demo_fio 0 bn = (if bn = 0 then 100 else 101)" if "bn < 2" for bn
    using that by (auto simp: blockaddr_def demo_fio_inode file_consts nth_Cons')
  have d: "disksize demo_fio = 1000" using E by (simp add: demo_ino_def)
  have l: "in_log demo_fio b \<longleftrightarrow> 2 \<le> b \<and> b < 32" for b using E by (simp add: demo_ino_def in_log_def logno_def)
  have "inj_on (blockaddr demo_fio 0) {..<2}" by (rule inj_onI) (auto simp: a split: if_splits)
  then have m: "mapped demo_fio 0 2"
    using i d by (auto simp: mapped_def a file_consts l)
  have ok: "inode_ok demo_fio 0" using b d i by (simp add: inode_ok_def l demo_fio_inode file_consts)
  have "32 \<notin> blockaddr demo_fio 0 ` {..<2}" by (auto simp: a)
  then show ?thesis
    using m ok i b by (simp add: file_ok_def file_consts T_FILE_def T_DEV_def demo_fio_inode) (simp add: demo_fio_def demo_ino_def)
qed

lemma demo_fio_tx: "k \<le> 28 \<Longrightarrow> tx demo_fio {} k"
  using same_io_eqs(3)[OF demo_fio_io] demo_ino_tx[of k] by simp

theorem readi_content_witness:
  "returns (readi (\<lambda>_. None) 0 2 10 demo_fio) (\<lambda>(r, bs) t. r = 3 \<and> bs = drop 2 (content demo_fio 0))"
  by (rule returns_mono[OF readi_content[OF demo_fio_tx[of 0] demo_fio_ok]]) (auto simp: demo_fio_inode)


end
