(* ===== verification/Ulib.thy ===== *)
theory Ulib
  imports Cstring
begin

text \<open>
  The library of the user programs: \<^verbatim>\<open>ulib.c\<close> and \<^verbatim>\<open>printf.c\<close>.  Strings and buffers are lists as in \<open>Cstring\<close>; what
  a program writes with successive calls of \<^verbatim>\<open>write\<close> to a descriptor is the list of the bytes, and what it reads comes from
  an \<open>input\<close>: the pieces that a file, a pipe or the console has for successive calls of \<^verbatim>\<open>read\<close>, and how the input ends.
\<close>

subsection \<open>Input and output\<close>

record input =
  pieces :: "u8 list list"
  fails :: bool

text \<open>\<open>read\<close> of at most \<open>n\<close> bytes: the count it returns and the bytes.\<close>

definition read_in :: "nat \<Rightarrow> input \<Rightarrow> int \<times> u8 list \<times> input" where
  "read_in n inp =
     (case pieces inp of
        [] \<Rightarrow> ((if fails inp then -1 else 0), [], inp)
      | c # cs \<Rightarrow> (int (min n (length c)), take n c, inp\<lparr>pieces := (if drop n c = [] then cs else drop n c # cs)\<rparr>))"

subsection \<open>Strings\<close>

definition strcpy :: "u8 list \<Rightarrow> u8 list \<Rightarrow> u8 list" where
  "strcpy s t = (let w = cstr t @ [0] in w @ drop (length w) s)"

function strcmp :: "u8 list \<Rightarrow> u8 list \<Rightarrow> int" where
  "strcmp p q = (if deref p \<noteq> 0 \<and> deref p = deref q then strcmp (tl p) (tl q) else uint (deref p) - uint (deref q))"
  by pat_completeness auto
termination
  by (relation "measure (\<lambda>(p, q). length p)") (auto simp: deref_def split: list.splits)

text \<open>\<open>strchr\<close> gives the position of the character.\<close>

fun strchr :: "u8 list \<Rightarrow> u8 \<Rightarrow> nat option" where
  "strchr [] c = None"
| "strchr (a # s) c = (if a = 0 then None else if a = c then Some 0 else map_option Suc (strchr s c))"

definition memset_user :: "memory \<Rightarrow> u32 \<Rightarrow> u32 \<Rightarrow> u32 \<Rightarrow> memory" where
  "memset_user m dst c n = stosb m dst (ucast c) (unat n)"

definition memmove_user :: "memory \<Rightarrow> u32 \<Rightarrow> u32 \<Rightarrow> int \<Rightarrow> memory" where
  "memmove_user m dst src n = copy_up m dst src (nat n)"

text \<open>\<open>gets\<close>: what it stores in the buffer, the terminating zero included.\<close>

function gets_loop :: "nat \<Rightarrow> int \<Rightarrow> input \<Rightarrow> u8 list \<times> input" where
  "gets_loop i m inp =
     (if int i + 1 < m then
        (case read_in 1 inp of (cc, cs, inp) \<Rightarrow>
           if cc < 1 then ([0], inp)
           else if hd cs = 10 \<or> hd cs = 13 then ([hd cs, 0], inp)
           else (case gets_loop (Suc i) m inp of (w, inp) \<Rightarrow> (hd cs # w, inp)))
      else ([0], inp))"
  by pat_completeness auto
termination
  by (relation "measure (\<lambda>(i, m, inp). nat (m - int i))") auto

definition ugets :: "u8 list \<Rightarrow> int \<Rightarrow> input \<Rightarrow> u8 list \<times> input" where
  "ugets buf m inp = (case gets_loop 0 m inp of (w, inp) \<Rightarrow> (w @ drop (length w) buf, inp))"

fun atoi_loop :: "u32 \<Rightarrow> u8 list \<Rightarrow> u32" where
  "atoi_loop n [] = n"
| "atoi_loop n (c # s) = (if 48 <=s c \<and> c <=s 57 then atoi_loop (n * 10 + scast c - 48) s else n)"

definition atoi :: "u8 list \<Rightarrow> int" where
  "atoi s = sint (atoi_loop 0 s)"

subsection \<open>Formatted output\<close>

definition udigit :: "u32 \<Rightarrow> u8" where
  "udigit d = (if d < 10 then 48 + ucast d else 55 + ucast d)"

text \<open>The digits in the order they enter the buffer of \<open>printint\<close>, the last one first.\<close>

function udigits :: "u32 \<Rightarrow> u32 \<Rightarrow> u8 list" where
  "udigits base x = udigit (x mod base) # (if base < 2 \<or> x div base = 0 then [] else udigits base (x div base))"
  by pat_completeness auto
termination
  by (relation "measure (\<lambda>(b, x). unat x)") (auto simp: word_div_less linorder_not_less)

declare udigits.simps [simp del]

definition uprintint :: "u32 \<Rightarrow> u32 \<Rightarrow> bool \<Rightarrow> u8 list" where
  "uprintint xx base sign =
     (let neg = (sign \<and> xx <s 0); x = (if neg then - xx else xx)
      in rev (udigits base x @ (if neg then [45] else [])))"

text \<open>\<open>printf\<close>: the words on the stack after the format are \<open>ap\<close>, the strings that pointers point to \<open>str\<close>.\<close>

fun printf_loop :: "(u32 \<Rightarrow> u8 list) \<Rightarrow> bool \<Rightarrow> u8 list \<Rightarrow> (nat \<Rightarrow> u32) \<Rightarrow> nat \<Rightarrow> u8 list" where
  "printf_loop str st [] ap k = []"
| "printf_loop str st (c # fmt) ap k =
     (if c = 0 then []
      else if \<not> st then (if c = 37 then printf_loop str True fmt ap k else c # printf_loop str False fmt ap k)
      else if c = 100 then uprintint (ap k) 10 True @ printf_loop str False fmt ap (Suc k)
      else if c = 120 \<or> c = 112 then uprintint (ap k) 16 False @ printf_loop str False fmt ap (Suc k)
      else if c = 115 then
        (if ap k = 0 then [40, 110, 117, 108, 108, 41] else cstr (str (ap k))) @ printf_loop str False fmt ap (Suc k)
      else if c = 99 then ucast (ap k) # printf_loop str False fmt ap (Suc k)
      else if c = 37 then c # printf_loop str False fmt ap k
      else 37 # c # printf_loop str False fmt ap k)"

definition printf :: "(u32 \<Rightarrow> u8 list) \<Rightarrow> u8 list \<Rightarrow> (nat \<Rightarrow> u32) \<Rightarrow> u8 list" where
  "printf str fmt ap = printf_loop str False fmt ap 0"

subsection \<open>Numbers out and in\<close>

lemma small_cases: "(d :: u32) < 10 \<Longrightarrow> d = 0 \<or> d = 1 \<or> d = 2 \<or> d = 3 \<or> d = 4 \<or> d = 5 \<or> d = 6 \<or> d = 7 \<or> d = 8 \<or> d = 9"
proof -
  assume "d < 10"
  then have "unat d < 10" by (simp add: word_less_nat_alt)
  then have "unat d \<in> {0, 1, 2, 3, 4, 5, 6, 7, 8, 9}" by auto
  then show ?thesis by (auto dest!: arg_cong[where f = "of_nat :: nat \<Rightarrow> u32"])
qed

lemma udigit_read: "d < 10 \<Longrightarrow> 48 <=s udigit d \<and> udigit d <=s 57 \<and> scast (udigit d) = 48 + d"
  by (drule small_cases) (auto simp: udigit_def word_sle_eq)

lemma atoi_digit:
  assumes "d < 10"
  shows "atoi_loop n (udigit d # s) = atoi_loop (n * 10 + d) s"
proof -
  have "n * 10 + (48 + d) - 48 = n * 10 + d" by (simp add: algebra_simps)
  then show ?thesis using udigit_read[OF assms] by (simp only: atoi_loop.simps if_True simp_thms)
qed

lemma mod_ten: "(x :: u32) mod 10 < 10"
  by (simp add: word_less_nat_alt unat_mod_distrib)

lemma atoi_digits: "atoi_loop 0 (rev (udigits 10 x) @ s) = atoi_loop x s"
proof (induction "10 :: u32" x arbitrary: s rule: udigits.induct)
  case (1 x)
  have b: "\<not> (10 :: u32) < 2" by simp
  show ?case
  proof (cases "x div 10 = 0")
    case True
    then have "x mod 10 = x" using div_mult_mod_eq[of x 10] by simp
    then have "atoi_loop 0 (rev (udigits 10 x) @ s) = atoi_loop (0 * 10 + x) s"
      using True mod_ten[of x] by (subst udigits.simps) (simp only: rev.simps append.simps if_True simp_thms atoi_digit)
    then show ?thesis by simp
  next
    case False
    then have "atoi_loop 0 (rev (udigits 10 x) @ s) = atoi_loop (x div 10) (udigit (x mod 10) # s)"
      using 1 b by (subst udigits.simps) simp
    also have "\<dots> = atoi_loop x s" by (simp only: atoi_digit[OF mod_ten] div_mult_mod_eq)
    finally show ?thesis .
  qed
qed

text \<open>What \<open>printint\<close> prints of a number that is not negative, \<open>atoi\<close> reads back, whatever follows that is not a digit.\<close>

lemma printint_atoi:
  assumes "\<not> x <s 0" and "\<not> (48 <=s deref s \<and> deref s <=s 57)"
  shows "atoi (uprintint x 10 True @ s) = sint x"
proof -
  have "uprintint x 10 True = rev (udigits 10 x)" using assms(1) by (simp add: uprintint_def)
  moreover have "atoi_loop x s = x" using assms(2) by (cases s) auto
  ultimately show ?thesis by (simp add: atoi_def atoi_digits)
qed

lemma printint_atoi_witness: "atoi (uprintint 2147483647 10 True @ [32, 49]) = 2147483647"
  using printint_atoi[of 2147483647 "[32, 49]"] by (simp add: word_sless_alt word_sle_eq)

end
