(* ===== verification/Grep.thy ===== *)
theory Grep
  imports Ulib
begin

text \<open>
  The user program \<^verbatim>\<open>grep.c\<close>: its matcher for patterns with \<^verbatim>\<open>^ . * $\<close> and its loop over the lines of a descriptor.  A C
  string is the list of its characters before the terminating zero, the buffer of the program an array of 1024 bytes, and
  the descriptor the bytes that the successive calls of \<^verbatim>\<open>read\<close> find.  The matcher is proved equal to the language of the
  pattern, the loop to the list of the lines that match.
\<close>

subsection \<open>The matcher\<close>

text \<open>\<open>matchhere\<close> and \<open>matchstar\<close> recurse on the pattern, and the loop of \<open>matchstar\<close> on the text.\<close>

function (sequential) matchhere :: "u8 list \<Rightarrow> u8 list \<Rightarrow> bool" and matchstar :: "u8 \<Rightarrow> u8 list \<Rightarrow> u8 list \<Rightarrow> bool" where
  "matchhere [] text = True"
| "matchhere (c # re) text =
     (if re \<noteq> [] \<and> hd re = 42 then matchstar c (tl re) text
      else if c = 36 \<and> re = [] then text = []
      else if text \<noteq> [] \<and> (c = 46 \<or> c = hd text) then matchhere re (tl text)
      else False)"
| "matchstar c re text =
     (if matchhere re text then True
      else if text \<noteq> [] \<and> (hd text = c \<or> c = 46) then matchstar c re (tl text)
      else False)"
  by pat_completeness auto
termination
  by (relation "measures [\<lambda>x. case x of Inl (re, t) \<Rightarrow> length re | Inr (c, re, t) \<Rightarrow> Suc (length re),
        \<lambda>x. case x of Inl (re, t) \<Rightarrow> 0 | Inr (c, re, t) \<Rightarrow> Suc (length t)]") auto

fun match_from :: "u8 list \<Rightarrow> u8 list \<Rightarrow> bool" where
  "match_from re text = (if matchhere re text then True else case text of [] \<Rightarrow> False | _ # rest \<Rightarrow> match_from re rest)"

declare match_from.simps [simp del]

definition matches :: "u8 list \<Rightarrow> u8 list \<Rightarrow> bool" where
  "matches re text = (if re \<noteq> [] \<and> hd re = 94 then matchhere (tl re) text else match_from re text)"

subsection \<open>The language of a pattern\<close>

text \<open>A pattern is read as a list of items, one character each or any number of them, and whether it ends in \<^verbatim>\<open>$\<close>.  A dot
  stands for every character; \<^verbatim>\<open>$\<close> elsewhere, and a star with nothing before it, stand for themselves.\<close>

datatype item = One u8 | Many u8

fun items :: "u8 list \<Rightarrow> item list" where
  "items [] = []"
| "items [c] = (if c = 36 then [] else [One c])"
| "items (c # d # re) = (if d = 42 then Many c # items re else One c # items (d # re))"

fun at_end :: "u8 list \<Rightarrow> bool" where
  "at_end [] = False"
| "at_end [c] = (c = 36)"
| "at_end (c # d # re) = (if d = 42 then at_end re else at_end (d # re))"

definition sym :: "u8 \<Rightarrow> u8 \<Rightarrow> bool" where
  "sym c a = (c = 46 \<or> c = a)"

fun lang :: "item list \<Rightarrow> u8 list set" where
  "lang [] = {[]}"
| "lang (One c # xs) = {a # w | a w. sym c a \<and> w \<in> lang xs}"
| "lang (Many c # xs) = {u @ w | u w. list_all (sym c) u \<and> w \<in> lang xs}"

text \<open>A text starts with the pattern, and holds it somewhere.\<close>

definition starts :: "u8 list \<Rightarrow> u8 list \<Rightarrow> bool" where
  "starts re text = (\<exists>v w. text = v @ w \<and> v \<in> lang (items re) \<and> (at_end re \<longrightarrow> w = []))"

definition contains :: "u8 list \<Rightarrow> u8 list \<Rightarrow> bool" where
  "contains re text =
     (if re \<noteq> [] \<and> hd re = 94 then starts (tl re) text else (\<exists>u v. text = u @ v \<and> starts re v))"

lemma startsI: "ts = v @ w \<Longrightarrow> v \<in> lang (items re) \<Longrightarrow> at_end re \<longrightarrow> w = [] \<Longrightarrow> starts re ts"
  unfolding starts_def by blast

lemma starts_many:
  "starts (c # 42 # re) ts \<longleftrightarrow> starts re ts \<or> (\<exists>a t. ts = a # t \<and> sym c a \<and> starts (c # 42 # re) t)" (is "?L \<longleftrightarrow> ?R")
proof
  assume ?L
  then obtain x w where x: "ts = x @ w" "x \<in> lang (Many c # items re)" "at_end re \<longrightarrow> w = []"
    unfolding starts_def by (simp only: items.simps at_end.simps if_P) blast
  from x(2) obtain u v where u: "x = u @ v" "list_all (sym c) u" "v \<in> lang (items re)" by auto
  show ?R
  proof (cases u)
    case Nil
    then have "starts re ts" using x u by (intro startsI) auto
    then show ?thesis ..
  next
    case (Cons y u')
    then have "u' @ v \<in> lang (items (c # 42 # re))" using u by auto
    then have "starts (c # 42 # re) ((u' @ v) @ w)" by (rule startsI[OF refl]) (simp add: x)
    then show ?thesis using x u Cons by simp
  qed
next
  assume ?R
  then show ?L
  proof
    assume "starts re ts"
    then obtain v w where v: "ts = v @ w" "v \<in> lang (items re)" "at_end re \<longrightarrow> w = []" unfolding starts_def by blast
    have "[] @ v \<in> lang (items (c # 42 # re))" using v(2) by simp (metis append_Nil list.pred_inject(1))
    then show ?L by (rule startsI[rotated]) (use v in simp_all)
  next
    assume "\<exists>a t. ts = a # t \<and> sym c a \<and> starts (c # 42 # re) t"
    then obtain a x w where x: "ts = a # x @ w" "sym c a" "x \<in> lang (Many c # items re)" "at_end re \<longrightarrow> w = []"
      unfolding starts_def by (simp only: items.simps at_end.simps if_P) blast
    from x(3) obtain u v where u: "x = u @ v" "list_all (sym c) u" "v \<in> lang (items re)" by auto
    have "(a # u) @ v \<in> lang (items (c # 42 # re))" using u x(2) by simp (metis append_Cons list.pred_inject(2))
    then show ?L by (rule startsI[rotated]) (use x u in simp_all)
  qed
qed

lemma starts_one:
  assumes d: "d \<noteq> 42"
  shows "starts (c # d # re) ts \<longleftrightarrow> (\<exists>a t. ts = a # t \<and> sym c a \<and> starts (d # re) t)"
proof
  assume "starts (c # d # re) ts"
  then obtain x w where "ts = x @ w" "x \<in> lang (One c # items (d # re))" "at_end (d # re) \<longrightarrow> w = []"
    using d unfolding starts_def by (simp only: items.simps at_end.simps if_False) blast
  then show "\<exists>a t. ts = a # t \<and> sym c a \<and> starts (d # re) t" by (auto intro!: startsI simp del: items.simps at_end.simps)
next
  assume "\<exists>a t. ts = a # t \<and> sym c a \<and> starts (d # re) t"
  then obtain a v w where v: "ts = (a # v) @ w" "sym c a" "v \<in> lang (items (d # re))" "at_end (d # re) \<longrightarrow> w = []"
    unfolding starts_def by auto
  show "starts (c # d # re) ts" by (rule startsI[OF v(1)]) (use v d in auto)
qed

lemma starts_last: "starts [c] ts \<longleftrightarrow> (if c = 36 then ts = [] else \<exists>a t. ts = a # t \<and> sym c a)"
  by (auto simp: starts_def) (metis append_Cons append_Nil)

lemma matcher_starts:
  "matchhere re ts = starts re ts"
  "matchstar c re ts = starts (c # 42 # re) ts"
proof (induction re ts and c re ts rule: matchhere_matchstar.induct)
  case (2 c re ts)
  then show ?case
    by (cases re; cases ts) (auto simp: starts_one starts_last sym_def starts_def[of "[]"])
next
  case (3 c re ts)
  then show ?case by (subst starts_many) (cases ts; auto simp: sym_def)
qed (simp add: starts_def)

lemma grep_match_core: "matches re ts = contains re ts"
proof -
  have "match_from re ts = (\<exists>u v. ts = u @ v \<and> starts re v)"
  proof (induction ts)
    case Nil
    then show ?case by (subst match_from.simps) (simp add: matcher_starts)
  next
    case (Cons a ts)
    then show ?case by (subst match_from.simps) (auto simp add: matcher_starts Cons_eq_append_conv)
  qed
  then show ?thesis by (auto simp add: matches_def contains_def matcher_starts)
qed

text \<open>C39: The matcher of \<^verbatim>\<open>grep\<close> decides the language of the pattern: \<open>matches\<close> finds a pattern in a text exactly when some
  part of the text, from its start after \<^verbatim>\<open>^\<close> and up to its end before \<^verbatim>\<open>$\<close>, is a word of the pattern.\<close>

theorem grep_match_correct: "matches re text = contains re text"
  by (rule grep_match_core)

subsection \<open>The loop over the lines\<close>

text \<open>\<open>grep_lines\<close> is the inner loop over the lines in the buffer: it gives what is written, the buffer, and where the last, incomplete
  line starts.\<close>

lemma strchr_bound: "strchr s c = Some k \<Longrightarrow> k < length s"
  by (induction s arbitrary: k) (auto split: if_splits)

function grep_lines :: "u8 list \<Rightarrow> u8 list \<Rightarrow> nat \<Rightarrow> u8 list \<times> u8 list \<times> nat" where
  "grep_lines pattern buf p =
     (case strchr (drop p buf) 10 of
        None \<Rightarrow> ([], buf, p)
      | Some k \<Rightarrow>
          let q = p + k; buf = buf[q := 0]; hit = matches pattern (cstr (drop p buf));
              buf = (if hit then buf[q := 10] else buf); w = (if hit then take (q + 1 - p) (drop p buf) else [])
          in (case grep_lines pattern buf (q + 1) of (out, r) \<Rightarrow> (w @ out, r)))"
  by pat_completeness auto
termination
  by (relation "measure (\<lambda>(pat, buf, p). length buf - p)") (auto dest!: strchr_bound)

declare grep_lines.simps [simp del]

definition after_read :: "u8 list \<Rightarrow> u8 list \<Rightarrow> nat \<Rightarrow> u8 list \<Rightarrow> u8 list \<times> u8 list \<times> nat" where
  "after_read pattern buf m cs =
     (let buf = take m buf @ cs @ drop (m + length cs) buf; m = m + length cs; buf = buf[m := 0]
      in case grep_lines pattern buf 0 of (out, buf, p) \<Rightarrow>
           let m = (if p = 0 then 0 else m)
           in if m > 0 then (out, take (m - p) (drop p buf) @ drop (m - p) buf, m - p) else (out, buf, m))"

lemma read_in_less:
  "read_in n inp = (r, cs, inp') \<Longrightarrow> 0 < r \<Longrightarrow> sum_list (map length (pieces inp')) < sum_list (map length (pieces inp))"
  by (cases "pieces inp") (auto simp: read_in_def split: if_splits)

function grep_loop :: "u8 list \<Rightarrow> u8 list \<Rightarrow> nat \<Rightarrow> input \<Rightarrow> u8 list" where
  "grep_loop pattern buf m inp =
     (case read_in (1024 - m - 1) inp of (n, cs, inp) \<Rightarrow>
        if n > 0 then (case after_read pattern buf m cs of (out, buf, m) \<Rightarrow> out @ grep_loop pattern buf m inp)
        else [])"
  by pat_completeness auto
termination
  by (relation "measure (\<lambda>(pat, buf, m, inp). sum_list (map length (pieces inp)))") (auto dest: read_in_less[OF HOL.sym])

declare grep_loop.simps [simp del]

definition grep :: "u8 list \<Rightarrow> input \<Rightarrow> u8 list" where
  "grep pattern inp = grep_loop pattern (replicate 1024 0) 0 inp"

text \<open>The complete lines of an input.\<close>

function glines :: "u8 list \<Rightarrow> u8 list list" where
  "glines bs = (if 10 \<in> set bs then takeWhile (\<lambda>c. c \<noteq> 10) bs # glines (tl (dropWhile (\<lambda>c. c \<noteq> 10) bs)) else [])"
  by pat_completeness auto
termination
proof (relation "measure length", goal_cases)
  case (2 bs)
  then have "dropWhile (\<lambda>c. c \<noteq> 10) bs \<noteq> []" by simp
  then show ?case using length_dropWhile_le[of "\<lambda>c. c \<noteq> 10" bs] by (cases "dropWhile (\<lambda>c. c \<noteq> 10) bs") auto
qed simp

declare glines.simps [simp del]

definition selected :: "u8 list \<Rightarrow> u8 list \<Rightarrow> u8 list" where
  "selected pattern bs = concat (map (\<lambda>l. l @ [10]) (filter (contains pattern) (glines bs)))"

lemma glines_none: "10 \<notin> set v \<Longrightarrow> glines v = []"
  by (subst glines.simps) simp

lemma glines_line: "10 \<notin> set l \<Longrightarrow> glines (l @ 10 # r) = l # glines r"
  by (subst glines.simps) (simp add: takeWhile_append dropWhile_append)

lemma strchr_line: "10 \<notin> set l \<Longrightarrow> 0 \<notin> set l \<Longrightarrow> strchr (l @ 10 # r) 10 = Some (length l)"
  by (induction l) auto

lemma strchr_none: "10 \<notin> set v \<Longrightarrow> strchr (v @ 0 # r) 10 = None"
  by (induction v) auto

lemma cstr_upto: "0 \<notin> set l \<Longrightarrow> cstr (l @ 0 # r) = l"
  by (induction l) auto

text \<open>The text in the buffer is \<open>x\<close> from \<open>p\<close> on: its complete lines are scanned.\<close>

lemma grep_lines_run:
  assumes "drop p buf = x @ 0 # z" and "0 \<notin> set x" and "p \<le> length buf"
  shows "\<exists>u v b. x = u @ v \<and> 10 \<notin> set v \<and> (u = [] \<longleftrightarrow> 10 \<notin> set x) \<and> (\<forall>r. glines (x @ r) = glines u @ glines (v @ r)) \<and>
    grep_lines pattern buf p = (selected pattern u, b, p + length u) \<and> length b = length buf \<and> drop (p + length u) b = v @ 0 # z"
  using assms
proof (induction "length x" arbitrary: x p buf rule: less_induct)
  case less
  show ?case
  proof (cases "10 \<in> set x")
    case False
    have "grep_lines pattern buf p = ([], buf, p)"
      by (subst grep_lines.simps) (simp add: less.prems strchr_none[OF False])
    then show ?thesis
      using False less.prems by (intro exI[of _ "[]"] exI[of _ x] exI[of _ buf]) (simp add: selected_def glines_none)
  next
    case True
    then obtain l y where x: "x = l @ 10 # y" and l: "10 \<notin> set l" by (meson split_list_first)
    let ?q = "p + length l"
    have z: "0 \<notin> set l" "0 \<notin> set y" using less.prems x by simp_all
    have buf: "buf = take p buf @ l @ 10 # y @ 0 # z" using less.prems(1) x by (metis append_Cons append_assoc append_take_drop_id)
    define h where "h = take p buf"
    have h: "length h = p" "buf = h @ l @ 10 # y @ 0 # z" using less.prems(3) buf by (simp_all add: h_def)
    have s: "strchr (drop p buf) 10 = Some (length l)" using strchr_line[OF l z(1)] h by simp
    have b0: "buf[?q := 0] = h @ l @ 0 # y @ 0 # z" using h by (simp add: list_update_append)
    have b1: "(buf[?q := 0])[?q := 10] = buf" using h by (simp add: list_update_append)
    let ?hit = "matches pattern l"
    let ?b = "if ?hit then (buf[?q := 0])[?q := 10] else buf[?q := 0]"
    have m: "matches pattern (cstr (drop p (buf[?q := 0]))) = ?hit" using b0 h(1) cstr_upto[OF z(1)] by simp
    have d: "drop (Suc ?q) ?b = y @ 0 # z" unfolding b1 unfolding b0 using h by simp
    have d': "length ?b = length buf" "Suc ?q \<le> length ?b" using h by simp_all
    have w: "(if ?hit then take (?q + 1 - p) (drop p ?b) else []) = (if ?hit then l @ [10] else [])" unfolding b1 using h by simp
    have yl: "length y < length x" using x by simp
    obtain u v b where u: "y = u @ v" "10 \<notin> set v" "u = [] \<longleftrightarrow> 10 \<notin> set y" "\<And>r. glines (y @ r) = glines u @ glines (v @ r)"
      "grep_lines pattern ?b (Suc ?q) = (selected pattern u, b, Suc ?q + length u)" "length b = length ?b"
      "drop (Suc ?q + length u) b = v @ 0 # z"
      using less.hyps[OF yl d z(2) d'(2)] by blast
    have "grep_lines pattern buf p = ((if ?hit then l @ [10] else []) @ selected pattern u, b, p + length (l @ 10 # u))"
      using w by (subst grep_lines.simps) (simp only: s option.case Let_def m Suc_eq_plus1[symmetric] u(5) prod.case list.size length_append add_Suc_right add.assoc add_Suc add_0_right)
    moreover have "(if ?hit then l @ [10] else []) @ selected pattern u = selected pattern (l @ 10 # u)"
      by (simp add: selected_def glines_line[OF l] grep_match_core)
    moreover have "glines (x @ r) = glines (l @ 10 # u) @ glines (v @ r)" for r using u(4)[of r] x by (simp add: glines_line[OF l])
    ultimately show ?thesis
      using u x d d' by (intro exI[of _ "l @ 10 # u"] exI[of _ v] exI[of _ b]) (simp add: add.assoc)
  qed
qed

lemma after_read_run:
  assumes buf: "length buf = 1024" and v: "take m buf = v" "length v = m" "10 \<notin> set v" "0 \<notin> set v"
    and c: "m + length cs \<le> 1023" "0 \<notin> set cs" "cs \<noteq> []"
  shows "\<exists>u w b. v @ cs = u @ w \<and> 10 \<notin> set w \<and> (u = [] \<longleftrightarrow> 10 \<notin> set cs) \<and> (\<forall>r. glines (v @ cs @ r) = glines u @ glines (w @ r)) \<and>
    length b = 1024 \<and> (let k = (if u = [] then 0 else length w) in
      after_read pattern buf m cs = (selected pattern u, b, k) \<and> take k b = (if u = [] then [] else w))"
proof -
  let ?m = "m + length cs"
  let ?b = "(take m buf @ cs @ drop ?m buf)[?m := 0]"
  have b: "?b = (v @ cs) @ 0 # drop (Suc ?m) buf" and lb: "length ?b = 1024"
    using buf v c by (simp_all add: list_update_append Cons_nth_drop_Suc[symmetric])
  have d0: "drop 0 ?b = (v @ cs) @ 0 # drop (Suc ?m) buf" and z0: "0 \<notin> set (v @ cs)" using b v(4) c(2) by simp_all
  obtain u w b' where u: "v @ cs = u @ w" "10 \<notin> set w" "u = [] \<longleftrightarrow> 10 \<notin> set (v @ cs)"
    "\<And>r. glines ((v @ cs) @ r) = glines u @ glines (w @ r)" "grep_lines pattern ?b 0 = (selected pattern u, b', length u)"
    "length b' = length ?b" "drop (length u) b' = w @ 0 # drop (Suc ?m) buf"
    using grep_lines_run[OF d0 z0 le0, of pattern] unfolding add_0 by blast
  have n: "length u + length w = ?m" using u(1) v(2) by (metis length_append)
  then have n': "?m - length u = length w" by linarith
  let ?k = "if u = [] then 0 else length w"
  let ?c = "if u = [] then b' else take (length w) (drop (length u) b') @ drop (length w) b'"
  have "after_read pattern buf m cs = (selected pattern u, ?c, ?k)"
    using n' c(3) unfolding after_read_def Let_def by (simp add: u(5))
  moreover have "length ?c = 1024" using u(6,7) lb n c by (auto simp: min_def)
  moreover have "take ?k ?c = (if u = [] then [] else w)" using u(7) by simp
  moreover have "u = [] \<longleftrightarrow> 10 \<notin> set cs" using u(3) v(3) by simp
  ultimately show ?thesis
    unfolding Let_def using u(1,2) u(4)[unfolded append_assoc] by (intro exI[of _ u] exI[of _ w] exI[of _ ?c]) (intro conjI allI; assumption)
qed

lemma glines_short:
  assumes "\<forall>l \<in> set (glines (v @ r)). length l < n" and "10 \<notin> set v" and "n \<le> length v"
  shows "10 \<notin> set r"
proof
  assume "10 \<in> set r"
  then obtain l y where "r = l @ 10 # y" "10 \<notin> set l" by (meson split_list_first)
  then have "glines (v @ r) = (v @ l) # glines y" using glines_line[of "v @ l" y] assms(2) by simp
  then show False using assms(1,3) by simp
qed

lemma grep_loop_run:
  assumes "length buf = 1024" and "take m buf = v" and "length v = m" and "m < 1023" and "10 \<notin> set v" and "0 \<notin> set v" and "0 \<notin> set bs"
    and "\<forall>l \<in> set (glines (v @ bs)). length l < 1023"
  shows "grep_loop pattern buf m \<lparr>pieces = (if bs = [] then [] else [bs]), fails = f\<rparr> = selected pattern (v @ bs)"
  using assms
proof (induction "length bs" arbitrary: bs v m buf rule: less_induct)
  case less
  note P = less.prems
  show ?case
  proof (cases "bs = []")
    case True
    then show ?thesis using P(5) by (subst grep_loop.simps) (simp add: read_in_def selected_def glines_none)
  next
    case False
    let ?n = "1023 - m" and ?k = "1024 - m - 1"
    let ?cs = "take ?n bs" and ?r = "drop ?n bs"
    have c: "m + length ?cs \<le> 1023" "0 \<notin> set ?cs" "?cs \<noteq> []" "0 \<notin> set ?r"
      using P(4,7) False by (auto simp: min_def dest: in_set_takeD in_set_dropD)
    have "0 < length bs" using False by simp
    then have shorter: "length ?r < length bs" using P(4) unfolding length_drop by linarith
    obtain u w b where u: "v @ ?cs = u @ w" "10 \<notin> set w" "u = [] \<longleftrightarrow> 10 \<notin> set ?cs"
      "\<And>r. glines (v @ ?cs @ r) = glines u @ glines (w @ r)" "length b = 1024"
      "after_read pattern buf m ?cs = (selected pattern u, b, if u = [] then 0 else length w)"
      "take (if u = [] then 0 else length w) b = (if u = [] then [] else w)"
      using after_read_run[OF P(1,2,3,5,6) c(1-3), of pattern] unfolding Let_def by blast
    have g: "glines (v @ bs) = glines u @ glines (w @ ?r)" using u(4)[of ?r] by simp
    let ?v = "if u = [] then [] else w"
    have sel: "selected pattern (v @ bs) = selected pattern u @ selected pattern (?v @ ?r)" and
      small: "\<forall>l \<in> set (glines (?v @ ?r)). length l < 1023"
    proof -
      have "glines (w @ ?r) = glines (?v @ ?r)"
      proof (cases "u = []")
        case True
        then have wv: "w = v @ ?cs" using u(1) by simp
        have "10 \<notin> set ?r"
        proof (cases "?r = []")
          case False
          then have "length w = 1023" using wv P(3,4) by simp
          then show ?thesis using glines_short[of w ?r 1023] P(8) g u(2) True by (simp add: glines_none)
        qed simp
        then show ?thesis using u(2) by (auto simp: glines_none True)
      qed simp
      then have g: "glines (v @ bs) = glines u @ glines (?v @ ?r)" using g by (rule subst)
      then show "\<forall>l \<in> set (glines (?v @ ?r)). length l < 1023" using P(8) by (metis Un_iff set_append)
      show "selected pattern (v @ bs) = selected pattern u @ selected pattern (?v @ ?r)"
        unfolding selected_def g by (simp only: filter_append map_append concat_append)
    qed
    have "length u + length w = m + length ?cs" using arg_cong[OF u(1), of length] P(3) by simp
    then have len: "length ?v < 1023" using c(1) by (cases u) simp_all
    have "0 \<notin> set (v @ ?cs)" using P(6) c(2) by simp
    then have v': "10 \<notin> set ?v" "0 \<notin> set ?v" "take (length ?v) b = ?v" using u(1,2,7) by auto
    have "grep_loop pattern b (length ?v) \<lparr>pieces = (if ?r = [] then [] else [?r]), fails = f\<rparr> = selected pattern (?v @ ?r)"
      by (rule less.hyps[OF shorter u(5) v'(3) refl len v'(1,2) c(4) small])
    then show ?thesis
      using sel u(6) c(3) by (subst grep_loop.simps) (cases "u = []"; simp add: read_in_def False)
  qed
qed

text \<open>C40: On a file, \<^verbatim>\<open>grep\<close> writes exactly the complete lines that hold the pattern, in order and each with its newline, however
  the reads cut the lines: if the file has no zero byte and no line as long as the buffer.\<close>

theorem grep_output:
  assumes "0 \<notin> set bs" and "\<forall>l \<in> set (glines bs). length l < 1023"
  shows "grep pattern \<lparr>pieces = [bs], fails = False\<rparr> = concat (map (\<lambda>l. l @ [10]) (filter (contains pattern) (glines bs)))"
proof (cases "bs = []")
  case True
  then show ?thesis unfolding grep_def by (subst grep_loop.simps) (simp add: read_in_def glines_none)
next
  case False
  then show ?thesis
    using grep_loop_run[of "replicate 1024 0" 0 "[]" bs pattern False] assms by (simp add: grep_def selected_def)
qed

theorem grep_output_witness:
  "grep [94, 97, 42, 36] \<lparr>pieces = [[97, 97, 10, 98, 10, 10, 97]], fails = False\<rparr> = [97, 97, 10, 10]"
proof -
  have g: "glines [97, 97, 10, 98, 10, 10, 97] = [[97, 97], [98], []]"
    by (simp add: glines.simps)
  have "contains [94, 97, 42, 36] [97, 97]" "\<not> contains [94, 97, 42, 36] [98]" "contains [94, 97, 42, 36] []"
    by (simp_all add: grep_match_core[symmetric] matches_def)
  then show ?thesis using grep_output[of "[97, 97, 10, 98, 10, 10, 97]" "[94, 97, 42, 36]"] by (simp add: g)
qed

end
