(* ===== verification/Utils.thy ===== *)
theory Utils
  imports Grep "HOL-Library.Char_ord"
begin

text \<open>
  The small user programs: \<^verbatim>\<open>cat.c\<close>, \<^verbatim>\<open>wc.c\<close>, \<^verbatim>\<open>echo.c\<close>, \<^verbatim>\<open>rm.c\<close>, \<^verbatim>\<open>mkdir.c\<close>, \<^verbatim>\<open>ln.c\<close>, \<^verbatim>\<open>kill.c\<close>, \<^verbatim>\<open>ls.c\<close> and
  the main program of \<^verbatim>\<open>grep.c\<close>.  A program is a function from its arguments to the list of what it writes, each piece
  with its descriptor; the system calls it makes are arguments (\<open>opn\<close> gives what a path opens, a call that only succeeds or fails
  its result), and the output ends where the program exits.
\<close>

type_synonym writes = "(nat \<times> u8 list) list"

definition chars :: "string \<Rightarrow> u8 list" where
  "chars cs = map (\<lambda>c. of_nat (of_char c)) cs"

text \<open>A \<open>printf\<close> whose arguments are the given strings; where the strings lie in memory does not matter.\<close>

definition say :: "nat \<Rightarrow> string \<Rightarrow> u8 list list \<Rightarrow> writes" where
  "say fd fmt as = [(fd, printf (\<lambda>p. as ! (unat p - 1)) (chars fmt) (\<lambda>k. of_nat (k + 1)))]"

subsection \<open>Copying\<close>

text \<open>\<open>cat\<close>: what it writes, and whether it comes back.  \<open>wr\<close> is the result of each \<open>write\<close>.\<close>

function cat :: "(u8 list \<Rightarrow> int) \<Rightarrow> input \<Rightarrow> writes \<times> bool" where
  "cat wr inp =
     (case read_in 512 inp of (n, cs, inp) \<Rightarrow>
        if n > 0 then
          if wr cs \<noteq> n then ((1, take (nat (wr cs)) cs) # say 1 (''cat: write error'' @ [CHR 10]) [], False)
          else (case cat wr inp of (out, ok) \<Rightarrow> ((1, cs) # out, ok))
        else if n < 0 then (say 1 (''cat: read error'' @ [CHR 10]) [], False)
        else ([], True))"
  by pat_completeness auto
termination
  by (relation "measure (\<lambda>(wr, inp). sum_list (map length (pieces inp)))") (auto dest: read_in_less[OF HOL.sym])

declare cat.simps [simp del]

fun cat_files :: "(u8 list \<Rightarrow> int) \<Rightarrow> (u8 list \<Rightarrow> input option) \<Rightarrow> u8 list list \<Rightarrow> writes" where
  "cat_files wr opn [] = []"
| "cat_files wr opn (a # as) =
     (case opn a of
        None \<Rightarrow> say 1 (''cat: cannot open %s'' @ [CHR 10]) [a]
      | Some inp \<Rightarrow> (case cat wr inp of (out, ok) \<Rightarrow> if ok then out @ cat_files wr opn as else out))"

definition cat_main :: "(u8 list \<Rightarrow> int) \<Rightarrow> (u8 list \<Rightarrow> input option) \<Rightarrow> input \<Rightarrow> u8 list list \<Rightarrow> writes" where
  "cat_main wr opn stdin argv = (if length argv \<le> 1 then fst (cat wr stdin) else cat_files wr opn (tl argv))"

subsection \<open>Counting\<close>

definition blanks :: "u8 list" where
  "blanks = [32, 13, 9, 10, 11]"

text \<open>The counters: lines, words, characters, and whether the last character was part of a word.\<close>

type_synonym counts = "nat \<times> nat \<times> nat \<times> bool"

fun wc_char :: "u8 \<Rightarrow> counts \<Rightarrow> counts" where
  "wc_char a (l, w, c, inword) =
     (let c = c + 1; l = (if a = 10 then l + 1 else l)
      in if strchr blanks a \<noteq> None then (l, w, c, False)
         else if \<not> inword then (l, w + 1, c, True)
         else (l, w, c, inword))"

function wc_loop :: "counts \<Rightarrow> input \<Rightarrow> counts \<times> int" where
  "wc_loop st inp =
     (case read_in 512 inp of (n, cs, inp) \<Rightarrow> if n > 0 then wc_loop (fold wc_char cs st) inp else (st, n))"
  by pat_completeness auto
termination
  by (relation "measure (\<lambda>(st, inp). sum_list (map length (pieces inp)))") (auto dest: read_in_less[OF HOL.sym])

declare wc_loop.simps [simp del]

definition wc :: "input \<Rightarrow> u8 list \<Rightarrow> writes \<times> bool" where
  "wc inp nm =
     (case wc_loop (0, 0, 0, False) inp of ((l, w, c, inword), n) \<Rightarrow>
        if n < 0 then (say 1 (''wc: read error'' @ [CHR 10]) [], False)
        else ([(1, printf (\<lambda>_. nm) (chars (''%d %d %d %s'' @ [CHR 10])) (\<lambda>k. [of_nat l, of_nat w, of_nat c, 1] ! k))], True))"

fun wc_files :: "(u8 list \<Rightarrow> input option) \<Rightarrow> u8 list list \<Rightarrow> writes" where
  "wc_files opn [] = []"
| "wc_files opn (a # as) =
     (case opn a of
        None \<Rightarrow> say 1 (''wc: cannot open %s'' @ [CHR 10]) [a]
      | Some inp \<Rightarrow> (case wc inp a of (out, ok) \<Rightarrow> if ok then out @ wc_files opn as else out))"

definition wc_main :: "(u8 list \<Rightarrow> input option) \<Rightarrow> input \<Rightarrow> u8 list list \<Rightarrow> writes" where
  "wc_main opn stdin argv = (if length argv \<le> 1 then fst (wc stdin []) else wc_files opn (tl argv))"

subsection \<open>Programs that make one system call per argument\<close>

fun grep_files :: "u8 list \<Rightarrow> (u8 list \<Rightarrow> input option) \<Rightarrow> u8 list list \<Rightarrow> writes" where
  "grep_files pattern opn [] = []"
| "grep_files pattern opn (a # as) =
     (case opn a of
        None \<Rightarrow> say 1 (''grep: cannot open %s'' @ [CHR 10]) [a]
      | Some inp \<Rightarrow> (1, grep pattern inp) # grep_files pattern opn as)"

definition grep_main :: "(u8 list \<Rightarrow> input option) \<Rightarrow> input \<Rightarrow> u8 list list \<Rightarrow> writes" where
  "grep_main opn stdin argv =
     (if length argv \<le> 1 then say 2 (''usage: grep pattern [file ...]'' @ [CHR 10]) []
      else if length argv \<le> 2 then [(1, grep (argv ! 1) stdin)]
      else grep_files (argv ! 1) opn (drop 2 argv))"

fun echo_args :: "u8 list list \<Rightarrow> writes" where
  "echo_args [] = []"
| "echo_args (a # as) = say 1 ''%s%s'' [a, if as \<noteq> [] then chars '' '' else [10]] @ echo_args as"

definition echo_main :: "u8 list list \<Rightarrow> writes" where
  "echo_main argv = echo_args (tl argv)"

text \<open>\<open>rm\<close> and \<open>mkdir\<close> stop at the first failure; the paths they call the kernel with are part of the result.\<close>

fun each_arg :: "string \<Rightarrow> (u8 list \<Rightarrow> int) \<Rightarrow> u8 list list \<Rightarrow> u8 list list \<times> writes" where
  "each_arg msg call [] = ([], [])"
| "each_arg msg call (a # as) =
     (if call a < 0 then ([a], say 2 msg [a])
      else case each_arg msg call as of (done_, out) \<Rightarrow> (a # done_, out))"

definition rm_main :: "(u8 list \<Rightarrow> int) \<Rightarrow> u8 list list \<Rightarrow> u8 list list \<times> writes" where
  "rm_main unlink argv =
     (if length argv < 2 then ([], say 2 (''Usage: rm files...'' @ [CHR 10]) [])
      else each_arg (''rm: %s failed to delete'' @ [CHR 10]) unlink (tl argv))"

definition mkdir_main :: "(u8 list \<Rightarrow> int) \<Rightarrow> u8 list list \<Rightarrow> u8 list list \<times> writes" where
  "mkdir_main mkdir argv =
     (if length argv < 2 then ([], say 2 (''Usage: mkdir files...'' @ [CHR 10]) [])
      else each_arg (''mkdir: %s failed to create'' @ [CHR 10]) mkdir (tl argv))"

definition ln_main :: "(u8 list \<Rightarrow> u8 list \<Rightarrow> int) \<Rightarrow> u8 list list \<Rightarrow> writes" where
  "ln_main link argv =
     (if length argv \<noteq> 3 then say 2 (''Usage: ln old new'' @ [CHR 10]) []
      else if link (argv ! 1) (argv ! 2) < 0 then say 2 (''link %s %s: failed'' @ [CHR 10]) [argv ! 1, argv ! 2]
      else [])"

text \<open>The numbers \<open>kill\<close> calls the kernel with.\<close>

definition kill_main :: "u8 list list \<Rightarrow> int list \<times> writes" where
  "kill_main argv =
     (if length argv < 2 then ([], say 2 (''usage: kill pid...'' @ [CHR 10]) []) else (map atoi (tl argv), []))"

subsection \<open>Listing\<close>

text \<open>\<open>fmtname\<close>: the part of a path after its last slash, padded to the width of a directory entry.  The scan starts at the
  terminating zero.\<close>

definition after_slash :: "u8 list \<Rightarrow> u8 list" where
  "after_slash path = rev (takeWhile (\<lambda>c. c \<noteq> 47) (rev (cstr path)))"

definition DIRSIZ_user :: nat where
  "DIRSIZ_user = 14"

definition fmtname :: "u8 list \<Rightarrow> u8 list" where
  "fmtname path =
     (let p = after_slash path in
      if length p \<ge> DIRSIZ_user then p else p @ replicate (DIRSIZ_user - length p) 32)"

record ustat =
  us_type :: int
  us_ino :: u32
  us_size :: u32

definition ls_line :: "u8 list \<Rightarrow> ustat \<Rightarrow> writes" where
  "ls_line path st =
     [(1, printf (\<lambda>_. fmtname path) (chars (''%s %d %d %d'' @ [CHR 10])) (\<lambda>k. [1, word_of_int (us_type st), us_ino st, us_size st] ! k))]"

text \<open>The entries of a directory come as pairs of inode number and name; \<open>stat\<close> may fail.\<close>

fun ls_entries :: "(u8 list \<Rightarrow> ustat option) \<Rightarrow> u8 list \<Rightarrow> (nat \<times> u8 list) list \<Rightarrow> writes" where
  "ls_entries stat path [] = []"
| "ls_entries stat path ((inum, nm) # des) =
     (if inum = 0 then ls_entries stat path des
      else let buf = cstr path @ 47 # cstr (take DIRSIZ_user nm) in
           (case stat buf of
              None \<Rightarrow> say 1 (''ls: cannot stat %s'' @ [CHR 10]) [buf]
            | Some st \<Rightarrow> ls_line buf st) @ ls_entries stat path des)"

definition ls :: "(u8 list \<Rightarrow> bool) \<Rightarrow> (u8 list \<Rightarrow> ustat option) \<Rightarrow> (u8 list \<Rightarrow> (nat \<times> u8 list) list) \<Rightarrow> u8 list \<Rightarrow> writes" where
  "ls opens stat entries path =
     (if \<not> opens path then say 2 (''ls: cannot open %s'' @ [CHR 10]) [path]
      else case stat path of
        None \<Rightarrow> say 2 (''ls: cannot stat %s'' @ [CHR 10]) [path]
      | Some st \<Rightarrow>
          if us_type st = 2 then ls_line path st
          else if us_type st = 1 then
            if length (cstr path) + 1 + DIRSIZ_user + 1 > 512 then say 1 (''ls: path too long'' @ [CHR 10]) []
            else ls_entries stat path (entries path)
          else [])"

definition ls_main :: "(u8 list \<Rightarrow> bool) \<Rightarrow> (u8 list \<Rightarrow> ustat option) \<Rightarrow> (u8 list \<Rightarrow> (nat \<times> u8 list) list) \<Rightarrow> u8 list list \<Rightarrow> writes" where
  "ls_main opens stat entries argv =
     (if length argv < 2 then ls opens stat entries (chars ''.'') else concat (map (ls opens stat entries) (tl argv)))"

subsection \<open>The words of an input\<close>

text \<open>The reference: a word is a maximal run of characters that are not blanks, so a text has as many words as characters that
  are no blank and follow a blank or the start.\<close>

definition blank :: "u8 \<Rightarrow> bool" where
  "blank a = (a \<in> {32, 13, 9, 10, 11})"

definition word_count :: "u8 list \<Rightarrow> nat" where
  "word_count bs = length (filter (\<lambda>(a, b). blank a \<and> \<not> blank b) (zip (32 # bs) bs))"

lemma strchr_blanks: "strchr blanks a = None \<longleftrightarrow> \<not> blank a"
  by (auto simp: blanks_def blank_def)

lemma wc_fold:
  "fold wc_char cs (l, w, c, \<not> blank a) =
     (l + count_list cs 10, w + length (filter (\<lambda>(a, b). blank a \<and> \<not> blank b) (zip (a # cs) cs)), c + length cs, \<not> blank (last (a # cs)))"
proof (induction cs arbitrary: l w c a)
  case (Cons b cs)
  have "wc_char b (l, w, c, \<not> blank a) = ((if b = 10 then l + 1 else l), (if blank a \<and> \<not> blank b then w + 1 else w), c + 1, \<not> blank b)"
    by (auto simp: strchr_blanks Let_def)
  then show ?case by (simp add: Cons.IH del: wc_char.simps)
qed simp

lemma wc_loop_run: "0 \<notin> length ` set (pieces inp) \<Longrightarrow> wc_loop st inp = (fold wc_char (concat (pieces inp)) st, if fails inp then -1 else 0)"
proof (induction st inp rule: wc_loop.induct)
  case (1 st inp)
  show ?case
  proof (cases "pieces inp")
    case Nil
    then show ?thesis by (subst wc_loop.simps) (simp add: read_in_def)
  next
    case (Cons c cs)
    let ?i = "inp\<lparr>pieces := (if drop 512 c = [] then cs else drop 512 c # cs)\<rparr>"
    have r: "read_in 512 inp = (int (min 512 (length c)), take 512 c, ?i)" and c: "c \<noteq> []"
      using Cons 1(2) by (auto simp: read_in_def)
    have p: "0 \<notin> length ` set (pieces ?i)" using 1(2) Cons by auto
    have n: "0 < int (min 512 (length c))" using c by simp
    have "concat (pieces inp) = take 512 c @ concat (pieces ?i)" using Cons by simp
    then have e: "fold wc_char (concat (pieces inp)) st = fold wc_char (concat (pieces ?i)) (fold wc_char (take 512 c) st)" by simp
    have "wc_loop st inp = wc_loop (fold wc_char (take 512 c) st) ?i" using n by (subst wc_loop.simps) (simp only: r prod.case if_True)
    then show ?thesis using 1(1)[OF r[symmetric] refl n p] e by simp
  qed
qed

text \<open>\<^verbatim>\<open>wc\<close> counts the newlines, words and characters of the whole input, whatever pieces the reads cut it into, also in the
  middle of a word.\<close>

lemma wc_counts:
  assumes "0 \<notin> length ` set (pieces inp)"
  shows "wc_loop (0, 0, 0, False) inp =
    (let bs = concat (pieces inp) in
     ((count_list bs 10, word_count bs, length bs, \<not> blank (last (32 # bs))), if fails inp then -1 else 0))"
  using wc_fold[of "concat (pieces inp)" 0 0 0 32] by (simp add: wc_loop_run[OF assms] word_count_def Let_def blank_def)

lemma wc_counts_witness:
  "wc_loop (0, 0, 0, False) \<lparr>pieces = [[97, 98], [99, 32, 100], [10]], fails = False\<rparr> = ((1, 2, 6, False), 0)"
  using wc_counts[of "\<lparr>pieces = [[97, 98], [99, 32, 100], [10]], fails = False\<rparr>"]
  by (simp add: word_count_def blank_def Let_def)

end
