(* ===== verification/Umalloc.thy ===== *)
theory Umalloc
  imports Prelude
begin

text \<open>
  The allocator of the user programs, \<^verbatim>\<open>umalloc.c\<close>: a circular list of free blocks in the order of their addresses, that starts
  at the static header \<^verbatim>\<open>base\<close>.  The state holds the header that lies at each address (the bytes of the blocks themselves the
  allocator never looks at), the two static variables and the kernel.  A pointer is an address, pointer arithmetic counts in
  headers of 8 bytes.  A loop that does not end, or a system call that does not return, is \<^term>\<open>None\<close>.
\<close>

subsection \<open>The allocator\<close>

record header =
  nextp :: u32
  units :: u32

record 'k ust =
  heads :: "u32 \<Rightarrow> header"
  base_at :: u32
  freep :: u32
  kern :: 'k

definition set_next :: "u32 \<Rightarrow> u32 \<Rightarrow> 'k ust \<Rightarrow> 'k ust" where
  "set_next a p s = s\<lparr>heads := (heads s)(a := (heads s a)\<lparr>nextp := p\<rparr>)\<rparr>"

definition set_units :: "u32 \<Rightarrow> u32 \<Rightarrow> 'k ust \<Rightarrow> 'k ust" where
  "set_units a n s = s\<lparr>heads := (heads s)(a := (heads s a)\<lparr>units := n\<rparr>)\<rparr>"

partial_function (option) free_scan :: "(u32 \<Rightarrow> header) \<Rightarrow> u32 \<Rightarrow> u32 \<Rightarrow> u32 option" where
  "free_scan h bp p =
     (let q = nextp (h p) in
      if bp > p \<and> bp < q then Some p
      else if p \<ge> q \<and> (bp > p \<or> bp < q) then Some p
      else free_scan h bp q)"

definition free_link :: "u32 \<Rightarrow> u32 \<Rightarrow> 'k ust \<Rightarrow> 'k ust" where
  "free_link bp p s =
     (let q = nextp (heads s p);
          s = (if bp + 8 * units (heads s bp) = q
               then set_next bp (nextp (heads s q)) (set_units bp (units (heads s bp) + units (heads s q)) s)
               else set_next bp q s);
          s = (if p + 8 * units (heads s p) = bp
               then set_next p (nextp (heads s bp)) (set_units p (units (heads s p) + units (heads s bp)) s)
               else set_next p bp s)
      in s\<lparr>freep := p\<rparr>)"

definition ufree :: "u32 \<Rightarrow> 'k ust \<Rightarrow> 'k ust option" where
  "ufree ap s = (let bp = ap - 8 in map_option (\<lambda>p. free_link bp p s) (free_scan (heads s) bp (freep s)))"

text \<open>\<open>sbrk\<close> is the system call: the old end of the memory, or \<open>-1\<close>.\<close>

type_synonym 'k sbrk_call = "u32 \<Rightarrow> 'k \<Rightarrow> (u32 \<times> 'k) option"

definition morecore :: "'k sbrk_call \<Rightarrow> u32 \<Rightarrow> 'k ust \<Rightarrow> (u32 \<times> 'k ust) option" where
  "morecore sbrk nu s =
     (let nu = (if nu < 4096 then 4096 else nu) in
      case sbrk (nu * 8) (kern s) of
        None \<Rightarrow> None
      | Some (p, k) \<Rightarrow>
          let s = s\<lparr>kern := k\<rparr> in
          if p = -1 then Some (0, s)
          else map_option (\<lambda>s. (freep s, s)) (ufree (p + 8) (set_units p nu s)))"

definition take_block :: "u32 \<Rightarrow> u32 \<Rightarrow> u32 \<Rightarrow> 'k ust \<Rightarrow> u32 \<times> 'k ust" where
  "take_block nunits prevp p s =
     (if units (heads s p) = nunits then (p + 8, (set_next prevp (nextp (heads s p)) s)\<lparr>freep := prevp\<rparr>)
      else
        let s = set_units p (units (heads s p) - nunits) s;
            p = p + 8 * units (heads s p);
            s = set_units p nunits s
        in (p + 8, s\<lparr>freep := prevp\<rparr>))"

partial_function (option) malloc_scan :: "'k sbrk_call \<Rightarrow> u32 \<Rightarrow> u32 \<Rightarrow> u32 \<Rightarrow> 'k ust \<Rightarrow> (u32 \<times> 'k ust) option" where
  "malloc_scan sbrk nunits prevp p s =
     (if units (heads s p) \<ge> nunits then Some (take_block nunits prevp p s)
      else if p = freep s then
        Option.bind (morecore sbrk nunits s) (\<lambda>(p, s).
          if p = 0 then Some (0, s) else malloc_scan sbrk nunits p (nextp (heads s p)) s)
      else malloc_scan sbrk nunits p (nextp (heads s p)) s)"

definition nunits_of :: "u32 \<Rightarrow> u32" where
  "nunits_of nbytes = (nbytes + 8 - 1) div 8 + 1"

definition malloc :: "'k sbrk_call \<Rightarrow> u32 \<Rightarrow> 'k ust \<Rightarrow> (u32 \<times> 'k ust) option" where
  "malloc sbrk nbytes s =
     (let s = (if freep s = 0
               then set_units (base_at s) 0 (set_next (base_at s) (base_at s) (s\<lparr>freep := base_at s\<rparr>)) else s);
          prevp = freep s
      in malloc_scan sbrk (nunits_of nbytes) prevp (nextp (heads s prevp)) s)"

subsection \<open>Chains of headers\<close>

text \<open>The headers of \<open>xs\<close> point each to the next one, and the last one to \<open>y\<close>.\<close>

definition links :: "(u32 \<Rightarrow> header) \<Rightarrow> u32 list \<Rightarrow> u32 \<Rightarrow> bool" where
  "links h xs y = (map (\<lambda>a. nextp (h a)) xs = tl xs @ [y])"

lemma links_single [simp]: "links h [x] y \<longleftrightarrow> nextp (h x) = y"
  by (simp add: links_def)

lemma links_cons: "links h (x # z # zs) y \<longleftrightarrow> nextp (h x) = z \<and> links h (z # zs) y"
  by (simp add: links_def)

lemma links_append:
  assumes "xs \<noteq> []" and "zs \<noteq> []"
  shows "links h (xs @ zs) y \<longleftrightarrow> links h xs (hd zs) \<and> links h zs y"
  using assms
proof (induction xs)
  case (Cons x xs)
  then show ?case by (cases xs; cases zs) (auto simp: links_cons)
qed simp

lemma links_upd [simp]: "z \<notin> set xs \<Longrightarrow> links (h(z := v)) xs y = links h xs y"
proof -
  assume "z \<notin> set xs"
  then have "map (\<lambda>a. nextp ((h(z := v)) a)) xs = map (\<lambda>a. nextp (h a)) xs" by (intro map_cong) auto
  then show ?thesis by (simp only: links_def)
qed

lemma links_last: "z \<notin> set xs \<Longrightarrow> links (h(z := v)) (xs @ [z]) y \<longleftrightarrow> nextp v = y \<and> (xs = [] \<or> links h xs z)"
  by (cases "xs = []") (auto simp: links_append)

lemma scan_low:
  assumes "links h xs y" and "xs \<noteq> []" and "sorted_wrt (<) xs" and "\<forall>x \<in> set xs. x < b" and "b < y \<or> y \<le> last xs"
  shows "free_scan h b (hd xs) = Some (last xs)"
  using assms
proof (induction xs)
  case (Cons x xs)
  show ?case
  proof (cases xs)
    case Nil
    then show ?thesis using Cons.prems by (subst free_scan.simps) (auto simp: Let_def)
  next
    case (Cons z zs)
    then have "nextp (h x) = z" "x < z" "z < b" "x < b" using Cons.prems by (simp_all add: links_cons)
    then have "free_scan h b x = free_scan h b z" by (subst free_scan.simps) (auto simp: Let_def)
    then show ?thesis using Cons Cons.IH Cons.prems by (simp add: links_cons)
  qed
qed simp

lemma scan_high:
  assumes "links h xs y" and "xs \<noteq> []" and "sorted_wrt (<) xs" and "\<forall>x \<in> set xs. b < x" and "y < b"
  shows "free_scan h b (hd xs) = free_scan h b y"
  using assms
proof (induction xs)
  case (Cons x xs)
  show ?case
  proof (cases xs)
    case Nil
    then show ?thesis using Cons.prems by (subst free_scan.simps) (auto simp: Let_def)
  next
    case (Cons z zs)
    then have "nextp (h x) = z" "x < z" "b < x" using Cons.prems by (simp_all add: links_cons)
    then have "free_scan h b x = free_scan h b z" by (subst free_scan.simps) (auto simp: Let_def)
    then show ?thesis using Cons Cons.IH Cons.prems by (simp add: links_cons)
  qed
qed simp

text \<open>The scan of \<open>free\<close> ends from every header of the ring, at the last one below the block.\<close>

lemma scan_ring:
  assumes ring: "links h (as @ zs) base" and as: "as \<noteq> []" "hd as = base" and srt: "sorted_wrt (<) (as @ zs)"
    and lo: "\<forall>x \<in> set as. x < b" and hi: "\<forall>x \<in> set zs. b < x" and p: "p \<in> set (as @ zs)"
  shows "free_scan h b p = Some (last as)"
proof -
  have l: "links h as (if zs = [] then base else hd zs)" and z: "zs \<noteq> [] \<Longrightarrow> links h zs base"
    using ring as(1) by (cases "zs = []"; simp add: links_append)+
  have base: "base \<in> set as" "base < b" using as lo by (metis hd_in_set)+
  have last: "base \<le> last as" using srt as
    by (cases as) (auto simp: sorted_wrt_append less_imp_le)
  have low: "free_scan h b q = Some (last as)" if q: "q \<in> set as" for q
  proof -
    obtain xs ys where e: "as = xs @ q # ys" using q by (meson split_list)
    have "links h (q # ys) (if zs = [] then base else hd zs)" using l e by (cases "xs = []") (auto simp: links_append)
    moreover have "b < (if zs = [] then base else hd zs) \<or> (if zs = [] then base else hd zs) \<le> last (q # ys)"
      using hi last e by (cases zs) auto
    ultimately show ?thesis
      using scan_low[of h "q # ys" _ b] srt lo e by (auto simp: sorted_wrt_append)
  qed
  show ?thesis
  proof (cases "p \<in> set as")
    case False
    then obtain xs ys where e: "zs = xs @ p # ys" using p by (auto dest: split_list)
    have "links h (p # ys) base" using z e by (cases "xs = []") (auto simp: links_append)
    then have "free_scan h b p = free_scan h b base"
      using scan_high[of h "p # ys" base b] srt hi e base by (auto simp: sorted_wrt_append)
    then show ?thesis using low[OF base(1)] by simp
  qed (rule low)
qed

subsection \<open>Blocks\<close>

text \<open>A block is the address of its header and its size in headers, the header included.\<close>

type_synonym hblock = "u32 \<times> u32"

definition blk_end :: "hblock \<Rightarrow> nat" where
  "blk_end x = unat (fst x) + 8 * unat (snd x)"

definition bytes :: "hblock \<Rightarrow> nat set" where
  "bytes x = {unat (fst x) ..< blk_end x}"

definition cover :: "hblock list \<Rightarrow> nat set" where
  "cover F = (\<Union>x \<in> set F. bytes x)"

lemma cover_simps [simp]: "cover [] = {}" "cover (x # F) = bytes x \<union> cover F" "cover (F @ G) = cover F \<union> cover G"
  by (auto simp: cover_def)

lemma unat_blk_end: "blk_end (a, n) < 2 ^ 32 \<Longrightarrow> unat (a + 8 * n) = blk_end (a, n)"
proof -
  assume "blk_end (a, n) < 2 ^ 32"
  then have l: "unat a + 8 * unat n < 2 ^ 32" by (simp add: blk_end_def)
  then have "unat (8 * n) = 8 * unat n" by (subst unat_mult_lem[THEN iffD1]) simp_all
  then show ?thesis using l by (subst unat_add_lem[THEN iffD1]) (simp_all add: blk_end_def)
qed

lemma at_end_iff: "blk_end (a, n) < 2 ^ 32 \<Longrightarrow> a + 8 * n = q \<longleftrightarrow> blk_end (a, n) = unat q"
  using unat_blk_end[of a n] by (metis word_unat_eq_iff)

lemma bytes_join: "blk_end (a, n) = unat q \<Longrightarrow> unat (n + m) = unat n + unat m \<Longrightarrow> bytes (a, n + m) = bytes (a, n) \<union> bytes (q, m)"
  by (auto simp: bytes_def blk_end_def)

lemma blk_end_join: "blk_end (a, n) = unat q \<Longrightarrow> unat (n + m) = unat n + unat m \<Longrightarrow> blk_end (a, n + m) = blk_end (q, m)"
  by (simp add: blk_end_def)

lemma units_join: "blk_end (a, n) = unat q \<Longrightarrow> blk_end (q, m) < 2 ^ 32 \<Longrightarrow> unat (n + m) = unat n + unat m"
  by (intro unat_add_lem[THEN iffD1]) (simp add: blk_end_def)

text \<open>Putting a block back into a sorted list, between \<open>F\<close> and \<open>G\<close>, joined with its neighbours where they touch.\<close>

fun merge_next :: "hblock \<Rightarrow> hblock list \<Rightarrow> hblock list" where
  "merge_next (b, n) [] = [(b, n)]"
| "merge_next (b, n) ((q, m) # G) = (if b + 8 * n = q then (b, n + m) # G else (b, n) # (q, m) # G)"

definition merge :: "hblock list \<Rightarrow> hblock \<Rightarrow> hblock list \<Rightarrow> hblock list" where
  "merge F x G =
     (case merge_next x G of [] \<Rightarrow> F
      | (b, n) # G \<Rightarrow>
          if F \<noteq> [] \<and> fst (last F) + 8 * snd (last F) = b then butlast F @ (fst (last F), snd (last F) + n) # G
          else F @ (b, n) # G)"

text \<open>A free list: sorted, no two blocks touch, every block past \<open>lo\<close> and up to \<open>lim\<close>.\<close>

definition free_list :: "nat \<Rightarrow> nat \<Rightarrow> hblock list \<Rightarrow> bool" where
  "free_list lo lim F = (sorted_wrt (\<lambda>x y. blk_end x < unat (fst y)) F \<and>
     (\<forall>x \<in> set F. 0 < unat (snd x) \<and> lo \<le> unat (fst x) \<and> blk_end x \<le> lim))"

lemma free_list_append:
  "free_list lo lim (F @ G) \<longleftrightarrow> free_list lo lim F \<and> free_list lo lim G \<and> (\<forall>x \<in> set F. \<forall>y \<in> set G. blk_end x < unat (fst y))"
  by (auto simp: free_list_def sorted_wrt_append)

lemma free_list_cons:
  "free_list lo lim (x # G) \<longleftrightarrow> 0 < unat (snd x) \<and> lo \<le> unat (fst x) \<and> blk_end x \<le> lim \<and>
     (\<forall>y \<in> set G. blk_end x < unat (fst y)) \<and> free_list lo lim G"
  by (auto simp: free_list_def)

lemma no_touch: "free_list lo lim F \<Longrightarrow> \<forall>x \<in> set F. \<forall>y \<in> set F. blk_end x \<noteq> unat (fst y)"
proof (induction F)
  case (Cons z F)
  have "unat (fst z) < blk_end z" "\<forall>y \<in> set F. blk_end z < unat (fst y)" using Cons.prems by (auto simp: free_list_cons blk_end_def)
  moreover have "\<forall>y \<in> set F. unat (fst z) < blk_end y" using calculation by (fastforce simp: blk_end_def)
  ultimately show ?case using Cons by (force simp: free_list_cons)
qed simp

lemma merge_next_law:
  assumes G: "free_list lo lim G" and x: "0 < unat n" "lo \<le> unat b" "blk_end (b, n) \<le> lim" and lim: "lim < 2 ^ 32"
    and hi: "\<forall>y \<in> set G. blk_end (b, n) \<le> unat (fst y)"
  shows "\<exists>n' G'. merge_next (b, n) G = (b, n') # G' \<and> free_list lo lim ((b, n') # G') \<and> cover ((b, n') # G') = bytes (b, n) \<union> cover G \<and>
    unat n \<le> unat n'"
proof (cases G)
  case Nil
  then show ?thesis using x by (simp add: free_list_def)
next
  case (Cons y G')
  obtain q m where y: "y = (q, m)" by force
  have g: "blk_end (q, m) \<le> lim" "\<forall>z \<in> set G'. blk_end (q, m) < unat (fst z)" "free_list lo lim G'" "0 < unat m"
    using G Cons y by (auto simp: free_list_cons)
  have e: "b + 8 * n = q \<longleftrightarrow> blk_end (b, n) = unat q" using at_end_iff x(3) lim by force
  show ?thesis
  proof (cases "blk_end (b, n) = unat q")
    case True
    note u = units_join[OF True, of m]
    have u: "unat (n + m) = unat n + unat m" using u g(1) lim by simp
    show ?thesis
      using Cons y e True x g bytes_join[OF True u] blk_end_join[OF True u] u by (auto simp: free_list_cons)
  next
    case False
    have q: "blk_end (b, n) < unat q" using False hi Cons y by simp
    then have "\<forall>z \<in> set G'. blk_end (b, n) < unat (fst z)" using g(2) by (fastforce simp: blk_end_def)
    then have "free_list lo lim ((b, n) # G)" using Cons y x G q by (simp add: free_list_cons)
    moreover have "merge_next (b, n) G = (b, n) # G" using False e Cons y by simp
    ultimately show ?thesis by (intro exI[of _ n] exI[of _ G]) simp
  qed
qed

lemma merge_law:
  assumes F: "free_list lo lim F" and G: "free_list lo lim G" and x: "0 < unat n" "lo \<le> unat b" "blk_end (b, n) \<le> lim" and lim: "lim < 2 ^ 32"
    and low: "\<forall>y \<in> set F. blk_end y \<le> unat b" and hi: "\<forall>y \<in> set G. blk_end (b, n) \<le> unat (fst y)"
    and FG: "\<forall>x \<in> set F. \<forall>y \<in> set G. blk_end x < unat (fst y)"
  shows "free_list lo lim (merge F (b, n) G)" and "cover (merge F (b, n) G) = cover F \<union> bytes (b, n) \<union> cover G"
    and "\<exists>y \<in> set (merge F (b, n) G). unat n \<le> unat (snd y)"
proof -
  obtain n' G' where m: "merge_next (b, n) G = (b, n') # G'" "free_list lo lim ((b, n') # G')"
    "cover ((b, n') # G') = bytes (b, n) \<union> cover G" "unat n \<le> unat n'"
    using merge_next_law[OF G x lim hi] by blast
  have b: "0 < unat n'" "\<forall>y \<in> set G'. blk_end (b, n') < unat (fst y)" "free_list lo lim G'" "blk_end (b, n') \<le> lim"
    using m(2) by (auto simp: free_list_cons)
  have sorted: "\<forall>x \<in> set F. \<forall>y \<in> set G'. blk_end x < unat (fst y)"
    using low b(1,2) by (fastforce simp: blk_end_def)
  have "free_list lo lim (merge F (b, n) G) \<and> cover (merge F (b, n) G) = cover F \<union> bytes (b, n) \<union> cover G \<and>
    (\<exists>y \<in> set (merge F (b, n) G). unat n \<le> unat (snd y))"
  proof (cases "F \<noteq> [] \<and> fst (last F) + 8 * snd (last F) = b")
    case True
    then obtain F' p k where f: "F = F' @ [(p, k)]" by (metis append_butlast_last_id surj_pair)
    have k: "blk_end (p, k) \<le> lim" "0 < unat k" "lo \<le> unat p" "free_list lo lim F'" "\<forall>x \<in> set F'. blk_end x < unat p"
      using F f by (auto simp: free_list_append free_list_cons)
    have e: "blk_end (p, k) = unat b" using True f k(1) lim at_end_iff[of p k b] by simp
    have u: "unat (k + n') = unat k + unat n'" using units_join[OF e] b(4) lim by simp
    have "merge F (b, n) G = F' @ (p, k + n') # G'" using True f m(1) by (simp add: merge_def)
    moreover have "free_list lo lim (F' @ (p, k + n') # G')"
      using k b sorted f blk_end_join[OF e u] u by (auto simp: free_list_append free_list_cons)
    moreover have "cover (F' @ (p, k + n') # G') = cover F \<union> bytes (b, n) \<union> cover G"
      using m(3) f bytes_join[OF e u] by auto
    ultimately show ?thesis using u m(4) by auto
  next
    case False
    then have mg: "merge F (b, n) G = F @ (b, n') # G'" using m(1) by (auto simp: merge_def)
    have "blk_end y < unat b" if y: "y \<in> set F" for y
    proof -
      obtain F' z where f: "F = F' @ [z]" using y by (cases F rule: rev_cases) auto
      have z: "blk_end z \<le> lim" "\<forall>x \<in> set F'. blk_end x < unat (fst z)" using F f by (auto simp: free_list_append free_list_cons)
      have "blk_end z \<noteq> unat b" using False f at_end_iff[of "fst z" "snd z" b] z(1) lim by simp
      then have "blk_end z < unat b" using low f by (simp add: le_neq_implies_less)
      then show ?thesis using y f z(2) by (fastforce simp: blk_end_def)
    qed
    then have "free_list lo lim (F @ (b, n') # G')" using F m(2) sorted by (auto simp: free_list_append free_list_cons)
    then show ?thesis using mg m(3,4) by auto
  qed
  then show "free_list lo lim (merge F (b, n) G)" and "cover (merge F (b, n) G) = cover F \<union> bytes (b, n) \<union> cover G"
    and "\<exists>y \<in> set (merge F (b, n) G). unat n \<le> unat (snd y)" by blast+
qed

subsection \<open>Freeing a block\<close>

lemma header_next: "h\<lparr>nextp := q\<rparr> = \<lparr>nextp = q, units = units (h :: header)\<rparr>"
  by simp

lemma header_units: "h\<lparr>units := n\<rparr> = \<lparr>nextp = nextp h, units = n :: u32\<rparr>"
  by (cases h) simp

lemma links_hd: "links h (b # gs) y \<longleftrightarrow> nextp (h b) = hd (gs @ [y]) \<and> (gs = [] \<or> links h gs y)"
  by (cases gs) (auto simp: links_cons)

lemma links_suffix: "links h (xs @ zs) y \<Longrightarrow> xs \<noteq> [] \<Longrightarrow> links h xs (hd (zs @ [y])) \<and> (zs = [] \<or> links h zs y)"
  by (cases "zs = []") (auto simp: links_append)

text \<open>The first half of \<open>free\<close>: the block takes over its successor, or points to it.\<close>

definition with_next :: "u32 \<Rightarrow> u32 \<Rightarrow> 'k ust \<Rightarrow> 'k ust" where
  "with_next b q s =
     (if b + 8 * units (heads s b) = q
      then set_next b (nextp (heads s q)) (set_units b (units (heads s b) + units (heads s q)) s)
      else set_next b q s)"

definition with_prev :: "u32 \<Rightarrow> u32 \<Rightarrow> 'k ust \<Rightarrow> 'k ust" where
  "with_prev b p s =
     (if p + 8 * units (heads s p) = b
      then set_next p (nextp (heads s b)) (set_units p (units (heads s p) + units (heads s b)) s)
      else set_next p b s)"

lemma free_link_halves: "free_link b p s = (with_prev b p (with_next b (nextp (heads s p)) s))\<lparr>freep := p\<rparr>"
  by (simp add: free_link_def with_next_def with_prev_def Let_def)

lemma with_next_run:
  assumes G: "G = [] \<or> links (heads s) (map fst G) base" "\<forall>x \<in> set G. units (heads s (fst x)) = snd x"
    and q: "q = hd (map fst G @ [base])" and n: "units (heads s b) = n" and base: "unat base < unat b" "blk_end (b, n) < 2 ^ 32"
    and m: "merge_next (b, n) G = (b, n') # G'"
  shows "with_next b q s = s\<lparr>heads := (heads s)(b := \<lparr>nextp = hd (map fst G' @ [base]), units = n'\<rparr>)\<rparr>"
    and "G' = [] \<or> links (heads s) (map fst G') base" and "set G' \<subseteq> set G"
proof -
  have "with_next b q s = s\<lparr>heads := (heads s)(b := \<lparr>nextp = hd (map fst G' @ [base]), units = n'\<rparr>)\<rparr> \<and>
    (G' = [] \<or> links (heads s) (map fst G') base) \<and> set G' \<subseteq> set G"
  proof (cases G)
    case Nil
    have "unat base < blk_end (b, n)" using base(1) by (simp add: blk_end_def)
    then have "b + 8 * n \<noteq> base" using at_end_iff[OF base(2)] by simp
    then show ?thesis using Nil q n m by (simp add: with_next_def set_next_def header_next)
  next
    case (Cons y G2)
    obtain k where y: "y = (q, k)" using q Cons by (cases y) simp
    have u: "units (heads s q) = k" using G(2) Cons y by simp
    have l: "nextp (heads s q) = hd (map fst G2 @ [base])" "G2 = [] \<or> links (heads s) (map fst G2) base"
      using G(1) Cons y by (auto simp: links_hd)
    show ?thesis
    proof (cases "b + 8 * n = q")
      case True
      then show ?thesis using l u n m Cons y by (auto simp: with_next_def set_next_def set_units_def header_next header_units)
    next
      case False
      then show ?thesis using l u n m Cons y G(1) by (auto simp: with_next_def set_next_def header_next)
    qed
  qed
  then show "with_next b q s = s\<lparr>heads := (heads s)(b := \<lparr>nextp = hd (map fst G' @ [base]), units = n'\<rparr>)\<rparr>"
    and "G' = [] \<or> links (heads s) (map fst G') base" and "set G' \<subseteq> set G" by blast+
qed

lemma free_link_run:
  assumes ring: "links (heads s) (base # map fst (F @ G)) base" and dist: "distinct (base # map fst F @ b # map fst G)"
    and un: "\<forall>x \<in> set (F @ G). units (heads s (fst x)) = snd x" "units (heads s base) = 0" "units (heads s b) = n"
    and b: "unat base < unat b" "blk_end (b, n) < 2 ^ 32" and p: "p = last (base # map fst F)"
  shows "\<exists>h. free_link b p s = s\<lparr>heads := h, freep := p\<rparr> \<and> links h (base # map fst (merge F (b, n) G)) base \<and>
    (\<forall>x \<in> set (merge F (b, n) G). units (h (fst x)) = snd x) \<and> units (h base) = 0 \<and>
    (\<forall>a. a \<noteq> b \<and> a \<noteq> p \<longrightarrow> h a = heads s a) \<and> p \<in> set (base # map fst (merge F (b, n) G))"
proof -
  let ?h = "heads s" and ?as = "base # map fst F"
  obtain n' G' where m: "merge_next (b, n) G = (b, n') # G'" by (cases "((b, n), G)" rule: merge_next.cases; cases "b + 8 * n = fst (hd G)") auto
  have s: "links ?h ?as (hd (map fst G @ [base]))" "G = [] \<or> links ?h (map fst G) base"
    using links_suffix[of ?h ?as "map fst G" base] ring by auto
  obtain xs where xs: "?as = xs @ [p]" using p by (metis append_butlast_last_id list.distinct(1))
  have d: "distinct ((xs @ [p]) @ b # map fst G)" using dist unfolding xs[symmetric] by simp
  have px: "p \<notin> set xs" "b \<notin> set xs" "p \<noteq> b" "p \<notin> set (map fst G)" "b \<notin> set (map fst G)"
    using d by auto
  have q: "nextp (?h p) = hd (map fst G @ [base])" using s(1) unfolding xs by (cases "xs = []") (simp_all add: links_append)
  have G: "\<forall>x \<in> set G. units (heads s (fst x)) = snd x" using un(1) by simp
  note N = with_next_run[OF s(2) G refl un(3) b m]
  let ?h1 = "?h(b := \<lparr>nextp = hd (map fst G' @ [base]), units = n'\<rparr>)"
  let ?s1 = "s\<lparr>heads := ?h1\<rparr>"
  have gp: "p \<notin> set (map fst G')" "b \<notin> set (map fst G')" using px N(3) by auto
  have l1: "links ?h1 (b # map fst G') base" using N(2) gp by (simp add: links_hd)
  have pre: "links ?h xs p \<or> xs = []" using s(1) unfolding xs by (cases "xs = []") (simp_all add: links_append)
  have up: "units (?h1 p) = units (?h p)" using px by simp
  have mg: "merge F (b, n) G =
      (if p + 8 * units (?h p) = b then butlast F @ (p, units (?h p) + n') # G' else F @ (b, n') # G')"
  proof (cases F rule: rev_cases)
    case Nil
    then have "p + 8 * units (?h p) \<noteq> b" using un(2) px(3) p by simp
    then show ?thesis using Nil m by (simp add: merge_def)
  next
    case (snoc F' x)
    then have "fst x = p" "snd x = units (?h p)" using p un(1) by auto
    then show ?thesis using snoc m by (simp add: merge_def)
  qed
  have o: "units (?h (fst x)) = snd x" "fst x \<noteq> b" if "x \<in> set F \<union> set G'" for x
    using that un(1) N(3) px(5) dist gp(2) by auto
  have base': "base \<noteq> b" "base \<notin> set (map fst F)" using dist by auto
  show ?thesis
  proof (cases "p + 8 * units (?h p) = b")
    case True
    let ?h2 = "?h1(p := \<lparr>nextp = hd (map fst G' @ [base]), units = units (?h p) + n'\<rparr>)"
    have run: "free_link b p s = s\<lparr>heads := ?h2, freep := p\<rparr>"
      unfolding free_link_halves q N(1) using True px(3) by (simp add: with_prev_def set_next_def set_units_def header_next header_units)
    have "links ?h2 (xs @ p # map fst G') base"
      using pre px gp l1 by (cases "xs = []") (auto simp: links_append links_hd)
    moreover obtain F' where f: "F = F' @ [(p, units (?h p))]" "xs = base # map fst F'"
      using True un(1,2) px(3) p xs by (cases F rule: rev_cases) auto
    moreover have "\<forall>x \<in> set F' \<union> set G'. fst x \<noteq> p" using px(1) gp(1) f(2) by auto
    ultimately show ?thesis
      using run True mg o base' un(2) by (intro exI[of _ ?h2]) auto
  next
    case False
    let ?h2 = "?h1(p := \<lparr>nextp = b, units = units (?h p)\<rparr>)"
    have run: "free_link b p s = s\<lparr>heads := ?h2, freep := p\<rparr>"
      unfolding free_link_halves q N(1) using False px(3) by (simp add: with_prev_def set_next_def header_next)
    have "links ?h2 ((xs @ [p]) @ b # map fst G') base"
      using pre px gp l1 by (subst links_append) (auto simp: links_last links_hd)
    moreover have "p \<in> set (base # map fst F)" using p by (metis last_in_set list.distinct(1))
    ultimately show ?thesis
      using run False mg o base' un(2) gp(1) xs[symmetric] by (intro exI[of _ ?h2]) auto
  qed
qed

subsection \<open>The heap\<close>

text \<open>A heap up to the address \<open>lim\<close> with the free blocks \<open>F\<close> and the blocks \<open>U\<close> in use.\<close>

definition heap_wf :: "nat \<Rightarrow> 'k ust \<Rightarrow> hblock list \<Rightarrow> hblock set \<Rightarrow> bool" where
  "heap_wf lim s F U =
     (base_at s \<noteq> 0 \<and> lim < 2 ^ 31 \<and> links (heads s) (base_at s # map fst F) (base_at s) \<and> units (heads s (base_at s)) = 0 \<and>
      freep s \<in> set (base_at s # map fst F) \<and> free_list (unat (base_at s) + 8) lim F \<and>
      (\<forall>x \<in> set F \<union> U. units (heads s (fst x)) = snd x) \<and>
      (\<forall>x \<in> U. 0 < unat (snd x) \<and> unat (base_at s) + 8 \<le> unat (fst x) \<and> blk_end x \<le> lim \<and> bytes x \<inter> cover F = {}) \<and>
      (\<forall>x \<in> U. \<forall>y \<in> U. x \<noteq> y \<longrightarrow> bytes x \<inter> bytes y = {}))"

lemma bytes_start: "0 < unat (snd x) \<Longrightarrow> unat (fst x) \<in> bytes x"
  by (simp add: bytes_def blk_end_def)

lemma start_in_cover: "free_list lo lim F \<Longrightarrow> x \<in> set F \<Longrightarrow> unat (fst x) \<in> cover F"
  using bytes_start[of x] by (auto simp: free_list_def cover_def)

lemma free_list_starts:
  assumes "free_list (unat base + 8) lim F"
  shows "sorted_wrt (<) (base # map fst F)"
proof -
  have "sorted_wrt (\<lambda>x y. fst x < fst y) F"
    by (rule sorted_wrt_mono_rel[of _ "\<lambda>x y. blk_end x < unat (fst y)"])
       (use assms in \<open>auto simp: free_list_def blk_end_def word_less_nat_alt\<close>)
  moreover have "\<forall>x \<in> set F. base < fst x" using assms by (fastforce simp: free_list_def word_less_nat_alt)
  ultimately show ?thesis by (simp add: sorted_wrt_map)
qed

lemma split_free:
  assumes "free_list lo lim F"
  shows "\<exists>F1 F2. F = F1 @ F2 \<and> (\<forall>y \<in> set F1. unat (fst y) < k) \<and> (\<forall>y \<in> set F2. k \<le> unat (fst y))"
  using assms
proof (induction F)
  case (Cons x F)
  show ?case
  proof (cases "unat (fst x) < k")
    case True
    then obtain F1 F2 where "F = F1 @ F2" "\<forall>y \<in> set F1. unat (fst y) < k" "\<forall>y \<in> set F2. k \<le> unat (fst y)"
      using Cons by (auto simp: free_list_cons)
    then show ?thesis using True by (intro exI[of _ "x # F1"] exI[of _ F2]) simp
  next
    case False
    then have "\<forall>y \<in> set F. k \<le> unat (fst y)" using Cons.prems by (fastforce simp: free_list_cons blk_end_def)
    then show ?thesis using False by (intro exI[of _ "[]"] exI[of _ "x # F"]) auto
  qed
qed simp

lemma disjoint_below: "bytes x \<inter> bytes y = {} \<Longrightarrow> 0 < unat (snd y) \<Longrightarrow> unat (fst x) < unat (fst y) \<Longrightarrow> blk_end x \<le> unat (fst y)"
  using bytes_start[of y] by (fastforce simp: bytes_def)

lemma ufree_run:
  assumes wf: "heap_wf lim s F U" and x: "units (heads s b) = n" "0 < unat n" "unat (base_at s) + 8 \<le> unat b" "blk_end (b, n) \<le> lim"
    and dF: "bytes (b, n) \<inter> cover F = {}" and dU: "\<forall>y \<in> U. bytes y \<inter> bytes (b, n) = {}"
  shows "\<exists>t F'. ufree (b + 8) s = Some t \<and> heap_wf lim t F' U \<and> cover F' = cover F \<union> bytes (b, n) \<and> kern t = kern s \<and>
    base_at t = base_at s \<and> (\<exists>y \<in> set F'. unat n \<le> unat (snd y))"
proof -
  let ?base = "base_at s" and ?h = "heads s"
  note W = wf[unfolded heap_wf_def]
  have fl: "free_list (unat ?base + 8) lim F" and lim: "lim < 2 ^ 32" using W by simp_all
  obtain F1 F2 where F: "F = F1 @ F2" and lo: "\<forall>y \<in> set F1. unat (fst y) < unat b" and hi: "\<forall>y \<in> set F2. unat b \<le> unat (fst y)"
    using split_free[OF fl, of "unat b"] by blast
  have pos: "0 < unat (snd y)" if "y \<in> set F" for y using fl that by (simp add: free_list_def)
  have dj: "bytes (b, n) \<inter> bytes y = {}" if "y \<in> set F" for y using dF that by (auto simp: cover_def)
  have low: "\<forall>y \<in> set F1. blk_end y \<le> unat b"
    using lo dj x(2) F by (auto intro!: disjoint_below[of _ "(b, n)", simplified] simp: Int_commute)
  have "fst y \<noteq> b" if "y \<in> set F" for y
    using bytes_start[of "(b, n)"] bytes_start[OF pos[OF that]] dj[OF that] x(2) by auto
  then have hi': "\<forall>y \<in> set F2. unat b < unat (fst y)" and nb: "b \<notin> set (map fst F)" using hi F by (fastforce simp: word_unat_eq_iff)+
  have high: "\<forall>y \<in> set F2. blk_end (b, n) \<le> unat (fst y)"
  proof
    fix y assume y: "y \<in> set F2"
    then show "blk_end (b, n) \<le> unat (fst y)" using hi' F by (intro disjoint_below dj pos) auto
  qed
  have srt: "sorted_wrt (<) ((?base # map fst F1) @ map fst F2)" using free_list_starts[OF fl] F by simp
  have bb: "?base < b" "unat ?base < unat b" using x(3) by (simp_all add: word_less_nat_alt)
  let ?p = "last (?base # map fst F1)"
  have scan: "free_scan ?h b (freep s) = Some ?p"
    by (rule scan_ring[OF _ _ _ srt])
       (use W F bb lo hi' in \<open>auto simp: word_less_nat_alt\<close>)
  have dist: "distinct (?base # map fst F1 @ b # map fst F2)"
    using srt nb F bb by (auto simp: strict_sorted_iff)
  obtain h where h: "free_link b ?p s = s\<lparr>heads := h, freep := ?p\<rparr>" "links h (?base # map fst (merge F1 (b, n) F2)) ?base"
    "\<forall>x \<in> set (merge F1 (b, n) F2). units (h (fst x)) = snd x" "units (h ?base) = 0" "\<forall>a. a \<noteq> b \<and> a \<noteq> ?p \<longrightarrow> h a = ?h a"
    "?p \<in> set (?base # map fst (merge F1 (b, n) F2))"
    using free_link_run[OF _ dist _ _ x(1) bb(2) _ refl] W F x(4) lim by auto
  let ?F = "merge F1 (b, n) F2" and ?t = "s\<lparr>heads := h, freep := ?p\<rparr>"
  have M: "free_list (unat ?base + 8) lim ?F" "cover ?F = cover F \<union> bytes (b, n)" "\<exists>y \<in> set ?F. unat n \<le> unat (snd y)"
    using merge_law[OF _ _ x(2) x(3) x(4) lim low high] fl F by (auto simp: free_list_append)
  have keep: "h (fst y) = ?h (fst y)" if y: "y \<in> U" for y
  proof -
    have "unat (fst y) \<in> bytes y" "unat ?base + 8 \<le> unat (fst y)" "bytes y \<inter> cover F = {}" using W y by (auto intro: bytes_start)
    moreover have "unat b \<in> bytes (b, n)" using bytes_start[of "(b, n)"] x(2) by simp
    moreover have "?p = ?base \<or> unat ?p \<in> cover F"
      using start_in_cover[OF fl, of "last F1"] F by (cases "F1 = []") (simp_all add: last_map)
    ultimately show ?thesis using dU y h(5) by fastforce
  qed
  have U: "\<forall>y \<in> U. units (h (fst y)) = snd y" "\<forall>y \<in> U. bytes y \<inter> cover ?F = {}"
    using W keep dU M(2) by (simp_all add: Int_Un_distrib)
  have E: "base_at ?t = ?base" "heads ?t = h" "freep ?t = ?p" by simp_all
  have "heap_wf lim ?t ?F U"
    unfolding heap_wf_def E
  proof (intro conjI)
    show "\<forall>x \<in> set ?F \<union> U. units (h (fst x)) = snd x" using h(3) U(1) by blast
  qed (use W h(2,4,6) M(1) U(2) in simp_all)
  then show ?thesis using scan h(1) M by (intro exI[of _ ?t] exI[of _ ?F]) (simp add: ufree_def)
qed

subsection \<open>Taking a block\<close>

lemma next_unique:
  assumes "links h xs y" and "distinct (tl xs @ [y])" and "a \<in> set xs" and "b \<in> set xs" and "nextp (h a) = nextp (h b)"
  shows "a = b"
proof -
  have "distinct (map (\<lambda>a. nextp (h a)) xs)" using assms(1,2) by (simp add: links_def)
  then show ?thesis using assms(3-5) by (auto simp: distinct_map inj_on_def)
qed

lemma links_cong: "(\<And>a. nextp (h a) = nextp (g a)) \<Longrightarrow> links h xs y = links g xs y"
  by (simp add: links_def)

lemma blocks_apart: "bytes x \<inter> bytes y = {} \<Longrightarrow> 0 < unat (snd x) \<Longrightarrow> 0 < unat (snd y) \<Longrightarrow> fst x \<noteq> fst y"
  using bytes_start[of x] bytes_start[of y] by auto

lemma free_apart: "free_list lo lim (F @ x # G) \<Longrightarrow> bytes x \<inter> cover (F @ G) = {}"
  by (fastforce simp: free_list_append free_list_cons bytes_def cover_def)

lemma heap_wf_list: "heap_wf lim s F U \<Longrightarrow> free_list (unat (base_at s) + 8) lim F"
  by (simp add: heap_wf_def)

lemma heap_wfD:
  assumes "heap_wf lim s F U"
  shows "x \<in> set F \<Longrightarrow> units (heads s (fst x)) = snd x" "x \<in> U \<Longrightarrow> units (heads s (fst x)) = snd x"
    "x \<in> U \<Longrightarrow> 0 < unat (snd x)" "x \<in> U \<Longrightarrow> bytes x \<inter> cover F = {}" "x \<in> U \<Longrightarrow> unat (base_at s) + 8 \<le> unat (fst x)"
  using assms by (auto simp: heap_wf_def)

lemma last_prefix: "last (b # map fst F) \<in> set (b # map fst (F @ G))"
  by (cases F rule: rev_cases) auto

text \<open>The block found is one of the free ones, and its predecessor is the one before it in the list.\<close>

lemma found_block:
  assumes wf: "heap_wf lim s F U" and prev: "prevp \<in> set (base_at s # map fst F)" "nextp (heads s prevp) = p"
    and big: "0 < unat (units (heads s p))"
  shows "\<exists>F1 F2. F = F1 @ (p, units (heads s p)) # F2 \<and> prevp = last (base_at s # map fst F1)"
proof -
  let ?base = "base_at s" and ?h = "heads s"
  note W = wf[unfolded heap_wf_def]
  have ring: "links ?h (?base # map fst F) ?base" using W by simp
  have "nextp (?h prevp) \<in> set (map (\<lambda>a. nextp (?h a)) (?base # map fst F))"
    using prev(1) by (simp only: set_map) (rule imageI)
  then have "p \<in> set (map fst F @ [?base])" using ring prev(2) by (simp only: links_def list.sel)
  then have "p \<in> fst ` set F" using W big by auto
  then obtain x where x: "x \<in> set F" "fst x = p" by blast
  then obtain F1 F2 where F: "F = F1 @ x # F2" by (meson split_list)
  have "units (?h (fst x)) = snd x" using W x(1) by blast
  then have xs: "x = (p, units (?h p))" using x(2) by (cases x) simp
  have "sorted_wrt (<) (?base # map fst F)" by (rule free_list_starts[OF heap_wf_list[OF wf]])
  then have d: "distinct (tl (?base # map fst F) @ [?base])" by (auto simp: strict_sorted_iff)
  have "links ?h ((?base # map fst F1) @ p # map fst F2) ?base" using ring F x by simp
  then have "links ?h (?base # map fst F1) p" by (subst (asm) links_append) auto
  then have "nextp (?h (last (?base # map fst F1))) = p"
    by (cases "map fst F1" rule: rev_cases) (auto simp: links_last links_append append_Cons[symmetric] simp del: append_Cons)
  then have "prevp = last (?base # map fst F1)"
    using next_unique[OF ring d prev(1)] prev(2) F last_prefix[of ?base F1 "x # F2"] by simp
  then show ?thesis using F xs by blast
qed

lemma take_exact:
  assumes wf: "heap_wf lim s F U" and F: "F = F1 @ (p, n) # F2" and prev: "prevp = last (base_at s # map fst F1)"
  shows "heap_wf lim ((set_next prevp (nextp (heads s p)) s)\<lparr>freep := prevp\<rparr>) (F1 @ F2) (insert (p, n) U) \<and> (p, n) \<notin> U"
proof -
  let ?base = "base_at s" and ?h = "heads s" and ?t = "(set_next prevp (nextp (heads s p)) s)\<lparr>freep := prevp\<rparr>"
  let ?g = "?h(prevp := (?h prevp)\<lparr>nextp := nextp (?h p)\<rparr>)"
  note W = wf[unfolded heap_wf_def]
  have srt: "sorted_wrt (<) (?base # map fst F)" by (rule free_list_starts[OF heap_wf_list[OF wf]])
  obtain xs where xs: "?base # map fst F1 = xs @ [prevp]" using prev by (metis append_butlast_last_id list.distinct(1))
  have d: "distinct ((xs @ [prevp]) @ p # map fst F2)" using srt F unfolding xs[symmetric] by (auto simp: strict_sorted_iff)
  have "links ?h ((xs @ [prevp]) @ p # map fst F2) ?base" using W F unfolding xs[symmetric] by simp
  then have l: "links ?h (xs @ [prevp]) p" "links ?h (p # map fst F2) ?base" by (simp_all add: links_append del: append_assoc)
  have "links ?g ((xs @ [prevp]) @ map fst F2) ?base"
    using l d by (cases "F2 = []"; cases "xs = []") (auto simp: links_append links_hd simp del: append_assoc)
  then have ring: "links ?g (?base # map fst (F1 @ F2)) ?base" unfolding xs[symmetric] by simp
  have un: "units (?g a) = units (?h a)" for a by simp
  have E: "base_at ?t = ?base" "heads ?t = ?g" "freep ?t = prevp" by (simp_all add: set_next_def)
  have fr: "prevp \<in> set (?base # map fst (F1 @ F2))" unfolding prev by (rule last_prefix)
  have fl: "free_list (unat ?base + 8) lim (F1 @ F2)" using W F by (auto simp: free_list_append free_list_cons)
  have x: "(p, n) \<in> set F" "0 < unat n" using W F by (auto simp: free_list_append free_list_cons)
  have apart: "bytes (p, n) \<inter> cover (F1 @ F2) = {}"
    by (rule free_apart[OF heap_wf_list[OF wf, unfolded F]])
  have nU: "(p, n) \<notin> U" using W x bytes_start[of "(p, n)"] by (auto simp: cover_def)
  have "\<forall>y \<in> U. bytes y \<inter> bytes (p, n) = {}" using W x by (auto simp: cover_def)
  moreover have "cover (F1 @ F2) \<subseteq> cover F" using F by auto
  then have "\<forall>y \<in> U. bytes y \<inter> cover (F1 @ F2) = {}" using heap_wfD(4)[OF wf] by blast
  moreover have "unat ?base + 8 \<le> unat p" "blk_end (p, n) \<le> lim" using W x by (auto simp: free_list_def)
  ultimately have "heap_wf lim ?t (F1 @ F2) (insert (p, n) U)"
    unfolding heap_wf_def E un using W F ring fr fl x apart by auto
  then show ?thesis using nU by blast
qed

lemma take_split:
  assumes wf: "heap_wf lim s F U" and F: "F = F1 @ (p, m) # F2" and n: "0 < unat n" "unat n < unat m"
    and prev: "prevp \<in> set (base_at s # map fst F)"
  defines "b \<equiv> p + 8 * (m - n)"
  shows "heap_wf lim ((set_units b n (set_units p (m - n) s))\<lparr>freep := prevp\<rparr>) (F1 @ (p, m - n) # F2) (insert (b, n) U) \<and> (b, n) \<notin> U"
proof -
  let ?base = "base_at s" and ?h = "heads s" and ?t = "(set_units b n (set_units p (m - n) s))\<lparr>freep := prevp\<rparr>"
  let ?g = "heads (set_units b n (set_units p (m - n) s))" and ?F = "F1 @ (p, m - n) # F2"
  note W = wf[unfolded heap_wf_def] and fl = heap_wf_list[OF wf, unfolded F]
  have fm: "unat ?base + 8 \<le> unat p" "blk_end (p, m) \<le> lim" "\<forall>y \<in> set F1. blk_end y < unat p" "\<forall>y \<in> set F2. blk_end (p, m) < unat (fst y)"
    "lim < 2 ^ 32" using fl W by (auto simp: free_list_append free_list_cons)
  have u: "unat (m - n) = unat m - unat n" using n(2) by (simp add: unat_sub word_le_nat_alt)
  have e: "unat b = blk_end (p, m - n)" unfolding b_def by (rule unat_blk_end) (use fm(2,5) u in \<open>simp add: blk_end_def\<close>)
  have eb: "blk_end (b, n) = blk_end (p, m)" using e u n(2) by (simp add: blk_end_def)
  have le: "blk_end (p, m - n) \<le> blk_end (p, m)" using u by (simp add: blk_end_def)
  have by_: "bytes (b, n) \<subseteq> bytes (p, m)" "bytes (p, m - n) \<subseteq> bytes (p, m)" "bytes (b, n) \<inter> bytes (p, m - n) = {}"
    using e eb le u by (auto simp: bytes_def blk_end_def)
  have pb: "p \<noteq> b" using e u n by (auto simp: blk_end_def)
  have fl': "free_list (unat ?base + 8) lim ?F"
    using fl u n le by (auto simp: free_list_append free_list_cons)
  have nx: "nextp (?g a) = nextp (?h a)" for a by (simp add: set_units_def)
  have "links ?h (?base # map fst ?F) ?base" using W F by simp
  then have ring: "links ?g (?base # map fst ?F) ?base" by (simp only: links_cong[of ?g ?h, OF nx])
  have un: "units (?g a) = (if a = b then n else if a = p then m - n else units (?h a))" for a by (simp add: set_units_def)
  have E: "base_at ?t = ?base" "heads ?t = ?g" "freep ?t = prevp" by (simp_all add: set_units_def)
  have bc: "unat b \<in> bytes (p, m)" using by_(1) bytes_start[of "(b, n)"] n by auto
  have lt: "unat p < unat b" "unat b < blk_end (p, m)" "unat ?base < unat p" using fm(1) e eb u n by (simp_all add: blk_end_def)
  have apart: "fst y \<noteq> b \<and> fst y \<noteq> p" if y: "y \<in> set (F1 @ F2)" for y
  proof (cases "y \<in> set F1")
    case True
    then have "unat (fst y) < unat p" using fm(3) by (force simp: blk_end_def)
    then show ?thesis using lt by auto
  next
    case False
    then have "blk_end (p, m) < unat (fst y)" using fm(4) y by simp
    then show ?thesis using lt by auto
  qed
  have "?base \<noteq> b" "?base \<noteq> p" using lt by auto
  then have ub: "units (?g ?base) = 0" using W by (simp add: un)
  have "units (?g (fst y)) = snd y" if y: "y \<in> set (F1 @ F2)" for y
    using heap_wfD(1)[OF wf, of y] apart[OF y] y F by (auto simp: un)
  then have uF: "\<forall>y \<in> set ?F. units (?g (fst y)) = snd y" using pb by (auto simp: un)
  have away: "fst y \<noteq> b \<and> fst y \<noteq> p \<and> bytes y \<inter> bytes (p, m) = {}" if y: "y \<in> U" for y
  proof -
    have "bytes y \<inter> bytes (p, m) = {}" using heap_wfD(4)[OF wf y] F by auto
    then show ?thesis using bytes_start[OF heap_wfD(3)[OF wf y]] bytes_start[of "(p, m)"] bc n by auto
  qed
  have uU: "\<forall>y \<in> U. units (?g (fst y)) = snd y" using away heap_wfD(2)[OF wf] by (simp add: un)
  have cov: "cover ?F \<subseteq> cover F" using by_ F by auto
  have dis: "bytes (b, n) \<inter> cover ?F = {}"
  proof -
    have "bytes (b, n) \<inter> cover (F1 @ F2) = {}" using free_apart[OF fl] by_(1) by blast
    then show ?thesis using by_(3) by auto
  qed
  have "heap_wf lim ?t ?F (insert (b, n) U)"
    unfolding heap_wf_def E
  proof (intro conjI)
    show "prevp \<in> set (?base # map fst ?F)" using prev F by simp
    show "\<forall>x \<in> set ?F \<union> insert (b, n) U. units (?g (fst x)) = snd x" using uF uU un[of b] by (metis Un_iff fst_conv insert_iff snd_conv)
    show "\<forall>x \<in> insert (b, n) U. 0 < unat (snd x) \<and> unat ?base + 8 \<le> unat (fst x) \<and> blk_end x \<le> lim \<and> bytes x \<inter> cover ?F = {}"
    proof -
      have "\<forall>y \<in> U. bytes y \<inter> cover ?F = {}" using heap_wfD(4)[OF wf] cov by blast
      moreover have "unat ?base + 8 \<le> unat b" "blk_end (b, n) \<le> lim" using lt fm(1,2) eb by simp_all
      ultimately show ?thesis using W n dis by simp
    qed
    show "\<forall>x \<in> insert (b, n) U. \<forall>y \<in> insert (b, n) U. x \<noteq> y \<longrightarrow> bytes x \<inter> bytes y = {}"
    proof -
      have "\<forall>x \<in> U. bytes x \<inter> bytes (b, n) = {}" using away by_(1) by blast
      then show ?thesis using W by (simp add: Int_commute)
    qed
  qed (use W ring ub fl' in simp_all)
  moreover have "(b, n) \<notin> U" using away by fastforce
  ultimately show ?thesis by blast
qed

text \<open>What \<open>take_block\<close> leaves: the block that ends up in use, and a heap with it.\<close>

definition took :: "nat \<Rightarrow> 'k ust \<Rightarrow> hblock set \<Rightarrow> u32 \<Rightarrow> u32 \<Rightarrow> 'k ust \<Rightarrow> bool" where
  "took lim s U n r t = (r \<noteq> 0 \<and> (r - 8, n) \<notin> U \<and> (\<exists>F. heap_wf lim t F (insert (r - 8, n) U)) \<and> kern t = kern s \<and> base_at t = base_at s \<and> freep t \<noteq> 0)"

lemma freep_nonnull: "heap_wf lim s F U \<Longrightarrow> freep s \<noteq> 0"
  by (fastforce simp: heap_wf_def free_list_def)

lemma took_block:
  assumes "heap_wf lim t F (insert (b, n) U)" and "(b, n) \<notin> U" and "kern t = kern s" and "base_at t = base_at s"
  shows "took lim s U n (b + 8) t"
proof -
  have "unat b + 8 \<le> lim" "lim < 2 ^ 32" using assms(1) by (auto simp: heap_wf_def blk_end_def)
  then have "unat (b + 8) = unat b + 8" by (subst unat_add_lem[THEN iffD1]) simp_all
  then have "b + 8 \<noteq> 0" by (metis add_is_0 unat_0 zero_neq_numeral)
  then show ?thesis using assms freep_nonnull[OF assms(1)] by (auto simp: took_def)
qed

lemma take_block_run:
  assumes wf: "heap_wf lim s F U" and prev: "prevp \<in> set (base_at s # map fst F)" "nextp (heads s prevp) = p"
    and n: "0 < unat n" "n \<le> units (heads s p)"
  shows "\<exists>r t. take_block n prevp p s = (r, t) \<and> took lim s U n r t"
proof -
  let ?m = "units (heads s p)"
  have le: "unat n \<le> unat ?m" using n(2) by (simp add: word_le_nat_alt)
  obtain F1 F2 where F: "F = F1 @ (p, ?m) # F2" and pr: "prevp = last (base_at s # map fst F1)"
    using found_block[OF wf prev] n(1) le by auto
  show ?thesis
  proof (cases "?m = n")
    case True
    then show ?thesis
      using take_exact[OF wf F pr] by (auto simp: take_block_def set_next_def intro!: took_block)
  next
    case False
    then have "unat n < unat ?m" using le by (metis le_neq_implies_less word_unat_eq_iff)
    then show ?thesis
      using take_split[OF wf F n(1) _ prev(1)] False by (auto simp: take_block_def set_units_def Let_def intro!: took_block)
  qed
qed

lemma rotate_ring:
  assumes "links h (ys @ f # zs) (hd (ys @ [f]))"
  shows "links h (zs @ ys @ [f]) (nextp (h f)) \<and> nextp (h f) = hd (zs @ ys @ [f])"
  using assms by (cases "ys = []"; cases "zs = []") (auto simp: links_append links_hd)

text \<open>The scan of \<open>malloc\<close> along a path that ends at \<open>freep\<close>.\<close>

lemma malloc_scan_path:
  assumes "links (heads s) (p # zs) y" and "distinct (p # zs)" and "last (p # zs) = freep s"
    and "prevp \<in> set (base_at s # map fst F)" "set (p # zs) \<subseteq> set (base_at s # map fst F)" and "nextp (heads s prevp) = p"
    and wf: "heap_wf lim s F U" and n: "0 < unat n"
  shows "if \<exists>a \<in> set (p # zs). n \<le> units (heads s a) then \<exists>r t. malloc_scan sbrk n prevp p s = Some (r, t) \<and> took lim s U n r t
    else malloc_scan sbrk n prevp p s = Option.bind (morecore sbrk n s) (\<lambda>(p, s).
      if p = 0 then Some (0, s) else malloc_scan sbrk n p (nextp (heads s p)) s)"
  using assms(1-6)
proof (induction zs arbitrary: p prevp)
  case Nil
  then show ?case
    using take_block_run[OF wf Nil.prems(4) Nil.prems(6) n] by (subst (1 2) malloc_scan.simps) auto
next
  case (Cons z zs)
  show ?case
  proof (cases "n \<le> units (heads s p)")
    case True
    then show ?thesis
      using take_block_run[OF wf Cons.prems(4) Cons.prems(6) n True] by (subst (1) malloc_scan.simps) auto
  next
    case False
    have "p \<noteq> freep s" using Cons.prems(2,3) by (metis distinct.simps(2) last_ConsR last_in_set list.distinct(1))
    then have "malloc_scan sbrk n prevp p s = malloc_scan sbrk n p z s"
      using False Cons.prems(1) by (subst malloc_scan.simps) (simp add: links_cons)
    moreover note Cons.IH[of z p]
    ultimately show ?thesis using False Cons.prems by (auto simp: links_cons)
  qed
qed

lemma malloc_scan_ring:
  assumes wf: "heap_wf lim s F U" and n: "0 < unat n"
  defines "p \<equiv> freep s"
  shows "if \<exists>a \<in> set (base_at s # map fst F). n \<le> units (heads s a)
    then \<exists>r t. malloc_scan sbrk n p (nextp (heads s p)) s = Some (r, t) \<and> took lim s U n r t
    else malloc_scan sbrk n p (nextp (heads s p)) s = Option.bind (morecore sbrk n s) (\<lambda>(p, s).
      if p = 0 then Some (0, s) else malloc_scan sbrk n p (nextp (heads s p)) s)"
proof -
  let ?xs = "base_at s # map fst F"
  have f: "p \<in> set ?xs" and ring: "links (heads s) ?xs (base_at s)" using wf by (simp_all add: heap_wf_def p_def)
  have d: "distinct ?xs" using free_list_starts[OF heap_wf_list[OF wf]] by (auto simp: strict_sorted_iff)
  obtain ys zs where xs: "?xs = ys @ p # zs" using f by (meson split_list)
  have "hd (ys @ [p]) = base_at s" using xs by (cases ys) auto
  then have R: "links (heads s) (zs @ ys @ [p]) (nextp (heads s p))" "nextp (heads s p) = hd (zs @ ys @ [p])"
    using rotate_ring[of "heads s" ys p zs] ring unfolding xs by auto
  obtain q qs where q: "zs @ ys @ [p] = q # qs" by (cases "zs @ ys @ [p]") auto
  have e: "set (q # qs) = set ?xs" unfolding xs q[symmetric] by auto
  have d': "distinct (q # qs)" using d unfolding xs q[symmetric] by auto
  have l: "last (q # qs) = freep s" unfolding q[symmetric] by (simp add: p_def)
  have R': "nextp (heads s p) = q" "links (heads s) (q # qs) (nextp (heads s p))" using R unfolding q by simp_all
  show ?thesis
    using malloc_scan_path[OF R'(2) d' l f _ R'(1) wf n, of sbrk] unfolding e R'(1) by simp
qed

subsection \<open>The interface to the kernel\<close>

text \<open>A heap with the blocks \<open>U\<close> in use, in a kernel where the memory of the process ends at \<open>lim\<close>; before the first call
  there is no list yet.\<close>

definition heap_at :: "('k \<Rightarrow> nat) \<Rightarrow> ('k \<Rightarrow> bool) \<Rightarrow> 'k ust \<Rightarrow> hblock list \<Rightarrow> hblock set \<Rightarrow> bool" where
  "heap_at lim good s F U = (heap_wf (lim (kern s)) s F U \<and> good (kern s) \<and> unat (base_at s) + 8 \<le> lim (kern s))"

definition heap_ok :: "('k \<Rightarrow> nat) \<Rightarrow> ('k \<Rightarrow> bool) \<Rightarrow> 'k ust \<Rightarrow> hblock set \<Rightarrow> bool" where
  "heap_ok lim good s U =
     (if freep s = 0
      then U = {} \<and> base_at s \<noteq> 0 \<and> good (kern s) \<and> unat (base_at s) + 8 \<le> lim (kern s) \<and> lim (kern s) < 2 ^ 31
      else \<exists>F. heap_at lim good s F U)"

text \<open>What the allocator relies on: \<open>sbrk\<close> returns, and either fails or adds the bytes asked for at the end of the memory.\<close>

lemma unat_nunits:
  assumes "unat nbytes < 2 ^ 32 - 8"
  shows "unat (nunits_of nbytes) = (unat nbytes + 7) div 8 + 1"
proof -
  have e: "nbytes + 8 - 1 = nbytes + 7" by simp
  have "unat (nbytes + 7) = unat nbytes + 7" using assms by (subst unat_add_lem[THEN iffD1]) simp_all
  then have d: "unat ((nbytes + 7) div 8) = (unat nbytes + 7) div 8" by (simp add: unat_div_distrib)
  have "(unat nbytes + 7) div 8 + 1 < 2 ^ 32" using assms by simp
  then show ?thesis unfolding nunits_of_def e by (subst unat_add_lem[THEN iffD1]) (simp_all add: d)
qed

lemma heap_wf_drop: "heap_wf lim s F U \<Longrightarrow> V \<subseteq> U \<Longrightarrow> heap_wf lim s F V"
  unfolding heap_wf_def by blast

locale break_source =
  fixes sbrk :: "'k sbrk_call" and lim :: "'k \<Rightarrow> nat" and good :: "'k \<Rightarrow> bool"
  assumes sbrk_law: "good k \<Longrightarrow> 0 < unat n \<Longrightarrow> unat n < 2 ^ 31 \<Longrightarrow> \<exists>r k'. sbrk n k = Some (r, k') \<and> good k' \<and>
      (r = -1 \<and> lim k' = lim k \<or> r \<noteq> -1 \<and> unat r = lim k \<and> lim k' = lim k + unat n \<and> lim k' < 2 ^ 31)"
begin

lemma morecore_run:
  assumes h: "heap_at lim good s F U" and n: "unat n < 2 ^ 28"
  shows "\<exists>r t. morecore sbrk n s = Some (r, t) \<and> base_at t = base_at s \<and>
    (r = 0 \<and> heap_at lim good t F U \<or>
     r = freep t \<and> r \<noteq> 0 \<and> (\<exists>G. heap_at lim good t G U \<and> (\<exists>y \<in> set G. unat n \<le> unat (snd y))))"
proof -
  let ?l = "lim (kern s)"
  define m where "m = (if n < 4096 then 4096 else n)"
  have m: "0 < unat m" "unat m < 2 ^ 28" "unat n \<le> unat m" using n by (auto simp: m_def word_less_nat_alt)
  have m8: "unat (m * 8) = 8 * unat m" using m(2) by (subst unat_mult_lem[THEN iffD1]) simp_all
  obtain r k where k: "sbrk (m * 8) (kern s) = Some (r, k)" "good k"
    "r = -1 \<and> lim k = ?l \<or> r \<noteq> -1 \<and> unat r = ?l \<and> lim k = ?l + 8 * unat m \<and> lim k < 2 ^ 31"
    using sbrk_law[of "kern s" "m * 8"] h m m8 by (auto simp: heap_at_def)
  have wf: "heap_wf ?l s F U" using h by (simp add: heap_at_def)
  show ?thesis
  proof (cases "r = -1")
    case True
    then have "heap_at lim good (s\<lparr>kern := k\<rparr>) F U" using h k by (auto simp: heap_at_def heap_wf_def)
    then show ?thesis using True k by (simp add: morecore_def m_def[symmetric] Let_def)
  next
    case False
    let ?s = "set_units r m (s\<lparr>kern := k\<rparr>)"
    have r: "unat r = ?l" "blk_end (r, m) = lim k" "lim k < 2 ^ 31" "?l < lim k" using False k m by (simp_all add: blk_end_def)
    note W = wf[unfolded heap_wf_def]
    have le: "blk_end y \<le> ?l" "0 < unat (snd y)" if "y \<in> set F \<union> U" for y using that W by (auto simp: free_list_def)
    have below: "unat (fst y) < ?l" if "y \<in> set F \<union> U" for y using le[OF that] by (simp add: blk_end_def)
    have nr: "fst y \<noteq> r" if "y \<in> set F \<union> U" for y using below[OF that] r(1) by auto
    have nb: "base_at s \<noteq> r" using h r(1) by (auto simp: heap_at_def)
    have ring: "links (heads ?s) (base_at s # map fst F) (base_at s)"
      using W by (subst links_cong[of _ "heads s"]) (simp_all add: set_units_def)
    have un: "units (heads ?s a) = (if a = r then m else units (heads s a))" for a by (simp add: set_units_def)
    have fl: "free_list (unat (base_at s) + 8) (lim k) F" using W r(4) by (fastforce simp: free_list_def)
    have E: "base_at ?s = base_at s" "freep ?s = freep s" "kern ?s = k" by (simp_all add: set_units_def)
    have "heap_wf (lim k) ?s F U"
      unfolding heap_wf_def E
    proof (intro conjI)
      show "units (heads ?s (base_at s)) = 0" using W nb by (simp add: un)
      show "\<forall>x \<in> set F \<union> U. units (heads ?s (fst x)) = snd x" using W nr by (simp add: un)
      show "\<forall>x \<in> U. 0 < unat (snd x) \<and> unat (base_at s) + 8 \<le> unat (fst x) \<and> blk_end x \<le> lim k \<and> bytes x \<inter> cover F = {}"
        using W r(4) by (meson le_trans less_imp_le)
    qed (use W ring fl r(3) in simp_all)
    moreover have "bytes y \<inter> bytes (r, m) = {}" if "y \<in> set F \<union> U" for y using le(1)[OF that] r(1) by (auto simp: bytes_def)
    then have "bytes (r, m) \<inter> cover F = {}" "\<forall>y \<in> U. bytes y \<inter> bytes (r, m) = {}" by (auto simp: cover_def)
    ultimately obtain t G where t: "ufree (r + 8) ?s = Some t" "heap_wf (lim k) t G U" "kern t = k" "base_at t = base_at s"
      "\<exists>y \<in> set G. unat m \<le> unat (snd y)"
      using ufree_run[of "lim k" ?s F U r m] un m r h E by (auto simp: heap_at_def)
    have "heap_at lim good t G U" using t k r h by (simp add: heap_at_def)
    moreover have "\<exists>y \<in> set G. unat n \<le> unat (snd y)" using t(5) m(3) by (meson le_trans)
    ultimately show ?thesis
      using False k(1) t freep_nonnull[OF t(2)] by (auto simp: morecore_def m_def[symmetric] Let_def)
  qed
qed

lemma malloc_start:
  assumes "heap_ok lim good s U"
  shows "\<exists>t F. malloc sbrk nbytes s = malloc_scan sbrk (nunits_of nbytes) (freep t) (nextp (heads t (freep t))) t \<and>
    heap_at lim good t F U \<and> base_at t = base_at s"
proof (cases "freep s = 0")
  case False
  then show ?thesis using assms by (intro exI[of _ s]) (auto simp: heap_ok_def malloc_def Let_def)
next
  case True
  let ?t = "set_units (base_at s) 0 (set_next (base_at s) (base_at s) (s\<lparr>freep := base_at s\<rparr>))"
  have "heap_at lim good ?t [] U"
    using assms True by (simp add: heap_ok_def heap_at_def heap_wf_def set_units_def set_next_def free_list_def)
  then show ?thesis using True
    by (intro exI[of _ ?t] exI[of _ "[]"]) (simp add: malloc_def set_units_def set_next_def Let_def)
qed

lemma took_ok:
  assumes "heap_at lim good s F U" and "took (lim (kern s)) s U n r t"
  shows "r \<noteq> 0 \<and> (r - 8, n) \<notin> U \<and> heap_ok lim good t (insert (r - 8, n) U)"
  using assms by (auto simp: took_def heap_ok_def heap_at_def)

lemma malloc_run:
  assumes h: "heap_ok lim good s U" and n: "unat nbytes < 2 ^ 31 - 64"
  shows "\<exists>r t. malloc sbrk nbytes s = Some (r, t) \<and>
    (r = 0 \<and> heap_ok lim good t U \<or> r \<noteq> 0 \<and> (r - 8, nunits_of nbytes) \<notin> U \<and> heap_ok lim good t (insert (r - 8, nunits_of nbytes) U))"
proof -
  let ?n = "nunits_of nbytes"
  have un: "unat ?n = (unat nbytes + 7) div 8 + 1" using n by (intro unat_nunits) simp
  have n: "0 < unat ?n" "unat ?n < 2 ^ 28" using n by (simp_all add: un)
  obtain u F where u: "malloc sbrk nbytes s = malloc_scan sbrk ?n (freep u) (nextp (heads u (freep u))) u" "heap_at lim good u F U"
    using malloc_start[OF h] by blast
  have wf: "heap_wf (lim (kern u)) u F U" using u(2) by (simp add: heap_at_def)
  note A = malloc_scan_ring[OF wf n(1), of sbrk]
  show ?thesis
  proof (cases "\<exists>a \<in> set (base_at u # map fst F). ?n \<le> units (heads u a)")
    case True
    then show ?thesis using A u(1) took_ok[OF u(2)] by (metis (no_types, lifting))
  next
    case False
    obtain r v where v: "morecore sbrk ?n u = Some (r, v)"
      "r = 0 \<and> heap_at lim good v F U \<or>
       r = freep v \<and> r \<noteq> 0 \<and> (\<exists>G. heap_at lim good v G U \<and> (\<exists>y \<in> set G. unat ?n \<le> unat (snd y)))"
      using morecore_run[OF u(2) n(2)] by blast
    have e: "malloc sbrk nbytes s = (if r = 0 then Some (0, v) else malloc_scan sbrk ?n r (nextp (heads v r)) v)"
      using A False u(1) v(1) by auto
    show ?thesis
    proof (cases "r = 0")
      case True
      then have "heap_ok lim good v U" using v(2) freep_nonnull by (auto simp: heap_ok_def heap_at_def)
      then show ?thesis using e True by auto
    next
      case False
      then obtain G y where G: "heap_at lim good v G U" "y \<in> set G" "unat ?n \<le> unat (snd y)" "r = freep v" using v(2) by blast
      have wf: "heap_wf (lim (kern v)) v G U" using G(1) by (simp add: heap_at_def)
      have "units (heads v (fst y)) = snd y" by (rule heap_wfD(1)[OF wf G(2)])
      then have "\<exists>a \<in> set (base_at v # map fst G). ?n \<le> units (heads v a)"
        using G(2,3) by (intro bexI[of _ "fst y"]) (auto simp: word_le_nat_alt)
      then obtain q t where "malloc_scan sbrk ?n r (nextp (heads v r)) v = Some (q, t)" "took (lim (kern v)) v U ?n q t"
        using malloc_scan_ring[OF wf n(1), of sbrk] G(4) by auto
      then show ?thesis using e False took_ok[OF G(1)] by (metis (no_types, lifting))
    qed
  qed
qed

lemma ufree_at:
  assumes F: "heap_at lim good s F U" and x: "(b, n) \<in> U"
  shows "\<exists>t G. ufree (b + 8) s = Some t \<and> heap_at lim good t G (U - {(b, n)}) \<and> cover G = cover F \<union> bytes (b, n)"
proof -
  have wf: "heap_wf (lim (kern s)) s F U" using F by (simp add: heap_at_def)
  have "\<forall>y \<in> U - {(b, n)}. bytes y \<inter> bytes (b, n) = {}" "blk_end (b, n) \<le> lim (kern s)" using wf x by (auto simp: heap_wf_def)
  then obtain t G where t: "ufree (b + 8) s = Some t" "heap_wf (lim (kern s)) t G (U - {(b, n)})" "kern t = kern s" "base_at t = base_at s"
    "cover G = cover F \<union> bytes (b, n)"
    using ufree_run[OF heap_wf_drop[OF wf Diff_subset[of U "{(b, n)}"]], of b n]
      heap_wfD(2-5)[OF wf x] by auto
  then have "heap_at lim good t G (U - {(b, n)})" using F by (auto simp: heap_at_def)
  then show ?thesis using t by blast
qed

end

end
