(* ===== verification/Sbrk.thy ===== *)
theory Sbrk
  imports Umalloc Process
begin

text \<open>
  The user allocator on the kernel: \<open>growproc\<close> adds pages at the end of the memory of a process, so the system call \<open>sbrk\<close> is what
  the allocator asks for, and \<open>malloc\<close> and \<open>free\<close> are correct on top of it.
\<close>

subsection \<open>Growing a process\<close>

text \<open>A process that can be given memory: its address space is well formed, the allocator holds the free pages \<open>F\<close>, and nothing is
  mapped above the end of its memory.\<close>

definition growable :: "'z procst_scheme \<Rightarrow> u32 set \<Rightarrow> bool" where
  "growable s F =
     (let p = procs s ! myproc s in
      myproc s < length (procs s) \<and> kstack p \<noteq> 0 \<and> sz p < KERNBASE \<and> uvm_wf s (pgdir p) F \<and> pool s F \<and>
      (\<forall>x. in_pages (PGROUNDUP (sz p)) KERNBASE x \<longrightarrow> pte_of (mem s) (pgdir p) x = 0))"

definition psize :: "'z procst_scheme \<Rightarrow> nat" where
  "psize s = unat (sz (procs s ! myproc s))"

text \<open>The process as \<open>growproc\<close> leaves it.\<close>

definition resized :: "u32 \<Rightarrow> 'z procst_scheme \<Rightarrow> 'z procst_scheme" where
  "resized n s = (let i = myproc s; t = upd_proc i (\<lambda>p. p\<lparr>sz := n\<rparr>) s; p = procs t ! i in
     t\<lparr>esp0 := kstack p + KSTACKSIZE, cr3 := V2P (pgdir p)\<rparr>)"

lemma pgdir_not0: "uvm_wf s d F \<Longrightarrow> d \<noteq> 0"
  using page_ok_not0 by (auto simp: uvm_wf_def vm_wf_def)

lemma same_mem:
  fixes s :: "'y mst_scheme" and t :: "'z mst_scheme"
  assumes "mem t = mem s" and "kend t = kend s" and "freelist t = freelist s" and "held t = held s"
  shows "uvm_wf t d F = uvm_wf s d F" and "pool t F = pool s F"
proof -
  have "page_ok t = page_ok s" by (simp add: page_ok_def fun_eq_iff assms)
  then show "uvm_wf t d F = uvm_wf s d F" "pool t F = pool s F"
    using assms by (simp_all add: uvm_wf_def vm_wf_def pool_def kmem_inv_def)
qed

lemma resized_facts:
  assumes "myproc s < length (procs s)"
  shows "mem (resized n s) = mem s" "kend (resized n s) = kend s" "freelist (resized n s) = freelist s" "held (resized n s) = held s"
    "myproc (resized n s) = myproc s" "procs (resized n s) ! myproc s = (procs s ! myproc s)\<lparr>sz := n\<rparr>"
    "length (procs (resized n s)) = length (procs s)"
  using assms by (simp_all add: resized_def Let_def upd_proc_def myproc_def)

lemma growproc_run:
  assumes g: "growable s F" and n: "0 < unat n" "unat n < 2 ^ 31"
  shows "returns (growproc n s) (\<lambda>r t. \<exists>F'. growable t F' \<and> myproc t = myproc s \<and>
    (r = 0 \<and> sz (procs t ! myproc t) = sz (procs s ! myproc s) + n \<and> psize t = psize s + unat n \<or> r = -1 \<and> psize t = psize s))"
proof -
  let ?p = "procs s ! myproc s"
  let ?new = "sz ?p + n"
  have G: "myproc s < length (procs s)" "kstack ?p \<noteq> 0" "sz ?p < KERNBASE" "uvm_wf s (pgdir ?p) F" "pool s F"
    "\<And>x. in_pages (PGROUNDUP (sz ?p)) KERNBASE x \<Longrightarrow> pte_of (mem s) (pgdir ?p) x = 0"
    using g by (simp_all add: growable_def Let_def)
  have small: "unat (sz ?p) < 2 ^ 31" using G(3) by (simp add: KERNBASE_def word_less_nat_alt)
  have un: "unat ?new = unat (sz ?p) + unat n" using small n(2) by (subst unat_add_lem[THEN iffD1]) simp_all
  have "0 < int (unat n)" using n(1) by (simp only: of_nat_0_less_iff)
  then have pos: "0 < sint n" using sint_small[OF n(2)] by (simp only:)
  have run: "growproc n s = bnd (allocuvm (pgdir ?p) (sz ?p) ?new s) (\<lambda>len s.
      if len = 0 then Ret (-1) s else bnd (switchuvm (myproc s) (upd_proc (myproc s) (\<lambda>p. p\<lparr>sz := len\<rparr>) s)) (\<lambda>_ s. Ret 0 s))"
    using pos by (simp add: growproc_def Let_def)
  show ?thesis
  proof (cases "?new < KERNBASE")
    case False
    then show ?thesis using run g by (auto simp: allocuvm_def linorder_not_less)
  next
    case True
    note True' = True
    show ?thesis
      unfolding run
    proof (rule returns_bnd[OF allocuvm_run[OF G(4,5) _ True]])
      show "sz ?p \<le> ?new" using un by (simp add: word_le_nat_alt)
      show "pte_of (mem s) (pgdir ?p) x = 0" if "in_pages (PGROUNDUP (sz ?p)) ?new x" for x
        using that True by (intro G(6)) (auto simp: in_pages_def)
    next
      fix r t assume "\<exists>F'. r = ?new \<and> grown (pgdir ?p) s F (PGROUNDUP (sz ?p)) ?new t F' \<or> r = 0 \<and> restored (pgdir ?p) s F t F'"
      then obtain F' where r: "r = ?new \<and> grown (pgdir ?p) s F (PGROUNDUP (sz ?p)) ?new t F' \<or> r = 0 \<and> restored (pgdir ?p) s F t F'"
        by blast
      then have om: "only_mem s t" by (auto simp: grown_def restored_def)
      then have pr: "procs t = procs s" "myproc t = myproc s" by (simp_all add: only_mem_fields myproc_def)
      show "returns (if r = 0 then Ret (-1) t else bnd (switchuvm (myproc t) (upd_proc (myproc t) (\<lambda>p. p\<lparr>sz := r\<rparr>) t)) (\<lambda>_ s. Ret 0 s))
        (\<lambda>r t. \<exists>F'. growable t F' \<and> myproc t = myproc s \<and>
          (r = 0 \<and> sz (procs t ! myproc t) = ?new \<and> psize t = psize s + unat n \<or> r = -1 \<and> psize t = psize s))"
      proof (cases "r = 0")
        case True
        have "?new \<noteq> 0" using un n by (metis add_is_0 less_irrefl unat_0)
        then have R: "restored (pgdir ?p) s F t F'" using r True by auto
        then have "growable t F'" using G pr by (auto simp: growable_def restored_def Let_def)
        then show ?thesis using True pr by (auto simp: psize_def)
      next
        case False
        then have R: "r = ?new" "grown (pgdir ?p) s F (PGROUNDUP (sz ?p)) ?new t F'" using r by auto
        let ?u = "resized ?new t"
        have my: "myproc t < length (procs t)" using G(1) pr by simp
        note E = resized_facts[OF my, of ?new] and S = same_mem[OF resized_facts(1-4)[OF my, of ?new]]
        have "pgdir ?p \<noteq> 0" by (rule pgdir_not0[OF G(4)])
        then have "switchuvm (myproc t) (upd_proc (myproc t) (\<lambda>p. p\<lparr>sz := r\<rparr>) t) = Ret () ?u"
          using G(1,2) pr R(1) by (simp add: switchuvm_def resized_def Let_def upd_proc_def)
        moreover have "pte_of (mem t) (pgdir ?p) x = 0" if x: "in_pages (PGROUNDUP ?new) KERNBASE x" for x
        proof -
          have "unat ?new < 2 ^ 31" using True' by (simp add: KERNBASE_def word_less_nat_alt)
          then have u: "unat (PGROUNDUP ?new) = 4096 * ((unat ?new + 4095) div 4096)" "unat (PGROUNDUP (sz ?p)) = 4096 * ((unat (sz ?p) + 4095) div 4096)"
            using small by (simp_all add: unat_PGROUNDUP)
          have "unat (PGROUNDUP (sz ?p)) \<le> unat (PGROUNDUP ?new)" unfolding u un by (intro mult_le_mono2 div_le_mono) simp
          moreover have "unat ?new \<le> unat (PGROUNDUP ?new)" unfolding u by simp
          ultimately have "PGROUNDUP (sz ?p) \<le> PGROUNDUP ?new" "?new \<le> PGROUNDUP ?new" by (simp_all add: word_le_nat_alt)
          then have "in_pages (PGROUNDUP (sz ?p)) KERNBASE x" "\<not> in_pages (PGROUNDUP (sz ?p)) ?new x"
            using x by (auto simp: in_pages_def)
          then show ?thesis using G(6) R(2) by (simp add: grown_def)
        qed
        then have "growable ?u F'"
          using G R True' S E pr by (simp add: growable_def grown_def Let_def)
        ultimately show ?thesis using False E pr un by (auto simp: psize_def)
      qed
    qed
  qed
qed

subsection \<open>The system call as the allocator sees it\<close>

text \<open>\<open>sys_sbrk\<close> on its argument: the old size of the process or -1, as the register holds it.  A panic does not return.\<close>

definition user_sbrk :: "'z procst_scheme sbrk_call" where
  "user_sbrk n s =
     (case bnd (growproc n s) (\<lambda>r t. Ret (if r < 0 then -1 else sint (sz (procs s ! myproc s))) t) of
        Ret r t \<Rightarrow> Some (word_of_int r, t)
      | _ \<Rightarrow> None)"

interpretation us: break_source user_sbrk psize "\<lambda>s. \<exists>F. growable s F"
proof
  fix k :: "'z procst_scheme" and n :: u32
  assume g: "\<exists>F. growable k F" and n: "0 < unat n" "unat n < 2 ^ 31"
  then obtain F where F: "growable k F" by blast
  from growproc_run[OF F n] obtain r t where r: "growproc n k = Ret r t" "\<exists>F'. growable t F'"
    "r = 0 \<and> psize t = psize k + unat n \<or> r = -1 \<and> psize t = psize k"
    by (cases "growproc n k") auto
  have small: "psize u < 2 ^ 31" if "growable u G" for u :: "'z procst_scheme" and G
    using that by (simp add: growable_def psize_def Let_def KERNBASE_def word_less_nat_alt)
  let ?a = "sz (procs k ! myproc k)"
  have "?a \<noteq> -1"
  proof
    assume "?a = -1"
    then have "psize k = 2 ^ 32 - 1" by (simp add: psize_def unsigned_minus_1_eq_mask mask_eq_exp_minus_1)
    then show False using small[OF F] by simp
  qed
  moreover have "user_sbrk n k = Some (if r < 0 then -1 else ?a, t)" using r(1) by (simp add: user_sbrk_def)
  moreover have "unat ?a = psize k" by (simp add: psize_def)
  ultimately show "\<exists>r k'. user_sbrk n k = Some (r, k') \<and> (\<exists>F. growable k' F) \<and>
      (r = -1 \<and> psize k' = psize k \<or> r \<noteq> -1 \<and> unat r = psize k \<and> psize k' = psize k + unat n \<and> psize k' < 2 ^ 31)"
    using r(2,3) small by (intro exI[of _ "if r < 0 then -1 else ?a"] exI[of _ t]) auto
qed

text \<open>The heap of a process: the blocks \<open>U\<close> that \<open>malloc\<close> gave out are in use.\<close>

definition user_heap :: "'z procst_scheme ust \<Rightarrow> hblock set \<Rightarrow> bool" where
  "user_heap s U = heap_ok psize (\<lambda>k. \<exists>F. growable k F) s U"

definition user_heap_at :: "'z procst_scheme ust \<Rightarrow> hblock list \<Rightarrow> hblock set \<Rightarrow> bool" where
  "user_heap_at s F U = heap_at psize (\<lambda>k. \<exists>F. growable k F) s F U"

text \<open>C10: Growing a process works: with a positive number of bytes \<open>growproc\<close> returns; either the memory of the process is larger by
  exactly that number, or it failed and the size is as before; in both cases the process, its page table and the page allocator
  are such that it can grow again.\<close>

theorem growproc_grows:
  assumes "growable s F" and "0 < unat n" and "unat n < 2 ^ 31"
  shows "returns (growproc n s) (\<lambda>r t. (\<exists>F'. growable t F') \<and> myproc t = myproc s \<and>
    (if r = 0 then psize t = psize s + unat n else r = -1 \<and> psize t = psize s))"
  by (rule returns_mono[OF growproc_run[OF assms]]) auto

text \<open>C8: \<open>malloc\<close> on the kernel always returns: with the null pointer, when the kernel has no more memory, or with a block in
  which the bytes asked for, and the header before them, overlap no block in use; the heap stays well formed.\<close>

theorem malloc_exclusive:
  assumes "user_heap s U" and "unat nbytes < 2 ^ 31 - 64"
  shows "\<exists>r t. malloc user_sbrk nbytes s = Some (r, t) \<and>
    (if r = 0 then user_heap t U
     else user_heap t (insert (r - 8, nunits_of nbytes) U) \<and>
       (\<forall>y \<in> U. bytes y \<inter> {unat r - 8 ..< unat r + unat nbytes} = {}))"
proof -
  let ?n = "nunits_of nbytes"
  obtain r t where r: "malloc user_sbrk nbytes s = Some (r, t)"
    "r = 0 \<and> user_heap t U \<or> r \<noteq> 0 \<and> (r - 8, ?n) \<notin> U \<and> user_heap t (insert (r - 8, ?n) U)"
    using us.malloc_run[OF assms(1)[unfolded user_heap_def] assms(2)] unfolding user_heap_def by blast
  have "\<forall>y \<in> U. bytes y \<inter> {unat r - 8 ..< unat r + unat nbytes} = {}" if nz: "r \<noteq> 0"
  proof -
    obtain F where "heap_at psize (\<lambda>k. \<exists>F. growable k F) t F (insert (r - 8, ?n) U)"
      using r(2) nz by (auto simp: user_heap_def heap_ok_def split: if_splits)
    then have wf: "heap_wf (psize (kern t)) t F (insert (r - 8, ?n) U)" by (simp add: heap_at_def)
    have un: "unat ?n = (unat nbytes + 7) div 8 + 1" using assms(2) by (intro unat_nunits) simp
    have lim: "blk_end (r - 8, ?n) \<le> psize (kern t)" "psize (kern t) < 2 ^ 31" using wf by (auto simp: heap_wf_def)
    then have "unat (r - 8) + 8 < 2 ^ 32" by (simp add: blk_end_def)
    then have "unat (r - 8 + 8) = unat (r - 8) + 8" by (subst unat_add_lem[THEN iffD1]) simp_all
    then have e: "unat r = unat (r - 8) + 8" by simp
    then have "{unat r - 8 ..< unat r + unat nbytes} \<subseteq> bytes (r - 8, ?n)" using un by (auto simp: bytes_def blk_end_def)
    moreover have "bytes y \<inter> bytes (r - 8, ?n) = {}" if "y \<in> U" for y
      using wf that r(2) nz unfolding heap_wf_def by (metis insertCI)
    ultimately show ?thesis by blast
  qed
  then show ?thesis using r by (intro exI[of _ r] exI[of _ t]) auto
qed

text \<open>C9: \<open>free\<close> of a block in use always returns, its search ends from whatever header the last call left \<open>freep\<close> at: exactly the
  bytes of the block become free, it is joined with the free neighbours, so that no two free blocks touch, and the other blocks stay in
  use.\<close>

theorem free_coalesces:
  assumes "user_heap_at s F U" and "(b, n) \<in> U"
  shows "\<exists>t G. ufree (b + 8) s = Some t \<and> user_heap_at t G (U - {(b, n)}) \<and> cover G = cover F \<union> bytes (b, n) \<and>
    (\<forall>x \<in> set G. \<forall>y \<in> set G. blk_end x \<noteq> unat (fst y))"
proof -
  obtain t G where t: "ufree (b + 8) s = Some t" "user_heap_at t G (U - {(b, n)})" "cover G = cover F \<union> bytes (b, n)"
    using us.ufree_at[OF assms(1)[unfolded user_heap_at_def] assms(2)] unfolding user_heap_at_def by blast
  have "free_list (unat (base_at t) + 8) (psize (kern t)) G" using t(2) heap_wf_list by (auto simp: user_heap_at_def heap_at_def)
  then have "\<forall>x \<in> set G. \<forall>y \<in> set G. blk_end x \<noteq> unat (fst y)" by (rule no_touch)
  then show ?thesis using t by blast
qed

subsection \<open>A concrete process\<close>

definition demo_procst :: procst where
  "demo_procst = mst.extend demo_vm
     \<lparr>bufs = [], lru = [], disk = (\<lambda>_. []), disksize = 0, wlog = [],
      l_start = 0, l_size = 0, l_outstanding = 0, l_committing = False, l_dev = 0, l_n = 0, l_block = [],
      sb = \<lparr>sb_size = 0, sb_nblocks = 0, sb_ninodes = 0, sb_nlog = 0, sb_logstart = 0, sb_inodestart = 0, sb_bmapstart = 0\<rparr>, inodes = [],
      pipes = (\<lambda>_. \<lparr>p_data = [], p_nread = 0, p_nwrite = 0, p_readopen = False, p_writeopen = False\<rparr>), files = [],
      cons_locking = False, panicked = False, crt = (\<lambda>_. 0), cursor = 0, uart = [], in_buf = [], in_r = 0, in_w = 0, in_e = 0,
      first_run = False, trapret_at = 0, forkret_at = 0\<rparr>"

lemma demo_growable: "growable demo_procst {0x80200000, 0x80300000}"
proof -
  have e: "mem demo_procst = mem demo_vm" "kend demo_procst = kend demo_vm" "freelist demo_procst = freelist demo_vm"
    "held demo_procst = held demo_vm" "procs demo_procst = procs demo_vm" "cur demo_procst = cur demo_vm"
    by (simp_all add: demo_procst_def mst.defs)
  have p: "procs demo_vm = [demo_proc RUNNING 1 10]" "cur demo_vm = Some 0"
    by (simp_all add: demo_vm_def demo_mst_def demo_slst_def demo_kst_def kst.defs slst.defs)
  show ?thesis
    using same_mem[OF e(1-4)] demo_uvm demo_vm_wf(3,5)
    by (simp add: growable_def Let_def e p myproc_def demo_proc_def KERNBASE_def)
qed

definition demo_user :: "procst ust" where
  "demo_user = \<lparr>heads = (\<lambda>a. \<lparr>nextp = 0x800, units = if a = 0x900 then 3 else 0\<rparr>), base_at = 0x800, freep = 0, kern = demo_procst\<rparr>"

lemma demo_size: "psize demo_procst = 0x1000"
  by (simp add: psize_def myproc_def demo_procst_def mst.defs demo_vm_def demo_mst_def demo_slst_def demo_kst_def kst.defs slst.defs demo_proc_def)

theorem growproc_grows_witness:
  "returns (growproc 0x2000 demo_procst) (\<lambda>r t. psize t = (if r = 0 then 0x3000 else 0x1000))"
  by (rule returns_mono[OF growproc_grows[OF demo_growable]]) (auto simp: demo_size)

theorem malloc_exclusive_witness:
  "\<exists>r t. malloc user_sbrk 100 demo_user = Some (r, t) \<and> (if r = 0 then user_heap t {} else user_heap t {(r - 8, nunits_of 100)})"
proof -
  have "user_heap demo_user {}"
    using demo_growable by (auto simp: user_heap_def heap_ok_def demo_user_def demo_size)
  from malloc_exclusive[OF this, of 100] show ?thesis by (auto split: if_splits)
qed

theorem free_coalesces_witness:
  "\<exists>t G. ufree 0x908 (demo_user\<lparr>freep := 0x800\<rparr>) = Some t \<and> cover G = {0x900 ..< 0x918} \<and> user_heap_at t G {}"
proof -
  have "user_heap_at (demo_user\<lparr>freep := 0x800\<rparr>) [] {(0x900, 3)}"
    using demo_growable by (auto simp: user_heap_at_def heap_at_def heap_wf_def free_list_def blk_end_def demo_user_def demo_size)
  from free_coalesces[OF this, of "0x900" 3] show ?thesis by (auto simp: bytes_def blk_end_def)
qed

end
