(* ===== verification/Shell.thy ===== *)
theory Shell
  imports Utils "HOL-Library.Sublist"
begin

text \<open>
  The shell, \<^verbatim>\<open>sh.c\<close>: its scanner, its parser and the execution of a parsed command.  A pointer into the command line is the
  part of the line from there on, so the end of the line is the empty list; a word is the pair of the pointers to its first
  character and behind its last.  Allocated nodes are a datatype; \<open>parseexec\<close> adds arguments to a node that redirections already
  point to, so arguments and redirections are collected apart and put together at its end.  The left side of a sum is the argument of \<open>panic\<close>,
  with the rest of the line where the shell reports leftovers.  The recursion of the parser has fuel, and running out of it is \<^term>\<open>None\<close>.
\<close>

subsection \<open>Commands\<close>

type_synonym word_ptr = "u8 list \<times> u8 list"

datatype 'w cmd =
    Execcmd "'w list"
  | Redircmd "'w cmd" 'w u32 int
  | Pipecmd "'w cmd" "'w cmd"
  | Listcmd "'w cmd" "'w cmd"
  | Backcmd "'w cmd"

definition MAXARGS :: nat where "MAXARGS = 10"
definition O_RDONLY_sh :: u32 where "O_RDONLY_sh = 0"
definition O_WRCREATE_sh :: u32 where "O_WRCREATE_sh = 0x001 OR 0x200"

subsection \<open>The scanner\<close>

definition whitespace :: "u8 list" where
  "whitespace = [32, 9, 13, 10, 11]"

definition symbols :: "u8 list" where
  "symbols = [60, 124, 62, 38, 59, 40, 41]"

definition in_str :: "u8 list \<Rightarrow> u8 \<Rightarrow> bool" where
  "in_str toks c = (strchr toks c \<noteq> None)"

fun skip_white :: "u8 list \<Rightarrow> u8 list" where
  "skip_white [] = []"
| "skip_white (c # s) = (if in_str whitespace c then skip_white s else c # s)"

fun skip_word :: "u8 list \<Rightarrow> u8 list" where
  "skip_word [] = []"
| "skip_word (c # s) = (if \<not> in_str whitespace c \<and> \<not> in_str symbols c then skip_word s else c # s)"

text \<open>\<open>gettoken\<close>: the kind of the token, its start and end, and the rest of the line.\<close>

definition gettoken :: "u8 list \<Rightarrow> u8 \<times> u8 list \<times> u8 list \<times> u8 list" where
  "gettoken s =
     (let s = skip_white s; q = s; c = deref s;
          (ret, s) =
            (if c = 0 then (c, s)
             else if c = 124 \<or> c = 40 \<or> c = 41 \<or> c = 59 \<or> c = 38 \<or> c = 60 then (c, tl s)
             else if c = 62 then (if deref (tl s) = 62 then (43, tl (tl s)) else (c, tl s))
             else (97, skip_word s))
      in (ret, q, s, skip_white s))"

text \<open>\<open>peek\<close> moves past white space and looks at the next character.\<close>

definition peek :: "u8 list \<Rightarrow> u8 list \<Rightarrow> bool \<times> u8 list" where
  "peek s toks = (let s = skip_white s in (deref s \<noteq> 0 \<and> in_str toks (deref s), s))"

lemma skip_white_le: "length (skip_white s) \<le> length s"
  by (induction s) auto

lemma skip_word_le: "length (skip_word s) \<le> length s"
  by (induction s) auto

lemma tl_le: "length (tl s) \<le> length s"
  by (cases s) auto

lemma gettoken_le: "gettoken s = (r, q, e, s') \<Longrightarrow> length s' \<le> length s"
  using skip_white_le[of s] skip_white_le[of "skip_word (skip_white s)"] skip_word_le[of "skip_white s"]
    skip_white_le[of "tl (skip_white s)"] skip_white_le[of "tl (tl (skip_white s))"] tl_le[of "skip_white s"] tl_le[of "tl (skip_white s)"]
    skip_white_le[of "skip_white s"]
  by (auto simp: gettoken_def Let_def split: if_splits)

lemma gettoken_less:
  assumes g: "gettoken s = (r, q, e, s')" and r: "r \<noteq> 0"
  shows "length s' < length s"
proof -
  obtain c t where s: "skip_white s = c # t"
    using g r by (cases "skip_white s") (auto simp: gettoken_def Let_def)
  have w: "\<not> in_str whitespace c" using s by (induction s) (auto split: if_splits)
  have le: "length (c # t) \<le> length s" using skip_white_le[of s] s by simp
  have "length s' \<le> length t"
    using g r w skip_white_le[of t] skip_white_le[of "tl t"] tl_le[of t] skip_white_le[of "skip_word t"] skip_word_le[of t]
    by (auto simp: gettoken_def Let_def s in_str_def symbols_def split: if_splits)
  then show ?thesis using le by simp
qed

lemma peek_le: "peek s toks = (b, s') \<Longrightarrow> length s' \<le> length s"
  using skip_white_le[of s] by (auto simp: peek_def Let_def)

lemma skip_white_idem [simp]: "skip_white (skip_white s) = skip_white s"
  by (induction s) auto

text \<open>A character that \<open>peek\<close> finds is consumed by the next \<open>gettoken\<close>.\<close>

lemma peek_gettoken_less:
  assumes p: "peek s toks = (True, t)" and g: "gettoken t = (r, q, e, u)"
  shows "length u < length s"
proof -
  have "t = skip_white s" "deref t \<noteq> 0" using p by (auto simp: peek_def Let_def)
  then have "r \<noteq> 0" using g by (auto simp: gettoken_def Let_def split: if_splits)
  then show ?thesis using gettoken_less[OF g] peek_le[OF p] by simp
qed

lemma peek_gettoken2_less:
  "\<lbrakk>peek s toks = (True, t); gettoken t = (r, q, e, u); gettoken u = (r', q', e', v)\<rbrakk> \<Longrightarrow> length v < length s"
  using peek_gettoken_less[of s toks t r q e u] gettoken_le[of u r' q' e' v] by simp

subsection \<open>The parser\<close>

type_synonym parse_error = "u8 list option \<times> string"

type_synonym 'a parsed = "parse_error + 'a"

text \<open>The redirections that follow: the words, modes and descriptors, the first one innermost.\<close>

type_synonym redirs = "(word_ptr \<times> u32 \<times> int) list"

function parseredirs :: "u8 list \<Rightarrow> (redirs \<times> u8 list) parsed" where
  "parseredirs s0 =
     (case peek s0 [60, 62] of (b, s1) \<Rightarrow>
        if \<not> b then Inr ([], s1)
        else case gettoken s1 of (tok, _, _, s2) \<Rightarrow>
          (case gettoken s2 of (r, q, eq, s3) \<Rightarrow>
             if r \<noteq> 97 then Inl (None, ''missing file for redirection'')
             else case parseredirs s3 of
               Inl e \<Rightarrow> Inl e
             | Inr (rs, s4) \<Rightarrow>
                 Inr ((if tok = 60 then [((q, eq), O_RDONLY_sh, 0)] else if tok = 62 then [((q, eq), O_WRCREATE_sh, 1)]
                       else if tok = 43 then [((q, eq), O_WRCREATE_sh, 1)] else []) @ rs, s4)))"
  by pat_completeness auto
termination
  by (relation "measure length") (auto dest: peek_gettoken2_less[OF HOL.sym HOL.sym HOL.sym])

declare parseredirs.simps [simp del]

definition wrap :: "word_ptr cmd \<Rightarrow> redirs \<Rightarrow> word_ptr cmd" where
  "wrap c rs = foldl (\<lambda>c (w, mode, fd). Redircmd c w mode fd) c rs"

lemma parseredirs_le: "parseredirs s = Inr (rs, s') \<Longrightarrow> length s' \<le> length s"
proof (induction s arbitrary: rs s' rule: parseredirs.induct)
  case (1 s)
  obtain b s1 where p: "peek s [60, 62] = (b, s1)" by (cases "peek s [60, 62]")
  obtain t q0 e0 s2 where g1: "gettoken s1 = (t, q0, e0, s2)" by (cases "gettoken s1")
  obtain r q e s3 where g2: "gettoken s2 = (r, q, e, s3)" by (cases "gettoken s2")
  have le: "length s3 \<le> length s" using gettoken_le[OF g1] gettoken_le[OF g2] peek_le[OF p] by simp
  show ?case
  proof (cases "b \<and> r = 97")
    case False
    then show ?thesis using 1(2) peek_le[OF p] by (subst (asm) parseredirs.simps) (auto simp: p g1 g2 split: if_splits)
  next
    case True
    then obtain rs' where "parseredirs s3 = Inr (rs', s')"
      using 1(2) by (subst (asm) parseredirs.simps) (auto simp: p g1 g2 split: if_splits sum.splits)
    from 1(1)[OF p[symmetric] _ g1[symmetric] refl refl g2[symmetric] refl refl _ this] True le show ?thesis by simp
  qed
qed

lemma word_redirs_less:
  "\<lbrakk>peek s toks = (b, t); gettoken t = (97, q, e, u); parseredirs u = Inr (rs, v)\<rbrakk> \<Longrightarrow> length v < length s"
  using peek_le[of s toks b t] gettoken_less[of t 97 q e u] parseredirs_le[of u rs v] by simp

text \<open>The arguments of a simple command, with the redirections between them.\<close>

function parse_args :: "nat \<Rightarrow> u8 list \<Rightarrow> (word_ptr list \<times> redirs \<times> u8 list) parsed" where
  "parse_args argc s0 =
     (case peek s0 [124, 41, 38, 59] of (b, s1) \<Rightarrow>
        if b then Inr ([], [], s1)
        else case gettoken s1 of (tok, q, eq, s2) \<Rightarrow>
          if tok = 0 then Inr ([], [], s2)
          else if tok \<noteq> 97 then Inl (None, ''syntax'')
          else if argc + 1 \<ge> MAXARGS then Inl (None, ''too many args'')
          else case parseredirs s2 of
            Inl e \<Rightarrow> Inl e
          | Inr (rs, s3) \<Rightarrow>
              (case parse_args (argc + 1) s3 of
                 Inl e \<Rightarrow> Inl e
               | Inr (as, rs', s4) \<Rightarrow> Inr ((q, eq) # as, rs @ rs', s4)))"
  by pat_completeness auto
termination
  by (relation "measure (length \<circ> snd)") (auto dest: word_redirs_less[OF HOL.sym HOL.sym HOL.sym])

declare parse_args.simps [simp del]

text \<open>Each \<^verbatim>\<open>&\<close> puts the command in the background once more.\<close>

function back_loop :: "word_ptr cmd \<Rightarrow> u8 list \<Rightarrow> word_ptr cmd \<times> u8 list" where
  "back_loop c s0 =
     (case peek s0 [38] of (b, s1) \<Rightarrow>
        if b then (case gettoken s1 of (_, _, _, s2) \<Rightarrow> back_loop (Backcmd c) s2) else (c, s1))"
  by pat_completeness auto
termination
  by (relation "measure (length \<circ> snd)") (auto dest!: peek_gettoken_less[OF HOL.sym HOL.sym])

declare back_loop.simps [simp del]

fun pbind :: "'a parsed option \<Rightarrow> ('a \<Rightarrow> 'b parsed option) \<Rightarrow> 'b parsed option" where
  "pbind None k = None"
| "pbind (Some (Inl e)) k = Some (Inl e)"
| "pbind (Some (Inr x)) k = k x"

fun parseline :: "nat \<Rightarrow> u8 list \<Rightarrow> (word_ptr cmd \<times> u8 list) parsed option"
  and parsepipe :: "nat \<Rightarrow> u8 list \<Rightarrow> (word_ptr cmd \<times> u8 list) parsed option"
  and parseexec :: "nat \<Rightarrow> u8 list \<Rightarrow> (word_ptr cmd \<times> u8 list) parsed option"
  and parseblock :: "nat \<Rightarrow> u8 list \<Rightarrow> (word_ptr cmd \<times> u8 list) parsed option" where
  "parseline 0 s = None"
| "parseline (Suc n) s =
     pbind (parsepipe n s) (\<lambda>(c, s). case back_loop c s of (c, s) \<Rightarrow>
       case peek s [59] of (b, s) \<Rightarrow>
         if b then case gettoken s of (_, _, _, s) \<Rightarrow> pbind (parseline n s) (\<lambda>(d, s). Some (Inr (Listcmd c d, s)))
         else Some (Inr (c, s)))"
| "parsepipe 0 s = None"
| "parsepipe (Suc n) s =
     pbind (parseexec n s) (\<lambda>(c, s).
       case peek s [124] of (b, s) \<Rightarrow>
         if b then case gettoken s of (_, _, _, s) \<Rightarrow> pbind (parsepipe n s) (\<lambda>(d, s). Some (Inr (Pipecmd c d, s)))
         else Some (Inr (c, s)))"
| "parseexec 0 s = None"
| "parseexec (Suc n) s =
     (case peek s [40] of (b, s) \<Rightarrow>
        if b then parseblock n s
        else pbind (Some (parseredirs s)) (\<lambda>(rs, s). pbind (Some (parse_args 0 s)) (\<lambda>(as, rs', s).
          Some (Inr (wrap (Execcmd as) (rs @ rs'), s)))))"
| "parseblock 0 s = None"
| "parseblock (Suc n) s =
     (case peek s [40] of (b, s) \<Rightarrow>
        if \<not> b then Some (Inl (None, ''parseblock''))
        else case gettoken s of (_, _, _, s) \<Rightarrow>
          pbind (parseline n s) (\<lambda>(c, s). case peek s [41] of (b, s) \<Rightarrow>
            if \<not> b then Some (Inl (None, ''syntax - missing )''))
            else case gettoken s of (_, _, _, s) \<Rightarrow>
              pbind (Some (parseredirs s)) (\<lambda>(rs, s). Some (Inr (wrap c rs, s)))))"

text \<open>The strings end where their words end: \<open>nulterminate\<close> writes a zero there.  \<open>n\<close> is the length of the whole line.\<close>

fun nul_words :: "nat \<Rightarrow> word_ptr list \<Rightarrow> u8 list \<Rightarrow> u8 list" where
  "nul_words n [] buf = buf"
| "nul_words n ((q, eq) # ws) buf = nul_words n ws (buf[n - length eq := 0])"

fun nulterminate :: "nat \<Rightarrow> word_ptr cmd \<Rightarrow> u8 list \<Rightarrow> u8 list" where
  "nulterminate n (Execcmd as) buf = nul_words n as buf"
| "nulterminate n (Redircmd c (q, eq) mode fd) buf = (nulterminate n c buf)[n - length eq := 0]"
| "nulterminate n (Pipecmd l r) buf = nulterminate n r (nulterminate n l buf)"
| "nulterminate n (Listcmd l r) buf = nulterminate n r (nulterminate n l buf)"
| "nulterminate n (Backcmd c) buf = nulterminate n c buf"

definition parse_fuel :: "u8 list \<Rightarrow> nat" where
  "parse_fuel s = 4 * length s + 4"

text \<open>\<open>parsecmd\<close> on the buffer of the line: the command and the buffer with the strings ended.\<close>

definition parsecmd :: "u8 list \<Rightarrow> (word_ptr cmd \<times> u8 list) parsed option" where
  "parsecmd buf =
     (let s = cstr buf in
      pbind (parseline (parse_fuel s) s) (\<lambda>(c, t). case peek t [] of (_, t) \<Rightarrow>
        if t \<noteq> [] then Some (Inl (Some t, ''syntax'')) else Some (Inr (c, nulterminate (length s) c buf))))"

subsection \<open>The parser always returns\<close>

lemma parse_args_le: "parse_args n s = Inr (as, rs, s') \<Longrightarrow> length s' \<le> length s"
proof (induction n s arbitrary: as rs s' rule: parse_args.induct)
  case (1 argc s)
  obtain b s1 where p: "peek s [124, 41, 38, 59] = (b, s1)" by (cases "peek s [124, 41, 38, 59]")
  obtain t q e s2 where g: "gettoken s1 = (t, q, e, s2)" by (cases "gettoken s1")
  have le: "length s1 \<le> length s" "length s2 \<le> length s" using gettoken_le[OF g] peek_le[OF p] by simp_all
  show ?case
  proof (cases "b \<or> t = 0")
    case True
    then show ?thesis using 1(2) le by (subst (asm) parse_args.simps) (auto simp: p g split: if_splits)
  next
    case False
    then have t: "t = 97" "\<not> argc + 1 \<ge> MAXARGS"
      using 1(2) by (subst (asm) parse_args.simps; simp add: p g split: if_splits)+
    then obtain rs1 s3 as1 rs2 where *: "parseredirs s2 = Inr (rs1, s3)" "parse_args (argc + 1) s3 = Inr (as1, rs2, s')"
      using False 1(2) by (subst (asm) parse_args.simps) (auto simp: p g split: sum.splits)
    show ?thesis
      using 1(1)[OF p[symmetric] _ g[symmetric] refl refl _ _ _ *(1) refl *(2)] t False parseredirs_le[OF *(1)] le by simp
  qed
qed

lemma back_loop_le: "back_loop c s = (c', s') \<Longrightarrow> length s' \<le> length s"
proof (induction c s rule: back_loop.induct)
  case (1 c s)
  obtain b s1 where p: "peek s [38] = (b, s1)" by (cases "peek s [38]")
  obtain t q e s2 where g: "gettoken s1 = (t, q, e, s2)" by (cases "gettoken s1")
  show ?case
    using 1 peek_le[OF p] gettoken_le[OF g]
    by (subst (asm) (2) back_loop.simps) (fastforce simp: p g split: if_splits dest: order.trans)
qed

text \<open>With four units of fuel for each character that is left, a parser function returns, and no longer rest than it was given.\<close>

definition parses :: "nat \<Rightarrow> (word_ptr cmd \<times> u8 list) parsed option \<Rightarrow> bool" where
  "parses l r = (case r of None \<Rightarrow> False | Some (Inl e) \<Rightarrow> True | Some (Inr (c, t)) \<Rightarrow> length t \<le> l)"

lemma parses_simps [simp]:
  "\<not> parses l None" "parses l (Some (Inl e))" "parses l (Some (Inr (c, t))) = (length t \<le> l)"
  by (simp_all add: parses_def)

lemma parses_pbind:
  assumes "parses l r" and "\<And>c t. length t \<le> l \<Longrightarrow> parses m (k (c, t))"
  shows "parses m (pbind r k)"
  using assms by (cases "(r, k)" rule: pbind.cases) (auto simp: parses_def)

lemma parses_parseredirs:
  assumes "length s \<le> l" shows "parses l (pbind (Some (parseredirs s)) (\<lambda>(rs, s). Some (Inr (wrap c rs, s))))"
  using assms parseredirs_le[of s] by (cases "parseredirs s") (fastforce dest: order.trans)+

lemma parses_mono: "parses l r \<Longrightarrow> l \<le> m \<Longrightarrow> parses m r"
  by (auto simp: parses_def split: option.splits sum.splits prod.splits)

lemma parses_map: "parses l r \<Longrightarrow> l \<le> m \<Longrightarrow> parses m (pbind r (\<lambda>(d, u). Some (Inr (f d, u))))"
  by (rule parses_pbind[of l]) auto

lemma parses_args:
  "length s \<le> l \<Longrightarrow> parses l (pbind (Some (parse_args 0 s)) (\<lambda>(as, rs', s). Some (Inr (f as rs', s))))"
  using parse_args_le[of 0 s] by (cases "parse_args 0 s") (fastforce dest: order.trans)+

lemma parses_simple:
  assumes "length s \<le> l"
  shows "parses l (pbind (Some (parseredirs s)) (\<lambda>(rs, s). pbind (Some (parse_args 0 s)) (\<lambda>(as, rs', s). Some (Inr (f rs as rs', s)))))"
proof (cases "parseredirs s")
  case (Inr p)
  obtain rs t where p: "p = (rs, t)" by (cases p)
  then have "length t \<le> l" using parseredirs_le[of s rs t] assms Inr by simp
  then show ?thesis using parses_args[of t l "f rs"] by (simp add: Inr p)
qed simp

lemma parser_returns:
  "(4 * length s + 4 \<le> n \<longrightarrow> parses (length s) (parseline n s))
   \<and> (4 * length s + 3 \<le> n \<longrightarrow> parses (length s) (parsepipe n s))
   \<and> (4 * length s + 2 \<le> n \<longrightarrow> parses (length s) (parseexec n s))
   \<and> (4 * length s + 1 \<le> n \<longrightarrow> parses (length s) (parseblock n s))"
proof (induction n arbitrary: s)
  case 0
  then show ?case by simp
next
  case (Suc n)
  have line: "parses (length s) (parseline (Suc n) s)" if n: "4 * length s + 4 \<le> Suc n"
    unfolding parseline.simps
  proof (rule parses_pbind[of "length s"], goal_cases)
    case 1
    then show ?case using Suc[of s] n by simp
  next
    case (2 c t)
    obtain c1 s1 where b: "back_loop c t = (c1, s1)" by (cases "back_loop c t")
    obtain x s2 where p: "peek s1 [59] = (x, s2)" by (cases "peek s1 [59]")
    obtain r q e s3 where g: "gettoken s2 = (r, q, e, s3)" by (cases "gettoken s2")
    have le: "length s1 \<le> length s" "length s2 \<le> length s" using back_loop_le[OF b] peek_le[OF p] 2 by simp_all
    have "parses (length s) (pbind (parseline n s3) (\<lambda>(d, u). Some (Inr (Listcmd c1 d, u))))" if x
      using peek_gettoken_less[of s1 "[59]" s2 r q e s3] p g that le Suc[of s3] n by (intro parses_map[of "length s3"]) simp_all
    then show ?case using le by (simp add: b p g)
  qed
  have pipe: "parses (length s) (parsepipe (Suc n) s)" if n: "4 * length s + 3 \<le> Suc n"
    unfolding parsepipe.simps
  proof (rule parses_pbind[of "length s"], goal_cases)
    case 1
    then show ?case using Suc[of s] n by simp
  next
    case (2 c t)
    obtain x s2 where p: "peek t [124] = (x, s2)" by (cases "peek t [124]")
    obtain r q e s3 where g: "gettoken s2 = (r, q, e, s3)" by (cases "gettoken s2")
    have "parses (length s) (pbind (parsepipe n s3) (\<lambda>(d, u). Some (Inr (Pipecmd c d, u))))" if x
      using peek_gettoken_less[of t "[124]" s2 r q e s3] p g that 2 Suc[of s3] n by (intro parses_map[of "length s3"]) simp_all
    then show ?case using peek_le[OF p] 2 by (simp add: p g)
  qed
  have exec: "parses (length s) (parseexec (Suc n) s)" if n: "4 * length s + 2 \<le> Suc n"
  proof -
    obtain x s1 where p: "peek s [40] = (x, s1)" by (cases "peek s [40]")
    have le: "length s1 \<le> length s" by (rule peek_le[OF p])
    have "parses (length s) (parseblock n s1)" by (rule parses_mono[of "length s1"]) (use Suc[of s1] n le in simp_all)
    then show ?thesis using parses_simple[OF le, of "\<lambda>rs as rs'. wrap (Execcmd as) (rs @ rs')"] by (simp add: p)
  qed
  have block: "parses (length s) (parseblock (Suc n) s)" if n: "4 * length s + 1 \<le> Suc n"
  proof -
    obtain x s1 where p: "peek s [40] = (x, s1)" by (cases "peek s [40]")
    obtain r q e s2 where g: "gettoken s1 = (r, q, e, s2)" by (cases "gettoken s1")
    have "parses (length s) (pbind (parseline n s2) (\<lambda>(c, s). case peek s [41] of (b, s) \<Rightarrow>
            if \<not> b then Some (Inl (None, ''syntax - missing )''))
            else case gettoken s of (_, _, _, s) \<Rightarrow>
              pbind (Some (parseredirs s)) (\<lambda>(rs, s). Some (Inr (wrap c rs, s)))))" if x
    proof (rule parses_pbind[of "length s"], goal_cases)
      case 1
      show ?case by (rule parses_mono[of "length s2"]) (use peek_gettoken_less[of s "[40]" s1 r q e s2] p g that Suc[of s2] n in simp_all)
    next
      case (2 c t)
      obtain y t1 where p: "peek t [41] = (y, t1)" by (cases "peek t [41]")
      obtain r q e t2 where g: "gettoken t1 = (r, q, e, t2)" by (cases "gettoken t1")
      show ?case using parses_parseredirs[of t2 "length s" c] peek_le[OF p] gettoken_le[OF g] 2 by (simp add: p g)
    qed
    then show ?thesis by (simp add: p g)
  qed
  show ?case using line pipe exec block by blast
qed

text \<open>C38: The parser of the shell ends on every line, within a recursion depth of four calls for each of its characters.\<close>

theorem parsecmd_returns: "parsecmd buf \<noteq> None"
proof -
  let ?s = "cstr buf"
  have r: "parses (length ?s) (parseline (parse_fuel ?s) ?s)" using parser_returns[of ?s "parse_fuel ?s"] by (simp add: parse_fuel_def)
  show ?thesis
    using r by (cases "(parseline (parse_fuel ?s) ?s, \<lambda>x::word_ptr cmd \<times> u8 list. None::(word_ptr cmd \<times> u8 list) parsed option)" rule: pbind.cases)
      (auto simp: parsecmd_def Let_def split: prod.splits)
qed

subsection \<open>Well-formed commands\<close>

definition word_char :: "u8 \<Rightarrow> bool" where
  "word_char c = (c \<noteq> 0 \<and> \<not> in_str whitespace c \<and> \<not> in_str symbols c)"

text \<open>A word is a longest run of characters of the line that are neither white nor symbols, and not empty.\<close>

fun word_in :: "u8 list \<Rightarrow> word_ptr \<Rightarrow> bool" where
  "word_in s (q, eq) = (suffix q s \<and> q \<noteq> [] \<and> word_char (hd q) \<and> eq = skip_word q)"

fun word_text :: "word_ptr \<Rightarrow> u8 list" where
  "word_text (q, eq) = take (length q - length eq) q"

definition redir_ok :: "u32 \<Rightarrow> int \<Rightarrow> bool" where
  "redir_ok mode fd = (mode = O_RDONLY_sh \<and> fd = 0 \<or> mode = O_WRCREATE_sh \<and> fd = 1)"

fun wf_cmd :: "('w \<Rightarrow> bool) \<Rightarrow> 'w cmd \<Rightarrow> bool" where
  "wf_cmd P (Execcmd as) = (length as < MAXARGS \<and> list_all P as)"
| "wf_cmd P (Redircmd c w mode fd) = (wf_cmd P c \<and> P w \<and> redir_ok mode fd)"
| "wf_cmd P (Pipecmd c d) = (wf_cmd P c \<and> wf_cmd P d)"
| "wf_cmd P (Listcmd c d) = (wf_cmd P c \<and> wf_cmd P d)"
| "wf_cmd P (Backcmd c) = wf_cmd P c"

lemma suffix_skip [simp]: "suffix (skip_white s) s" "suffix (skip_word s) s"
  by (induction s) (auto simp: suffix_ConsI)

lemma suffix_through:
  assumes "suffix t s" shows "suffix (skip_white t) s" "suffix (skip_word t) s" "suffix (tl t) s"
  using assms suffix_skip[of t] suffix_order.trans suffix_tl[of t] by blast+

lemma peek_suffix: "peek s toks = (b, t) \<Longrightarrow> suffix t s"
  by (auto simp: peek_def Let_def)

lemma gettoken_suffix: "gettoken s = (r, q, e, t) \<Longrightarrow> suffix t s \<and> suffix q s"
  by (auto simp: gettoken_def Let_def suffix_through split: if_splits)

lemma deref_skip_white: "deref (skip_white s) \<noteq> 0 \<Longrightarrow> \<not> in_str whitespace (deref (skip_white s))"
  by (induction s) auto

lemma gettoken_word:
  assumes "gettoken s = (97, q, e, t)" shows "word_in s (q, e)"
proof -
  have "q = skip_white s" "deref q \<noteq> 0" "e = skip_word q" "\<not> in_str symbols (deref q)"
    using assms by (auto simp: gettoken_def Let_def in_str_def symbols_def split: if_splits)
  moreover from this(2) have "q \<noteq> []" "deref q = hd q" by (auto simp: deref_def split: list.splits)
  ultimately show ?thesis using deref_skip_white[of s] by (simp add: word_char_def)
qed

lemma word_in_suffix: "word_in s w \<Longrightarrow> suffix s s0 \<Longrightarrow> word_in s0 w"
  by (cases w) (auto intro: suffix_order.trans)

definition redirs_ok :: "u8 list \<Rightarrow> redirs \<Rightarrow> bool" where
  "redirs_ok s rs = list_all (\<lambda>(w, mode, fd). word_in s w \<and> redir_ok mode fd) rs"

lemma redirs_ok_simps [simp]:
  "redirs_ok s []" "redirs_ok s ((w, mode, fd) # rs) = (word_in s w \<and> redir_ok mode fd \<and> redirs_ok s rs)"
  "redirs_ok s (rs @ rs') = (redirs_ok s rs \<and> redirs_ok s rs')"
  by (auto simp: redirs_ok_def)

lemma wf_wrap: "wf_cmd (word_in s) c \<Longrightarrow> redirs_ok s rs \<Longrightarrow> wf_cmd (word_in s) (wrap c rs)"
  by (induction rs arbitrary: c) (auto simp: wrap_def)

lemma parseredirs_ok: "parseredirs s = Inr (rs, s') \<Longrightarrow> suffix s s0 \<Longrightarrow> suffix s' s0 \<and> redirs_ok s0 rs"
proof (induction s arbitrary: rs s' rule: parseredirs.induct)
  case (1 s)
  obtain b s1 where p: "peek s [60, 62] = (b, s1)" by (cases "peek s [60, 62]")
  obtain t q0 e0 s2 where g1: "gettoken s1 = (t, q0, e0, s2)" by (cases "gettoken s1")
  obtain r q e s3 where g2: "gettoken s2 = (r, q, e, s3)" by (cases "gettoken s2")
  have sf: "suffix s1 s0" "suffix s2 s0" "suffix s3 s0"
    using peek_suffix[OF p] gettoken_suffix[OF g1] gettoken_suffix[OF g2] 1(3) by (blast intro: suffix_order.trans)+
  show ?case
  proof (cases "b \<and> r = 97")
    case False
    then show ?thesis using 1(2) sf by (subst (asm) parseredirs.simps) (auto simp: p g1 g2 split: if_splits)
  next
    case True
    then obtain rs' where rs': "parseredirs s3 = Inr (rs', s')"
      using 1(2) by (subst (asm) parseredirs.simps) (auto simp: p g1 g2 split: if_splits sum.splits)
    from 1(1)[OF p[symmetric] _ g1[symmetric] refl refl g2[symmetric] refl refl _ this sf(3)] True
    have ih: "suffix s' s0 \<and> redirs_ok s0 rs'" by simp
    have "word_in s0 (q, e)" using gettoken_word[of s2 q e s3] g2 True sf(2) by (blast intro: word_in_suffix)
    then show ?thesis
      using ih 1(2) True rs' by (subst (asm) parseredirs.simps) (auto simp: p g1 g2 redir_ok_def split: if_splits)
  qed
qed

lemma parse_args_ok:
  "\<lbrakk>parse_args n s = Inr (as, rs, s'); suffix s s0; n < MAXARGS\<rbrakk>
   \<Longrightarrow> suffix s' s0 \<and> redirs_ok s0 rs \<and> n + length as < MAXARGS \<and> list_all (word_in s0) as"
proof (induction n s arbitrary: as rs s' rule: parse_args.induct)
  case (1 argc s)
  obtain b s1 where p: "peek s [124, 41, 38, 59] = (b, s1)" by (cases "peek s [124, 41, 38, 59]")
  obtain t q e s2 where g: "gettoken s1 = (t, q, e, s2)" by (cases "gettoken s1")
  have sf: "suffix s1 s0" "suffix s2 s0" using peek_suffix[OF p] gettoken_suffix[OF g] 1(3) by (blast intro: suffix_order.trans)+
  show ?case
  proof (cases "b \<or> t = 0")
    case True
    then show ?thesis using 1(2,4) sf by (subst (asm) parse_args.simps) (auto simp: p g split: if_splits)
  next
    case False
    then have t: "t = 97" "\<not> argc + 1 \<ge> MAXARGS"
      using 1(2) by (subst (asm) parse_args.simps; simp add: p g split: if_splits)+
    then obtain rs1 s3 as1 rs2 where *: "parseredirs s2 = Inr (rs1, s3)" "parse_args (argc + 1) s3 = Inr (as1, rs2, s')"
        and as: "as = (q, e) # as1" "rs = rs1 @ rs2"
      using False 1(2) by (subst (asm) parse_args.simps) (auto simp: p g split: sum.splits)
    have "word_in s0 (q, e)" using gettoken_word[of s1 q e s2] g t sf(1) by (blast intro: word_in_suffix)
    then show ?thesis
      using 1(1)[OF p[symmetric] _ g[symmetric] refl refl _ _ _ *(1) refl *(2)] t False parseredirs_ok[OF *(1) sf(2)]
      by (simp add: as)
  qed
qed

lemma back_loop_ok: "\<lbrakk>back_loop c s = (c', s'); suffix s s0; wf_cmd P c\<rbrakk> \<Longrightarrow> suffix s' s0 \<and> wf_cmd P c'"
proof (induction c s rule: back_loop.induct)
  case (1 c s)
  obtain b s1 where p: "peek s [38] = (b, s1)" by (cases "peek s [38]")
  obtain t q e s2 where g: "gettoken s1 = (t, q, e, s2)" by (cases "gettoken s1")
  have sf: "suffix s1 s0" "suffix s2 s0" using peek_suffix[OF p] gettoken_suffix[OF g] 1(3) by (blast intro: suffix_order.trans)+
  show ?case
    using 1 sf by (subst (asm) (2) back_loop.simps) (fastforce simp: p g split: if_splits)
qed

definition yields :: "('a \<Rightarrow> bool) \<Rightarrow> 'a parsed option \<Rightarrow> bool" where
  "yields P r = (\<forall>x. r = Some (Inr x) \<longrightarrow> P x)"

lemma yields_simps [simp]: "yields P None" "yields P (Some (Inl e))" "yields P (Some (Inr x)) = P x"
  by (auto simp: yields_def)

lemma yields_pbind: "\<lbrakk>yields P r; \<And>x. P x \<Longrightarrow> yields Q (k x)\<rbrakk> \<Longrightarrow> yields Q (pbind r k)"
  by (cases "(r, k)" rule: pbind.cases) (auto simp: yields_def)

definition good_rest :: "u8 list \<Rightarrow> word_ptr cmd \<times> u8 list \<Rightarrow> bool" where
  "good_rest s = (\<lambda>(c, t). wf_cmd (word_in s) c \<and> suffix t s)"

lemma good_rest_simp [simp]: "good_rest s (c, t) = (wf_cmd (word_in s) c \<and> suffix t s)"
  by (simp add: good_rest_def)

lemma yields_redirs: "suffix s s0 \<Longrightarrow> yields (\<lambda>(rs, t). redirs_ok s0 rs \<and> suffix t s0) (Some (parseredirs s))"
  using parseredirs_ok[of s] by (auto simp: yields_def)

lemma yields_args:
  "suffix s s0 \<Longrightarrow> yields (\<lambda>(as, rs, t). wf_cmd (word_in s0) (Execcmd as) \<and> redirs_ok s0 rs \<and> suffix t s0) (Some (parse_args 0 s))"
  using parse_args_ok[of 0 s] by (fastforce simp: yields_def MAXARGS_def)

lemma peek_trans: "peek s toks = (b, t) \<Longrightarrow> suffix s s0 \<Longrightarrow> suffix t s0"
  using peek_suffix suffix_order.trans by blast

lemma gettoken_trans: "gettoken s = (r, q, e, t) \<Longrightarrow> suffix s s0 \<Longrightarrow> suffix t s0"
  using gettoken_suffix suffix_order.trans by blast

lemmas suffix_steps = peek_trans[OF HOL.sym] gettoken_trans[OF HOL.sym]

lemma parser_good:
  "suffix s s0 \<Longrightarrow> yields (good_rest s0) (parseline n s) \<and> yields (good_rest s0) (parsepipe n s)
   \<and> yields (good_rest s0) (parseexec n s) \<and> yields (good_rest s0) (parseblock n s)"
proof (induction n arbitrary: s)
  case 0
  then show ?case by simp
next
  case (Suc n)
  have line: "yields (good_rest s0) (parseline (Suc n) s)"
    unfolding parseline.simps
  proof (rule yields_pbind[of "good_rest s0"], goal_cases)
    case (2 x)
    obtain c t where x: "x = (c, t)" by (cases x)
    obtain c1 s1 where b: "back_loop c t = (c1, s1)" by (cases "back_loop c t")
    have ok: "suffix s1 s0" "wf_cmd (word_in s0) c1" using back_loop_ok[OF b, of s0 "word_in s0"] 2 x by auto
    obtain y s2 where p: "peek s1 [59] = (y, s2)" by (cases "peek s1 [59]")
    obtain r q e s3 where g: "gettoken s2 = (r, q, e, s3)" by (cases "gettoken s2")
    have s3: "suffix s2 s0" "suffix s3 s0" using peek_trans[OF p] gettoken_trans[OF g] ok by blast+
    have "yields (good_rest s0) (pbind (parseline n s3) (\<lambda>(d, u). Some (Inr (Listcmd c1 d, u))))"
      using Suc.IH[OF s3(2)] ok by (intro yields_pbind[of "good_rest s0"]) auto
    then show ?case using ok s3 by (simp add: x b p g)
  qed (use Suc in simp)
  have pipe: "yields (good_rest s0) (parsepipe (Suc n) s)"
    unfolding parsepipe.simps
  proof (rule yields_pbind[of "good_rest s0"], goal_cases)
    case (2 x)
    obtain c t where x: "x = (c, t)" by (cases x)
    obtain y s2 where p: "peek t [124] = (y, s2)" by (cases "peek t [124]")
    obtain r q e s3 where g: "gettoken s2 = (r, q, e, s3)" by (cases "gettoken s2")
    have s3: "suffix s2 s0" "suffix s3 s0" using peek_trans[OF p] gettoken_trans[OF g] 2 x by auto
    have "yields (good_rest s0) (pbind (parsepipe n s3) (\<lambda>(d, u). Some (Inr (Pipecmd c d, u))))"
      using Suc.IH[OF s3(2)] 2 x by (intro yields_pbind[of "good_rest s0"]) auto
    then show ?case using s3 2 by (simp add: x p g)
  qed (use Suc in simp)
  have exec: "yields (good_rest s0) (parseexec (Suc n) s)"
  proof -
    obtain y s1 where p: "peek s [40] = (y, s1)" by (cases "peek s [40]")
    have s1: "suffix s1 s0" using peek_trans[OF p] Suc by blast
    have "yields (good_rest s0) (pbind (Some (parseredirs s1)) (\<lambda>(rs, s). pbind (Some (parse_args 0 s)) (\<lambda>(as, rs', s).
          Some (Inr (wrap (Execcmd as) (rs @ rs'), s)))))"
      by (rule yields_pbind[OF yields_redirs[OF s1]], clarify, rule yields_pbind[OF yields_args[of _ s0]], assumption)
        (auto simp: wf_wrap)
    then show ?thesis using Suc.IH[OF s1] by (simp add: p)
  qed
  have block: "yields (good_rest s0) (parseblock (Suc n) s)"
  proof -
    obtain x s1 where p: "peek s [40] = (x, s1)" by (cases "peek s [40]")
    obtain r q e s2 where g: "gettoken s1 = (r, q, e, s2)" by (cases "gettoken s1")
    have s2: "suffix s2 s0" using peek_trans[OF p] gettoken_trans[OF g] Suc by blast
    have "yields (good_rest s0) (pbind (parseline n s2) (\<lambda>(c, s). case peek s [41] of (b, s) \<Rightarrow>
            if \<not> b then Some (Inl (None, ''syntax - missing )''))
            else case gettoken s of (_, _, _, s) \<Rightarrow>
              pbind (Some (parseredirs s)) (\<lambda>(rs, s). Some (Inr (wrap c rs, s)))))"
    proof (rule yields_pbind[of "good_rest s0"], goal_cases)
      case (2 x)
      obtain c t where x: "x = (c, t)" by (cases x)
      obtain y t1 where p: "peek t [41] = (y, t1)" by (cases "peek t [41]")
      obtain r q e t2 where g: "gettoken t1 = (r, q, e, t2)" by (cases "gettoken t1")
      have t2: "suffix t2 s0" using peek_trans[OF p] gettoken_trans[OF g] 2 x by auto
      have "yields (good_rest s0) (pbind (Some (parseredirs t2)) (\<lambda>(rs, s). Some (Inr (wrap c rs, s))))"
        by (rule yields_pbind[OF yields_redirs[OF t2]]) (use 2 x in \<open>auto simp: wf_wrap\<close>)
      then show ?case by (simp add: x p g)
    qed (use Suc.IH[OF s2] in simp)
    then show ?thesis by (simp add: p g)
  qed
  show ?case using line pipe exec block by blast
qed

lemma parsecmd_accepts:
  assumes "parsecmd buf = Some (Inr (c, buf'))"
  shows "\<exists>t. parseline (parse_fuel (cstr buf)) (cstr buf) = Some (Inr (c, t))" and "buf' = nulterminate (length (cstr buf)) c buf"
  using assms
  by (cases "(parseline (parse_fuel (cstr buf)) (cstr buf), \<lambda>x::word_ptr cmd \<times> u8 list. None::(word_ptr cmd \<times> u8 list) parsed option)" rule: pbind.cases;
      auto simp: parsecmd_def Let_def split: prod.splits if_splits)+

text \<open>C37: Every command the shell accepts is well formed: a simple command has fewer than ten arguments, each argument and each
  file of a redirection is a whole word of the line, without white space or symbols and not empty, and a redirection
  opens descriptor 0 for reading or descriptor 1 for writing with creation.\<close>

theorem parsecmd_wf: "parsecmd buf = Some (Inr (c, buf')) \<Longrightarrow> wf_cmd (word_in (cstr buf)) c"
  using parser_good[of "cstr buf" "cstr buf" "parse_fuel (cstr buf)"] by (auto dest: parsecmd_accepts(1))

subsection \<open>The strings of a parsed command\<close>

text \<open>\<open>nulterminate\<close> clears exactly the characters behind the words.\<close>

definition zero_at :: "nat set \<Rightarrow> u8 list \<Rightarrow> u8 list" where
  "zero_at I buf = map (\<lambda>i. if i \<in> I then 0 else buf ! i) [0..<length buf]"

lemma zero_at_nth: "i < length buf \<Longrightarrow> zero_at I buf ! i = (if i \<in> I then 0 else buf ! i)"
  by (simp add: zero_at_def)

lemma zero_at_length [simp]: "length (zero_at I buf) = length buf"
  by (simp add: zero_at_def)

lemma zero_at_empty [simp]: "zero_at {} buf = buf"
  by (simp add: zero_at_def map_nth)

lemma zero_at_update [simp]: "(zero_at I buf)[k := 0] = zero_at (insert k I) buf"
proof (rule nth_equalityI)
  fix i assume "i < length ((zero_at I buf)[k := 0])"
  then show "(zero_at I buf)[k := 0] ! i = zero_at (insert k I) buf ! i" by (cases "k = i") (simp_all add: zero_at_nth)
qed simp

lemma zero_at_un [simp]: "zero_at I (zero_at J buf) = zero_at (J \<union> I) buf"
  by (auto intro!: nth_equalityI simp: zero_at_nth)

definition word_ends :: "nat \<Rightarrow> word_ptr set \<Rightarrow> nat set" where
  "word_ends n W = (\<lambda>(q, eq). n - length eq) ` W"

lemma word_ends_simps [simp]:
  "word_ends n {} = {}" "word_ends n (insert (q, e) W) = insert (n - length e) (word_ends n W)"
  "word_ends n (V \<union> W) = word_ends n V \<union> word_ends n W"
  by (auto simp: word_ends_def)

lemma nul_words_zero: "nul_words n ws buf = zero_at (word_ends n (set ws)) buf"
proof (induction n ws buf rule: nul_words.induct)
  case (2 n q eq ws buf)
  have "buf[n - length eq := 0] = zero_at {n - length eq} buf" using zero_at_update[of "{}" buf] by simp
  then show ?case using 2 by simp
qed simp

lemma nulterminate_zero: "nulterminate n c buf = zero_at (word_ends n (set_cmd c)) buf"
  by (induction n c buf rule: nulterminate.induct) (simp_all add: nul_words_zero Un_commute)

lemma skip_word_eq: "0 \<notin> set s \<Longrightarrow> skip_word s = dropWhile word_char s"
  by (induction s) (auto simp: word_char_def)

lemma word_text_eq: "0 \<notin> set q \<Longrightarrow> word_text (q, skip_word q) = takeWhile word_char q"
proof -
  assume z: "0 \<notin> set q"
  have "length q = length (takeWhile word_char q) + length (dropWhile word_char q)"
    using arg_cong[OF takeWhile_dropWhile_id[of word_char q], of length] by (simp del: takeWhile_dropWhile_id)
  then have "length q - length (skip_word q) = length (takeWhile word_char q)" by (simp add: skip_word_eq z)
  then show ?thesis by (simp add: takeWhile_eq_take[symmetric])
qed

text \<open>A word of the line can be read as a string from the buffer once characters behind words of the line are cleared.\<close>

lemma cstr_zero_at:
  assumes "\<And>i. i < length w \<Longrightarrow> p + i \<notin> I" and "p + length w \<in> I" and "p + length w < length buf"
    and "take (length w) (drop p buf) = w" and "0 \<notin> set w"
  shows "cstr (drop p (zero_at I buf)) = w"
proof -
  have "w ! i = buf ! (p + i)" if "i < length w" for i
    using that assms(3) by (subst assms(4)[symmetric]) simp
  then have "take (length w) (drop p (zero_at I buf)) = w"
    using assms(1,3) by (intro nth_equalityI) (simp_all add: zero_at_nth)
  moreover have "drop p (zero_at I buf) ! length w = 0" using assms(2,3) by (simp add: zero_at_nth)
  ultimately have "drop p (zero_at I buf) = w @ 0 # drop (Suc (length w)) (drop p (zero_at I buf))"
    using assms(3) id_take_nth_drop[of "length w" "drop p (zero_at I buf)"] by simp
  then show ?thesis using assms(5) cstr_upto by metis
qed

lemma wf_cmd_words: "wf_cmd P c \<Longrightarrow> w \<in> set_cmd c \<Longrightarrow> P w"
  by (induction c) (auto simp: list_all_iff)

lemma parsecmd_words:
  assumes "parsecmd buf = Some (Inr (c, buf'))" and "w \<in> set_cmd c" shows "word_in (cstr buf) w"
proof -
  obtain t where "parseline (parse_fuel (cstr buf)) (cstr buf) = Some (Inr (c, t))" using parsecmd_accepts(1)[OF assms(1)] by blast
  then have "wf_cmd (word_in (cstr buf)) c" using parser_good[of "cstr buf" "cstr buf" "parse_fuel (cstr buf)"] by simp
  then show ?thesis using assms(2) by (rule wf_cmd_words)
qed

lemma cstr_split: "0 \<in> set buf \<Longrightarrow> \<exists>r. buf = cstr buf @ 0 # r"
  by (induction buf) (auto split: if_splits)

lemma cstr_no_zero: "0 \<notin> set (cstr buf)"
  by (auto simp: cstr_def dest: set_takeWhileD)

lemma word_end_char:
  assumes "word_in s (q, eq)" and "0 \<notin> set s"
  shows "\<not> word_char ((s @ 0 # r) ! (length s - length eq))"
proof -
  from assms have z: "0 \<notin> set q" by (auto dest: set_mono_suffix)
  have "suffix eq s" and e: "eq = dropWhile word_char q"
    using assms by (auto simp flip: skip_word_eq[OF z] intro: suffix_order.trans[OF suffix_skip(2)])
  then obtain p where p: "s = p @ eq" by (auto simp: suffix_def)
  show ?thesis
  proof (cases eq)
    case Nil
    then show ?thesis by (simp add: word_char_def)
  next
    case (Cons a l)
    then have "\<not> word_char a" using hd_dropWhile[of word_char q] e by (metis list.discI list.sel(1))
    then show ?thesis by (simp add: Cons p nth_append)
  qed
qed

definition string_at :: "nat \<Rightarrow> u8 list \<Rightarrow> word_ptr \<Rightarrow> u8 list" where
  "string_at n buf = (\<lambda>(q, eq). cstr (drop (n - length q) buf))"

lemma parsed_strings:
  assumes "parsecmd buf = Some (Inr (c, buf'))" and "0 \<in> set buf"
  shows "map_cmd (string_at (length (cstr buf)) buf') c = map_cmd word_text c"
proof (rule cmd.map_cong0)
  let ?s = "cstr buf"
  let ?I = "word_ends (length ?s) (set_cmd c)"
  obtain r where r: "buf = ?s @ 0 # r" using cstr_split[OF assms(2)] by blast
  have b': "buf' = zero_at ?I buf" using parsecmd_accepts(2)[OF assms(1)] by (simp add: nulterminate_zero)
  have ends: "\<not> word_char (buf ! i)" if i: "i \<in> ?I" for i
  proof -
    obtain q' e' where "(q', e') \<in> set_cmd c" "i = length ?s - length e'" using i by (auto simp: word_ends_def)
    then show ?thesis using word_end_char[OF parsecmd_words[OF assms(1)] cstr_no_zero, of q' e' r] r by simp
  qed
  fix w assume w: "w \<in> set_cmd c"
  obtain q e where qe: "w = (q, e)" by (cases w)
  have wi: "word_in ?s (q, e)" using parsecmd_words[OF assms(1) w] qe by simp
  then obtain p where p: "?s = p @ q" by (auto simp: suffix_def)
  have z: "0 \<notin> set q" using cstr_no_zero[of buf] p by (metis Un_iff set_append)
  let ?w = "takeWhile word_char q"
  have q: "q = ?w @ e" using wi z by (simp add: skip_word_eq)
  have len: "length ?s - length q = length p" "length ?s - length e = length p + length ?w" "length p + length ?w < length buf"
    using arg_cong[OF p, of length] arg_cong[OF q, of length] arg_cong[OF r, of length] by simp_all
  have at: "buf ! (length p + i) = ?w ! i" if "i < length ?w" for i
    by (subst r, subst p, subst q) (simp add: nth_append that)
  have "cstr (drop (length p) buf') = ?w"
    unfolding b'
  proof (rule cstr_zero_at)
    show "length p + i \<notin> ?I" if "i < length ?w" for i
      using ends[of "length p + i"] at[OF that] nth_mem[OF that] set_takeWhileD[of _ word_char q] by auto
    show "length p + length ?w \<in> ?I" using w qe len(2) by (force simp: word_ends_def)
    show "take (length ?w) (drop (length p) buf) = ?w"
      using len(3) at by (intro nth_equalityI) (simp_all add: add.commute)
    show "0 \<notin> set ?w" using z by (auto dest: set_takeWhileD)
  qed (rule len(3))
  then show "string_at (length ?s) buf' w = word_text w"
    using len(1) wi word_text_eq[OF z] by (simp add: qe string_at_def)
qed

text \<open>C36: When the parser accepts a line, every argument and file name, read as a string from the line after \<open>nulterminate\<close>, is
  exactly the text of its word, even though the ends of all words are cleared in the same buffer.\<close>

theorem parsecmd_strings:
  "\<lbrakk>parsecmd buf = Some (Inr (c, buf')); 0 \<in> set buf\<rbrakk>
   \<Longrightarrow> map_cmd (string_at (length (cstr buf)) buf') c = map_cmd word_text c"
  by (rule parsed_strings)

definition demo_line :: "u8 list" where
  "demo_line = chars ''a bc<d|(e;f)&'' @ [10, 0]"

lemma demo_line_parses: "case parsecmd demo_line of Some (Inr (c, b)) \<Rightarrow>
    map_cmd word_text c =
      Backcmd (Pipecmd (Redircmd (Execcmd [chars ''a'', chars ''bc'']) (chars ''d'') O_RDONLY_sh 0)
        (Listcmd (Execcmd [chars ''e'']) (Execcmd [chars ''f'']))) | _ \<Rightarrow> False"
  by code_simp

theorem parsecmd_wf_witness:
  "case parsecmd demo_line of Some (Inr (c, b)) \<Rightarrow> wf_cmd (word_in (cstr demo_line)) c | _ \<Rightarrow> False"
  using demo_line_parses parsecmd_wf[of demo_line] by (auto split: option.splits sum.splits)

theorem parsecmd_strings_witness:
  "case parsecmd demo_line of Some (Inr (c, b)) \<Rightarrow>
     map_cmd (string_at (length (cstr demo_line)) b) c =
       Backcmd (Pipecmd (Redircmd (Execcmd [chars ''a'', chars ''bc'']) (chars ''d'') O_RDONLY_sh 0)
         (Listcmd (Execcmd [chars ''e'']) (Execcmd [chars ''f'']))) | _ \<Rightarrow> False"
proof -
  have "0 \<in> set demo_line" by (simp add: demo_line_def)
  then show ?thesis using demo_line_parses parsecmd_strings[of demo_line] by (auto split: option.splits sum.splits)
qed

end
