(* ===== verification/Shellrt.thy ===== *)
theory Shellrt
  imports Shell
begin

text \<open>
  The round trip of the shell: a command is printed with all parentheses, and what \<^verbatim>\<open>parsecmd\<close> of \<^verbatim>\<open>sh.c\<close> makes of the line is
  the command again.
\<close>

subsection \<open>Printing a command and parsing it again\<close>

text \<open>The text of a command, with all parentheses.\<close>

fun show_cmd :: "u8 list cmd \<Rightarrow> u8 list" where
  "show_cmd (Execcmd ws) = concat (map (\<lambda>w. 32 # w) ws)"
| "show_cmd (Redircmd c w mode fd) = 40 # show_cmd c @ 41 # (if fd = 0 then 60 else 62) # w"
| "show_cmd (Pipecmd c d) = 40 # show_cmd c @ [41, 124, 40] @ show_cmd d @ [41]"
| "show_cmd (Listcmd c d) = 40 # show_cmd c @ [41, 59, 40] @ show_cmd d @ [41]"
| "show_cmd (Backcmd c) = 40 # show_cmd c @ [41, 38]"

definition word :: "u8 list \<Rightarrow> bool" where
  "word w = (w \<noteq> [] \<and> list_all word_char w)"

text \<open>What may follow a command: the end of the line or a closing parenthesis.\<close>

definition closed :: "u8 list \<Rightarrow> bool" where
  "closed r = (r = [] \<or> hd r = 41)"

lemma in_str_white: "in_str whitespace c \<longleftrightarrow> c \<in> {32, 9, 13, 10, 11}"
  by (auto simp: in_str_def whitespace_def)

lemma in_str_symbols: "in_str symbols c \<longleftrightarrow> c \<in> {60, 124, 62, 38, 59, 40, 41}"
  by (auto simp: in_str_def symbols_def)

lemma skip_white_stop [simp]: "\<not> in_str whitespace (hd s) \<Longrightarrow> skip_white s = s"
  by (cases s) auto

lemma skip_word_word: "list_all word_char w \<Longrightarrow> \<not> word_char (deref r) \<Longrightarrow> deref r \<noteq> 0 \<or> r = [] \<Longrightarrow> skip_word (w @ r) = r"
  by (induction w) (cases r; auto simp: word_char_def)+

lemma gettoken_of_word:
  assumes "word w" and "\<not> word_char (deref r)" and "deref r \<noteq> 0 \<or> r = []"
  shows "gettoken (w @ r) = (97, w @ r, r, skip_white r)"
proof -
  obtain c v where w: "w = c # v" "word_char c" using assms(1) by (cases w) (auto simp: word_def)
  then have "skip_word (c # v @ r) = r" using skip_word_word[of w r] assms by (simp add: word_def)
  moreover have "c \<noteq> 0" "c \<noteq> 124 \<and> c \<noteq> 40 \<and> c \<noteq> 41 \<and> c \<noteq> 59 \<and> c \<noteq> 38 \<and> c \<noteq> 60 \<and> c \<noteq> 62" "skip_white (c # v @ r) = c # v @ r"
    using w(2) by (simp_all add: word_char_def in_str_symbols)
  ultimately show ?thesis by (simp add: gettoken_def Let_def w(1))
qed

lemma gettoken_symbol: "c \<in> {124, 40, 41, 59, 38, 60} \<Longrightarrow> gettoken (c # s) = (c, c # s, s, skip_white s)"
proof -
  assume c: "c \<in> {124, 40, 41, 59, 38, 60}"
  then have "\<not> in_str whitespace c" "c \<noteq> 0" by (auto simp: in_str_white)
  then show ?thesis using c by (simp add: gettoken_def Let_def)
qed

lemma peek_simps:
  "peek [] toks = (False, [])"
  "\<not> in_str whitespace c \<Longrightarrow> peek (c # s) toks = (c \<noteq> 0 \<and> in_str toks c, c # s)"
  by (simp_all add: peek_def Let_def)

lemma word_first:
  assumes "word w"
  shows "\<not> in_str whitespace (deref (w @ r))" "deref (w @ r) \<notin> {0, 40, 60, 62, 124, 41, 38, 59}" "skip_white (w @ r) = w @ r"
  using assms by (cases w; simp add: word_def word_char_def in_str_symbols)+

lemma closed_simps: "closed r \<Longrightarrow> skip_white r = r" "closed r \<Longrightarrow> deref r \<in> {0, 41}" "closed r \<Longrightarrow> deref r \<noteq> 0 \<or> r = []"
    "closed r \<Longrightarrow> \<not> word_char (deref r)"
  by (cases r; auto simp: closed_def in_str_white word_char_def in_str_symbols)+

lemma closed_white:
  "closed (skip_white r) \<Longrightarrow> \<not> word_char (deref r)" "closed (skip_white r) \<Longrightarrow> deref r \<noteq> 0 \<or> r = []"
  by (cases r; auto simp: closed_def in_str_white word_char_def in_str_symbols split: if_splits)+

lemma in_str_nil [simp]: "in_str [] c = False"
  by (simp add: in_str_def)

lemma in_str_cons [simp]: "a \<noteq> 0 \<Longrightarrow> in_str (a # toks) c = (a = c \<or> in_str toks c)"
  by (simp add: in_str_def)

lemma parseredirs_none:
  "deref (skip_white s) \<noteq> 60 \<Longrightarrow> deref (skip_white s) \<noteq> 62 \<Longrightarrow> parseredirs s = Inr ([], skip_white s)"
  by (subst parseredirs.simps) (auto simp: peek_def Let_def)

lemma parse_args_stop: "closed r \<Longrightarrow> parse_args n r = Inr ([], [], r)"
proof -
  assume r: "closed r"
  have "gettoken r = (0, r, r, r)" if "deref r = 0" using that closed_simps(1)[OF r] by (simp add: gettoken_def Let_def)
  then show ?thesis
    using closed_simps(2)[OF r] by (subst parse_args.simps) (auto simp: peek_def Let_def closed_simps(1)[OF r])
qed

definition args_text :: "u8 list list \<Rightarrow> u8 list" where
  "args_text ws = concat (map (\<lambda>w. 32 # w) ws)"

lemma args_text_simps [simp]: "args_text [] = []" "args_text (w # ws) = 32 # w @ args_text ws"
  by (simp_all add: args_text_def)

lemma args_text_first:
  assumes "list_all word ws" and "closed (skip_white r)"
  shows "deref (skip_white (args_text ws @ r)) \<notin> {40, 60, 62}"
    and "\<not> word_char (deref (args_text ws @ r))" and "deref (args_text ws @ r) \<noteq> 0 \<or> args_text ws @ r = []"
proof -
  have "deref (skip_white (args_text ws @ r)) \<notin> {40, 60, 62} \<and> \<not> word_char (deref (args_text ws @ r))
    \<and> (deref (args_text ws @ r) \<noteq> 0 \<or> args_text ws @ r = [])"
  proof (cases ws)
    case Nil
    then show ?thesis using closed_simps(2)[OF assms(2)] closed_white[OF assms(2)] by auto
  next
    case (Cons w us)
    then have w: "word w" using assms(1) by simp
    show ?thesis using word_first[OF w, of "args_text us @ r"] by (simp add: Cons in_str_white word_char_def)
  qed
  then show "deref (skip_white (args_text ws @ r)) \<notin> {40, 60, 62}" "\<not> word_char (deref (args_text ws @ r))"
    "deref (args_text ws @ r) \<noteq> 0 \<or> args_text ws @ r = []" by blast+
qed

lemma parse_args_text:
  "\<lbrakk>list_all word ws; n + length ws < MAXARGS; closed (skip_white r)\<rbrakk>
   \<Longrightarrow> \<exists>as. parse_args n (skip_white (args_text ws @ r)) = Inr (as, [], skip_white r) \<and> map word_text as = ws"
proof (induction ws arbitrary: n)
  case Nil
  then show ?case by (simp add: closed_simps(1) parse_args_stop)
next
  case (Cons w ws)
  let ?t = "args_text ws @ r"
  have w: "word w" "list_all word ws" using Cons.prems by simp_all
  obtain as where as: "parse_args (n + 1) (skip_white ?t) = Inr (as, [], skip_white r)" "map word_text as = ws"
    using Cons.IH[of "n + 1"] Cons.prems by auto
  have g: "gettoken (w @ ?t) = (97, w @ ?t, ?t, skip_white ?t)"
    by (rule gettoken_of_word[OF w(1) args_text_first(2,3)[OF w(2) Cons.prems(3)]])
  have rd: "parseredirs (skip_white ?t) = Inr ([], skip_white ?t)"
    using args_text_first(1)[OF w(2) Cons.prems(3)] by (subst parseredirs_none) simp_all
  have p: "peek (w @ ?t) [124, 41, 38, 59] = (False, w @ ?t)"
    using word_first[OF w(1), of ?t] by (simp add: peek_def Let_def)
  have "skip_white (args_text (w # ws) @ r) = w @ ?t" using word_first(3)[OF w(1), of ?t] by (simp add: in_str_white)
  then have "parse_args n (skip_white (args_text (w # ws) @ r)) = Inr ((w @ ?t, ?t) # as, [], skip_white r)"
    using Cons.prems(2) by (subst parse_args.simps) (simp add: p g rd as(1)[simplified])
  then show ?case using as(2) by (intro exI[of _ "(w @ ?t, ?t) # as"] conjI) simp_all
qed

lemma parseexec_simple:
  assumes "list_all word ws" "length ws < MAXARGS" "closed (skip_white r)"
  shows "\<exists>as. parseexec (Suc n) (skip_white (args_text ws @ r)) = Some (Inr (Execcmd as, skip_white r)) \<and> map word_text as = ws"
proof -
  let ?s = "skip_white (args_text ws @ r)"
  obtain as where as: "parse_args 0 ?s = Inr (as, [], skip_white r)" "map word_text as = ws"
    using parse_args_text[OF assms(1) _ assms(3), of 0] assms(2) by auto
  have d: "deref ?s \<notin> {40, 60, 62}" by (rule args_text_first[OF assms(1,3)])
  then have "peek ?s [40] = (False, ?s)" "parseredirs ?s = Inr ([], ?s)"
    by (auto simp: peek_def Let_def parseredirs_none)
  then show ?thesis using as by (simp add: wrap_def)
qed

lemma parseexec_block:
  assumes "parseline n (skip_white s) = Some (Inr (c, 41 # u))"
  shows "parseexec (Suc (Suc n)) (40 # s) = pbind (Some (parseredirs (skip_white u))) (\<lambda>(rs, t). Some (Inr (wrap c rs, t)))"
  using assms by (simp add: peek_simps in_str_white gettoken_symbol)

lemma parsepipe_one:
  assumes "parseexec n s = Some (Inr (c, t))" "skip_white t = t" "deref t \<noteq> 124"
  shows "parsepipe (Suc n) s = Some (Inr (c, t))"
  using assms by (simp add: peek_def Let_def)

lemma parseline_one:
  assumes "parsepipe n s = Some (Inr (c, t))" "closed t"
  shows "parseline (Suc n) s = Some (Inr (c, t))"
proof -
  have "back_loop c t = (c, t)" using closed_simps[OF assms(2)] by (subst back_loop.simps) (auto simp: peek_def Let_def)
  then show ?thesis using assms closed_simps[OF assms(2)] by (auto simp: peek_def Let_def)
qed

lemma parseredirs_of:
  assumes "word w" "redir_ok mode fd" "closed (skip_white r)"
  shows "\<exists>p. parseredirs ((if fd = 0 then 60 else 62) # w @ r) = Inr ([(p, mode, fd)], skip_white r) \<and> word_text p = w"
proof -
  let ?c = "if fd = 0 then 60 else 62 :: u8"
  have w: "deref (w @ r) \<noteq> 62" "skip_white (w @ r) = w @ r" using word_first[OF assms(1)] by auto
  have p: "peek (?c # w @ r) [60, 62] = (True, ?c # w @ r)" by (simp add: peek_simps in_str_white)
  have g: "gettoken (?c # w @ r) = (?c, ?c # w @ r, w @ r, w @ r)"
    using w by (auto simp: gettoken_def Let_def in_str_white)
  have "gettoken (w @ r) = (97, w @ r, r, skip_white r)"
    by (rule gettoken_of_word[OF assms(1) closed_white[OF assms(3)]])
  then have "parseredirs (?c # w @ r) = Inr ([((w @ r, r), mode, fd)], skip_white r)"
    using closed_simps[OF assms(3)] assms(2)
    by (subst parseredirs.simps) (auto simp: p g parseredirs_none redir_ok_def)
  then show ?thesis by auto
qed

lemma parseexec_paren:
  assumes "parseline n (skip_white s) = Some (Inr (c, 41 # u))" "deref (skip_white u) \<noteq> 60" "deref (skip_white u) \<noteq> 62"
    "v = skip_white u"
  shows "parseexec (Suc (Suc n)) (40 # s) = Some (Inr (c, v))"
  using parseexec_block[OF assms(1)] assms by (simp add: parseredirs_none wrap_def del: parseexec.simps)

lemma skip_paren [simp]: "skip_white (40 # s) = 40 # s"
  by (simp add: in_str_white)

lemma line_redir:
  assumes "parseline m (skip_white s) = Some (Inr (c, 41 # u))" "parseredirs u = Inr ([(p, mode, fd)], r)" "skip_white u = u" "closed r"
  shows "parseline (Suc (Suc (Suc (Suc m)))) (40 # s) = Some (Inr (Redircmd c p mode fd, r))"
proof -
  have "parseexec (Suc (Suc m)) (40 # s) = Some (Inr (Redircmd c p mode fd, r))"
    using parseexec_block[OF assms(1)] by (simp add: assms wrap_def del: parseexec.simps)
  then show ?thesis
    using closed_simps[OF assms(4)] by (intro parseline_one[OF parsepipe_one] assms(4)) (auto simp del: parseexec.simps)
qed

lemma line_pipe:
  assumes "parseline (Suc m) (skip_white s) = Some (Inr (c, 41 # 124 # 40 # t))" and "parseline m (skip_white t) = Some (Inr (d, 41 # r))"
    and "closed (skip_white r)"
  shows "parseline (Suc (Suc (Suc (Suc (Suc m))))) (40 # s) = Some (Inr (Pipecmd c d, skip_white r))"
proof -
  note [simp del] = parseexec.simps parsepipe.simps
  have "parsepipe (Suc (Suc (Suc m))) (40 # t) = Some (Inr (d, skip_white r))"
    using closed_simps[OF assms(3)] by (intro parsepipe_one parseexec_paren[OF assms(2)]) auto
  moreover have "parseexec (Suc (Suc (Suc m))) (40 # s) = Some (Inr (c, 124 # 40 # t))"
    by (rule parseexec_paren[OF assms(1)]) (simp_all add: in_str_white)
  moreover have "peek (124 # 40 # t) [124] = (True, 124 # 40 # t)" "skip_white (40 # t) = 40 # t"
    by (simp_all add: peek_simps in_str_white)
  ultimately have "parsepipe (Suc (Suc (Suc (Suc m)))) (40 # s) = Some (Inr (Pipecmd c d, skip_white r))"
    by (subst parsepipe.simps) (simp add: gettoken_symbol)
  then show ?thesis by (rule parseline_one[OF _ assms(3)])
qed

lemma line_list:
  assumes "parseline (Suc m) (skip_white s) = Some (Inr (c, 41 # 59 # 40 # t))" and "parseline m (skip_white t) = Some (Inr (d, 41 # r))"
    and "closed (skip_white r)"
  shows "parseline (Suc (Suc (Suc (Suc (Suc m))))) (40 # s) = Some (Inr (Listcmd c d, skip_white r))"
proof -
  note [simp del] = parseexec.simps parsepipe.simps parseline.simps
  have "parseline (Suc (Suc (Suc (Suc m)))) (40 # t) = Some (Inr (d, skip_white r))"
    using closed_simps[OF assms(3)] by (intro parseline_one[OF parsepipe_one] parseexec_paren[OF assms(2)] assms(3)) auto
  moreover have "parsepipe (Suc (Suc (Suc (Suc m)))) (40 # s) = Some (Inr (c, 59 # 40 # t))"
    by (intro parsepipe_one parseexec_paren[OF assms(1)]) (simp_all add: in_str_white)
  moreover have "peek (59 # 40 # t) [59] = (True, 59 # 40 # t)" "skip_white (40 # t) = 40 # t" "back_loop c (59 # 40 # t) = (c, 59 # 40 # t)"
    by (simp_all add: peek_simps in_str_white back_loop.simps[of _ "59 # _"])
  ultimately show ?thesis by (subst parseline.simps) (simp add: gettoken_symbol)
qed

lemma line_back:
  assumes "parseline m (skip_white s) = Some (Inr (c, 41 # 38 # r))" and "closed (skip_white r)"
  shows "parseline (Suc (Suc (Suc (Suc m)))) (40 # s) = Some (Inr (Backcmd c, skip_white r))"
proof -
  note [simp del] = parseexec.simps parsepipe.simps parseline.simps
  have "parsepipe (Suc (Suc (Suc m))) (40 # s) = Some (Inr (c, 38 # r))"
    by (intro parsepipe_one parseexec_paren[OF assms(1)]) (simp_all add: in_str_white)
  moreover have "back_loop (Backcmd c) (skip_white r) = (Backcmd c, skip_white r)" "peek (skip_white r) [59] = (False, skip_white r)"
    using closed_simps[OF assms(2)] by (subst back_loop.simps, auto simp: peek_def Let_def)
  moreover from this(1) have "back_loop c (38 # r) = (Backcmd c, skip_white r)"
    using closed_simps[OF assms(2)] by (subst back_loop.simps) (simp add: peek_simps in_str_white gettoken_symbol)
  ultimately show ?thesis by (subst parseline.simps) simp
qed

lemma line_simple:
  assumes "wf_cmd word (Execcmd ws)" and "closed (skip_white r)"
  shows "\<exists>as. parseline (Suc (Suc (Suc m))) (skip_white (args_text ws @ r)) = Some (Inr (Execcmd as, skip_white r)) \<and> map word_text as = ws"
proof -
  obtain as where as: "parseexec (Suc m) (skip_white (args_text ws @ r)) = Some (Inr (Execcmd as, skip_white r))" "map word_text as = ws"
    using parseexec_simple[of ws r m] assms by auto
  have "parseline (Suc (Suc (Suc m))) (skip_white (args_text ws @ r)) = Some (Inr (Execcmd as, skip_white r))"
    using closed_simps[OF assms(2)] by (intro parseline_one[OF parsepipe_one[OF as(1)] assms(2)]) auto
  then show ?thesis using as(2) by blast
qed

lemma fuel_split: "4 \<le> n \<Longrightarrow> \<exists>m. n = Suc (Suc (Suc (Suc m)))"
  by (rule exI[of _ "n - 4"]) simp

lemma fuel_split5: "5 \<le> n \<Longrightarrow> \<exists>m. n = Suc (Suc (Suc (Suc (Suc m))))"
  by (rule exI[of _ "n - 5"]) simp

lemma show_parses:
  "\<lbrakk>wf_cmd word c; closed (skip_white r); 4 * length (show_cmd c @ r) + 4 \<le> n\<rbrakk>
   \<Longrightarrow> \<exists>c'. parseline n (skip_white (show_cmd c @ r)) = Some (Inr (c', skip_white r)) \<and> map_cmd word_text c' = c"
proof (induction c arbitrary: r n)
  note [simp del] = parseexec.simps parsepipe.simps parseline.simps
  have [simp]: "skip_white (40 # s) = 40 # s" for s by (simp add: in_str_white)
  note [simp del] = skip_white.simps(2)
  {
    case (Execcmd ws)
    then obtain m where "n = Suc (Suc (Suc (Suc m)))" using fuel_split[of n] by auto
    then show ?case using line_simple[OF Execcmd.prems(1,2), of "Suc m"] by (auto simp: args_text_def)
  next
    case (Redircmd c w mode fd)
    let ?u = "(if fd = 0 then 60 else 62) # w @ r"
    from Redircmd obtain m where n: "n = Suc (Suc (Suc (Suc m)))" using fuel_split[of n] by auto
    obtain p where "parseredirs ?u = Inr ([(p, mode, fd)], skip_white r)" "word_text p = w"
      using parseredirs_of[of w mode fd r] Redircmd.prems by auto
    moreover obtain c' where "parseline m (skip_white (show_cmd c @ 41 # ?u)) = Some (Inr (c', 41 # ?u))" "map_cmd word_text c' = c"
      using Redircmd.IH[of "41 # ?u" m] Redircmd.prems n by (auto simp: closed_def in_str_white)
    ultimately show ?case using line_redir[of m _ c' ?u] Redircmd.prems(2) by (auto simp: n in_str_white)
  next
    case (Pipecmd c d)
    then obtain m where n: "n = Suc (Suc (Suc (Suc (Suc m))))" using fuel_split5[of n] by auto
    let ?u = "41 # 124 # 40 # show_cmd d @ 41 # r"
    obtain c' where "parseline (Suc m) (skip_white (show_cmd c @ ?u)) = Some (Inr (c', ?u))" "map_cmd word_text c' = c"
      using Pipecmd.IH(1)[of ?u "Suc m"] Pipecmd.prems n by (auto simp: closed_def in_str_white)
    moreover obtain d' where "parseline m (skip_white (show_cmd d @ 41 # r)) = Some (Inr (d', 41 # r))" "map_cmd word_text d' = d"
      using Pipecmd.IH(2)[of "41 # r" m] Pipecmd.prems n by (auto simp: closed_def in_str_white)
    ultimately show ?case using line_pipe[of m _ c'] Pipecmd.prems(2) by (auto simp: n)
  next
    case (Listcmd c d)
    then obtain m where n: "n = Suc (Suc (Suc (Suc (Suc m))))" using fuel_split5[of n] by auto
    let ?u = "41 # 59 # 40 # show_cmd d @ 41 # r"
    obtain c' where "parseline (Suc m) (skip_white (show_cmd c @ ?u)) = Some (Inr (c', ?u))" "map_cmd word_text c' = c"
      using Listcmd.IH(1)[of ?u "Suc m"] Listcmd.prems n by (auto simp: closed_def in_str_white)
    moreover obtain d' where "parseline m (skip_white (show_cmd d @ 41 # r)) = Some (Inr (d', 41 # r))" "map_cmd word_text d' = d"
      using Listcmd.IH(2)[of "41 # r" m] Listcmd.prems n by (auto simp: closed_def in_str_white)
    ultimately show ?case using line_list[of m _ c'] Listcmd.prems(2) by (auto simp: n)
  next
    case (Backcmd c)
    then obtain m where n: "n = Suc (Suc (Suc (Suc m)))" using fuel_split[of n] by auto
    obtain c' where "parseline m (skip_white (show_cmd c @ 41 # 38 # r)) = Some (Inr (c', 41 # 38 # r))" "map_cmd word_text c' = c"
      using Backcmd.IH[of "41 # 38 # r" m] Backcmd.prems n by (auto simp: closed_def in_str_white)
    then show ?case using line_back[of m _ c'] Backcmd.prems(2) by (auto simp: n)
  }
qed

lemma peek_skip_white [simp]: "peek (skip_white s) toks = peek s toks"
  by (simp add: peek_def)

lemma parseexec_skip: "parseexec n (skip_white s) = parseexec n s"
  by (cases n) simp_all

lemma parsepipe_skip: "parsepipe n (skip_white s) = parsepipe n s"
  by (cases n) (simp_all add: parseexec_skip)

lemma parseline_skip: "parseline n (skip_white s) = parseline n s"
  by (cases n) (simp_all add: parsepipe_skip)

lemma show_cmd_no_zero: "wf_cmd word c \<Longrightarrow> 0 \<notin> set (show_cmd c)"
  by (induction c) (auto simp: word_def word_char_def list_all_iff)

lemma cstr_line: "0 \<notin> set s \<Longrightarrow> cstr (s @ 0 # zs) = s"
  by (rule cstr_upto)

lemma skip_all_white: "list_all (in_str whitespace) ws \<Longrightarrow> skip_white ws = []"
  by (induction ws) auto

lemma parse_shown:
  assumes "wf_cmd word c" and "list_all (in_str whitespace) ws"
  shows "\<exists>c' buf'. parsecmd (show_cmd c @ ws @ 0 # zs) = Some (Inr (c', buf'))
    \<and> map_cmd (string_at (length (show_cmd c @ ws)) buf') c' = c"
proof -
  let ?s = "show_cmd c @ ws" and ?b = "show_cmd c @ ws @ 0 # zs"
  have "0 \<notin> set ws" using assms(2) by (auto simp: list_all_iff in_str_white)
  then have s: "cstr ?b = ?s" using show_cmd_no_zero[OF assms(1)] cstr_line[of ?s zs] by simp
  obtain c' where c': "parseline (parse_fuel ?s) ?s = Some (Inr (c', []))" "map_cmd word_text c' = c"
    using show_parses[OF assms(1), of ws "parse_fuel ?s"] skip_all_white[OF assms(2)]
    by (auto simp: closed_def parse_fuel_def parseline_skip)
  then have p: "parsecmd ?b = Some (Inr (c', nulterminate (length ?s) c' ?b))"
    by (simp add: parsecmd_def s Let_def peek_def del: append_assoc)
  then show ?thesis using parsed_strings[OF p] c'(2) by (simp only: s) simp
qed

text \<open>C12: Parsing inverts printing: for every command whose words are non-empty and free of white space and symbols, the shell
  parses the printed line, whatever white space follows it, and the command it builds has the same structure and, read as strings
  from the line after the parser cleared the ends of the words, the same words.\<close>

theorem parse_show:
  "\<lbrakk>wf_cmd word c; list_all (in_str whitespace) ws\<rbrakk>
   \<Longrightarrow> \<exists>c' buf'. parsecmd (show_cmd c @ ws @ 0 # zs) = Some (Inr (c', buf'))
    \<and> map_cmd (string_at (length (show_cmd c @ ws)) buf') c' = c"
  by (rule parse_shown)

definition demo_cmd :: "u8 list cmd" where
  "demo_cmd = Pipecmd (Execcmd [chars ''ls'']) (Redircmd (Execcmd [chars ''wc'', chars ''-l'']) (chars ''f'') O_WRCREATE_sh 1)"

theorem parse_show_witness:
  "\<exists>c' buf'. parsecmd (show_cmd demo_cmd @ [10] @ 0 # [0]) = Some (Inr (c', buf'))
    \<and> map_cmd (string_at (length (show_cmd demo_cmd @ [10])) buf') c' = demo_cmd"
  by (rule parse_show) code_simp+

end
