(* ===== verification/Shrun.thy ===== *)
theory Shrun
  imports Shellrt
begin

text \<open>
  Running a command, \<^verbatim>\<open>runcmd\<close> and \<^verbatim>\<open>main\<close> of \<^verbatim>\<open>sh.c\<close>.  A process is the tree of the system calls it makes: a call whose
  result the program looks at has a subtree for each result, and \<open>SFork\<close> has the child at 0 and the parent at any other number.
  What a tree does to the descriptors of its processes is given by \<open>events\<close>, with descriptors allocated from the lowest free one
  as \<open>fdalloc\<close> of the kernel does.
\<close>

subsection \<open>Programs as trees of system calls\<close>

datatype prog =
    SExit
  | SExec "u8 list" "u8 list list" prog
  | SClose int prog
  | SOpen "u8 list" u32 "int \<Rightarrow> prog"
  | SDup int prog
  | SPipe "int \<Rightarrow> int \<Rightarrow> int \<Rightarrow> prog"
  | SFork "int \<Rightarrow> prog"
  | SWait prog
  | SChdir "u8 list" "int \<Rightarrow> prog"
  | SWrite writes prog

definition panic_sh :: "string \<Rightarrow> prog" where
  "panic_sh s = SWrite (say 2 (''%s'' @ [CHR 10]) [chars s]) SExit"

definition fork1 :: "(int \<Rightarrow> prog) \<Rightarrow> prog" where
  "fork1 k = SFork (\<lambda>pid. if pid = - 1 then panic_sh ''fork'' else k pid)"

text \<open>\<open>runcmd\<close> on a command whose words are the strings they stand for.\<close>

primrec runcmd :: "u8 list cmd \<Rightarrow> prog" where
  "runcmd (Execcmd as) =
     (case as of [] \<Rightarrow> SExit
      | a # _ \<Rightarrow> SExec a as (SWrite (say 2 (''exec %s failed'' @ [CHR 10]) [a]) SExit))"
| "runcmd (Redircmd c file mode fd) =
     SClose fd (SOpen file mode (\<lambda>r.
       if r < 0 then SWrite (say 2 (''open %s failed'' @ [CHR 10]) [file]) SExit else runcmd c))"
| "runcmd (Listcmd l r) =
     fork1 (\<lambda>pid. if pid = 0 then runcmd l else SWait (runcmd r))"
| "runcmd (Pipecmd l r) =
     SPipe (\<lambda>res p0 p1.
       if res < 0 then panic_sh ''pipe''
       else fork1 (\<lambda>pid.
         if pid = 0 then SClose 1 (SDup p1 (SClose p0 (SClose p1 (runcmd l))))
         else fork1 (\<lambda>pid.
           if pid = 0 then SClose 0 (SDup p0 (SClose p0 (SClose p1 (runcmd r))))
           else SClose p0 (SClose p1 (SWait (SWait SExit))))))"
| "runcmd (Backcmd c) =
     fork1 (\<lambda>pid. if pid = 0 then runcmd c else SExit)"

subsection \<open>The command loop\<close>

definition console_path :: "u8 list" where
  "console_path = chars ''console''"

text \<open>Opening the console until three descriptors are open: each round takes another descriptor, so \<open>n\<close> rounds are enough when
  there are \<open>n\<close> descriptors.\<close>

fun open_console :: "nat \<Rightarrow> prog \<Rightarrow> prog" where
  "open_console 0 k = SExit"
| "open_console (Suc n) k =
     SOpen console_path 2 (\<lambda>fd. if fd \<ge> 0 then if fd \<ge> 3 then SClose fd k else open_console n k else k)"

text \<open>\<open>getcmd\<close>: the buffer and the rest of the input, or nothing at the end of the input.\<close>

definition getcmd :: "nat \<Rightarrow> input \<Rightarrow> (u8 list \<times> input) option" where
  "getcmd nbuf inp =
     (case ugets (replicate nbuf 0) (int nbuf) inp of (buf, inp) \<Rightarrow> if deref buf = 0 then None else Some (buf, inp))"

definition is_cd :: "u8 list \<Rightarrow> bool" where
  "is_cd buf = (buf ! 0 = 99 \<and> buf ! 1 = 100 \<and> buf ! 2 = 32)"

text \<open>What the child of a line does: parse and run.\<close>

definition run_line :: "u8 list \<Rightarrow> prog" where
  "run_line buf =
     (case parsecmd buf of
        Some (Inr (c, buf')) \<Rightarrow> runcmd (map_cmd (string_at (strlen buf) buf') c)
      | Some (Inl (None, e)) \<Rightarrow> panic_sh e
      | Some (Inl (Some t, e)) \<Rightarrow> SWrite (say 2 (''leftovers: %s'' @ [CHR 10]) [t]) (panic_sh e)
      | None \<Rightarrow> SExit)"

definition line_step :: "u8 list \<Rightarrow> prog \<Rightarrow> prog" where
  "line_step buf k =
     (if is_cd buf then
        let buf = buf[strlen buf - 1 := 0]; dir = cstr (drop 3 buf)
        in SChdir dir (\<lambda>r. if r < 0 then SWrite (say 2 (''cannot cd %s'' @ [CHR 10]) [dir]) k else k)
      else fork1 (\<lambda>pid. if pid = 0 then run_line buf else SWait k))"

definition prompt :: "prog \<Rightarrow> prog" where
  "prompt k = SWrite (say 2 ''$ '' []) k"

lemma gets_loop_le:
  "gets_loop i m inp = (w, inp') \<Longrightarrow>
   sum_list (map length (pieces inp')) \<le> sum_list (map length (pieces inp)) \<and>
   (hd w \<noteq> 0 \<longrightarrow> sum_list (map length (pieces inp')) < sum_list (map length (pieces inp)))"
proof (induction i m inp arbitrary: w inp' rule: gets_loop.induct)
  case (1 i m inp)
  obtain r cs inp1 where r: "read_in 1 inp = (r, cs, inp1)" by (cases "read_in 1 inp")
  have le: "sum_list (map length (pieces inp1)) \<le> sum_list (map length (pieces inp))"
    using r by (cases "pieces inp") (auto simp: read_in_def split: if_splits)
  have less: "1 \<le> r \<Longrightarrow> sum_list (map length (pieces inp1)) < sum_list (map length (pieces inp))"
    using read_in_less[OF r] by simp
  show ?case
  proof (cases "int i + 1 < m \<and> \<not> r < 1 \<and> hd cs \<noteq> 10 \<and> hd cs \<noteq> 13")
    case True
    obtain v inp2 where v: "gets_loop (Suc i) m inp1 = (v, inp2)" by (cases "gets_loop (Suc i) m inp1")
    have "gets_loop i m inp = (hd cs # v, inp2)"
      using True by (subst gets_loop.simps) (simp add: r v del: gets_loop.simps One_nat_def)
    moreover have "sum_list (map length (pieces inp2)) \<le> sum_list (map length (pieces inp1))"
      using 1(1)[OF _ r[symmetric] refl _ _ v] True by simp
    ultimately show ?thesis using 1(2) True less by (simp del: gets_loop.simps)
  next
    case False
    then have "(w, inp') \<in> {([0], inp1), ([hd cs, 0], inp1), ([0], inp)}" and "hd w \<noteq> 0 \<Longrightarrow> inp' = inp1 \<and> 1 \<le> r"
      using 1(2) by (subst (asm) gets_loop.simps; auto simp: r simp del: gets_loop.simps One_nat_def split: if_splits)+
    then show ?thesis using le less by auto
  qed
qed

lemma getcmd_less:
  "getcmd n inp = Some (buf, inp') \<Longrightarrow> sum_list (map length (pieces inp')) < sum_list (map length (pieces inp))"
  using gets_loop_le[of 0 "int n" inp]
  by (cases "gets_loop 0 (int n) inp"; cases "fst (gets_loop 0 (int n) inp)")
     (auto simp: getcmd_def ugets_def deref_def split: if_splits prod.splits)

function sh_loop :: "input \<Rightarrow> prog" where
  "sh_loop inp =
     prompt (case getcmd 100 inp of None \<Rightarrow> SExit | Some (buf, inp) \<Rightarrow> line_step buf (sh_loop inp))"
  by pat_completeness auto
termination
  by (relation "measure (\<lambda>inp. sum_list (map length (pieces inp)))") (auto dest: getcmd_less)

declare sh_loop.simps [simp del]

definition sh_main :: "input \<Rightarrow> prog" where
  "sh_main inp = open_console 17 (sh_loop inp)"

subsection \<open>What a program does to descriptors\<close>

text \<open>An open file as a process sees it: one that it had from the start, one that was opened by name, or an end of a pipe.\<close>

datatype stream = Given nat | Named "u8 list" u32 | ReadEnd nat | WriteEnd nat

type_synonym fdtab = "stream option list"

text \<open>A program is started with arguments and a table, and a process waits with a table.\<close>

datatype event = Started "u8 list list" fdtab | Waits fdtab

text \<open>\<open>opens\<close> says which files can be opened; forks succeed.  A pipe gets the next number.  Each process has its own copy of
  the table, so the order in which the processes of a tree run does not matter for the tables.\<close>

definition new_fd :: "stream \<Rightarrow> fdtab \<Rightarrow> (int \<times> fdtab)" where
  "new_fd f t = (case find_index (\<lambda>x. x = None) t of None \<Rightarrow> (- 1, t) | Some fd \<Rightarrow> (int fd, t[fd := Some f]))"

definition dup_fd :: "int \<Rightarrow> fdtab \<Rightarrow> fdtab" where
  "dup_fd fd t =
     (if 0 \<le> fd \<and> fd < int (length t) then (case t ! nat fd of None \<Rightarrow> t | Some f \<Rightarrow> snd (new_fd f t)) else t)"

definition close_fd :: "int \<Rightarrow> fdtab \<Rightarrow> fdtab" where
  "close_fd fd t = (if 0 \<le> fd then t[nat fd := None] else t)"

primrec events :: "(u8 list \<Rightarrow> u32 \<Rightarrow> bool) \<Rightarrow> prog \<Rightarrow> fdtab \<Rightarrow> nat \<Rightarrow> event list \<times> nat" where
  "events opens SExit = (\<lambda>t n. ([], n))"
| "events opens (SExec path argv k) = (\<lambda>t n. ([Started argv t], n))"
| "events opens (SClose fd k) = (\<lambda>t n. events opens k (close_fd fd t) n)"
| "events opens (SOpen path mode k) = (\<lambda>t n.
     if opens path mode then (case new_fd (Named path mode) t of (fd, t) \<Rightarrow> events opens (k fd) t n) else events opens (k (- 1)) t n)"
| "events opens (SDup fd k) = (\<lambda>t n. events opens k (dup_fd fd t) n)"
| "events opens (SPipe k) = (\<lambda>t n.
     case new_fd (ReadEnd n) t of (p0, t0) \<Rightarrow> case new_fd (WriteEnd n) t0 of (p1, t1) \<Rightarrow>
       if p0 < 0 \<or> p1 < 0 then events opens (k (- 1) 0 0) t n else events opens (k 0 p0 p1) t1 (Suc n))"
| "events opens (SFork k) = (\<lambda>t n.
     case events opens (k 0) t n of (es, n) \<Rightarrow> case events opens (k 1) t n of (es', n) \<Rightarrow> (es @ es', n))"
| "events opens (SWait k) = (\<lambda>t n. case events opens k t n of (es, n) \<Rightarrow> (Waits t # es, n))"
| "events opens (SChdir path k) = (\<lambda>t n. events opens (k 0) t n)"
| "events opens (SWrite w k) = (\<lambda>t n. events opens k t n)"

text \<open>The specification knows no descriptors: a command has an input and an output, a pipe connects the output of its left side
  with the input of its right side, and a redirection replaces one of them.\<close>

fun plumb :: "(u8 list \<Rightarrow> u32 \<Rightarrow> bool) \<Rightarrow> (stream \<Rightarrow> stream \<Rightarrow> fdtab) \<Rightarrow> u8 list cmd \<Rightarrow> stream \<Rightarrow> stream \<Rightarrow> nat \<Rightarrow> event list \<times> nat" where
  "plumb opens T (Execcmd as) i out n = (if as = [] then [] else [Started as (T i out)], n)"
| "plumb opens T (Redircmd c f mode fd) i out n =
     (if opens f mode then (if fd = 0 then plumb opens T c (Named f mode) out n else plumb opens T c i (Named f mode) n) else ([], n))"
| "plumb opens T (Pipecmd l r) i out n =
     (case plumb opens T l i (WriteEnd n) (Suc n) of (es, m) \<Rightarrow>
      case plumb opens T r (ReadEnd n) out m of (es', m) \<Rightarrow> (es @ es' @ [Waits (T i out), Waits (T i out)], m))"
| "plumb opens T (Listcmd l r) i out n =
     (case plumb opens T l i out n of (es, m) \<Rightarrow>
      case plumb opens T r i out m of (es', m) \<Rightarrow> (es @ Waits (T i out) # es', m))"
| "plumb opens T (Backcmd c) i out n = plumb opens T c i out n"

text \<open>The table of a process with an input, an output and an error output, and thirteen free entries.\<close>

definition std :: "stream \<Rightarrow> stream \<Rightarrow> stream \<Rightarrow> fdtab" where
  "std e i out = Some i # Some out # Some e # replicate 13 None"

lemma find_from_Suc: "find_from P xs (Suc i) = map_option Suc (find_from P xs i)"
  by (induction xs arbitrary: i) auto

lemma find_index_Cons [simp]:
  "find_index P [] = None" "find_index P (x # xs) = (if P x then Some 0 else map_option Suc (find_index P xs))"
  by (simp_all add: find_index_def find_from_Suc)

text \<open>The table between \<open>pipe\<close> and the calls that rearrange it, and what these make of it.\<close>

definition piped :: "nat \<Rightarrow> stream \<Rightarrow> stream \<Rightarrow> stream \<Rightarrow> fdtab" where
  "piped n e i out = Some i # Some out # Some e # Some (ReadEnd n) # Some (WriteEnd n) # replicate 11 None"

lemma std_cons: "std e i out = Some i # Some out # Some e # None # None # replicate 11 None"
  by (simp add: std_def numeral_eq_Suc)

lemma pipe_fds: "(case new_fd (ReadEnd n) (std e i out) of (p0, t0) \<Rightarrow> case new_fd (WriteEnd n) t0 of (p1, t1) \<Rightarrow> g p0 p1 t1)
    = g 3 4 (piped n e i out)"
  by (simp add: std_cons piped_def new_fd_def)

lemma piped_ends:
  "close_fd 4 (close_fd 3 (dup_fd 4 (close_fd 1 (piped n e i out)))) = std e i (WriteEnd n)"
  "close_fd 4 (close_fd 3 (dup_fd 3 (close_fd 0 (piped n e i out)))) = std e (ReadEnd n) out"
  "close_fd 4 (close_fd 3 (piped n e i out)) = std e i out"
  by (simp_all add: piped_def std_cons close_fd_def dup_fd_def new_fd_def)

lemma redir_fds:
  "new_fd f (close_fd 0 (std e i out)) = (0, std e f out)" "new_fd f (close_fd 1 (std e i out)) = (1, std e i f)"
  by (simp_all add: std_cons close_fd_def new_fd_def)

lemma fork1_events:
  "events opens (fork1 k) t n =
     (case events opens (k 0) t n of (es, n) \<Rightarrow> case events opens (k 1) t n of (es', n) \<Rightarrow> (es @ es', n))"
  by (simp add: fork1_def)

lemma runcmd_plumb:
  "wf_cmd P c \<Longrightarrow> events opens (runcmd c) (std e i out) n = plumb opens (std e) c i out n"
proof (induction c arbitrary: i out n)
  case (Execcmd as)
  then show ?case by (cases as) simp_all
next
  case (Redircmd c f mode fd)
  then show ?case by (auto simp: redir_ok_def redir_fds)
next
  case (Pipecmd l r)
  then show ?case by (simp add: pipe_fds fork1_events piped_ends split: prod.splits)
next
  case (Listcmd l r)
  then show ?case by (simp add: fork1_events split: prod.splits)
next
  case (Backcmd c)
  then show ?case by (simp add: fork1_events split: prod.splits)
qed

lemma strlen_line: "strlen buf = length (cstr buf)"
  by (rule strlen_eq)

lemma run_line_shown:
  assumes "wf_cmd word c" and "list_all (in_str whitespace) ws"
  shows "run_line (show_cmd c @ ws @ 0 # zs) = runcmd c"
proof -
  let ?b = "show_cmd c @ ws @ 0 # zs"
  obtain c' buf' where p: "parsecmd ?b = Some (Inr (c', buf'))"
    and w: "map_cmd (string_at (length (show_cmd c @ ws)) buf') c' = c"
    using parse_shown[OF assms] by blast
  have "0 \<notin> set ws" using assms(2) by (auto simp: list_all_iff in_str_white)
  then have "cstr ?b = show_cmd c @ ws" using show_cmd_no_zero[OF assms(1)] cstr_line[of "show_cmd c @ ws" zs] by simp
  then show ?thesis using w by (simp add: run_line_def p strlen_eq del: strlen.simps)
qed

subsection \<open>A session\<close>

text \<open>Input that comes in one piece.\<close>

definition feed :: "u8 list \<Rightarrow> input" where
  "feed bs = \<lparr>pieces = (if bs = [] then [] else [bs]), fails = False\<rparr>"

lemma read_feed [simp]: "read_in (Suc 0) (feed []) = (0, [], feed [])" "read_in (Suc 0) (feed (b # bs)) = (1, [b], feed bs)"
  by (auto simp: feed_def read_in_def)

lemma gets_line:
  "\<lbrakk>set l \<inter> {10, 13} = {}; int (i + length l) + 1 < m\<rbrakk> \<Longrightarrow> gets_loop i m (feed (l @ 10 # r)) = (l @ [10, 0], feed r)"
proof (induction l arbitrary: i)
  case Nil
  then show ?case by (subst gets_loop.simps) (simp del: gets_loop.simps)
next
  case (Cons a l)
  then have "gets_loop (Suc i) m (feed (l @ 10 # r)) = (l @ [10, 0], feed r)" by simp
  then show ?case using Cons.prems by (subst gets_loop.simps) (auto simp del: gets_loop.simps)
qed

lemma gets_end: "gets_loop i m (feed []) = ([0], feed [])"
  by (subst gets_loop.simps) (simp del: gets_loop.simps)

lemma getcmd_line:
  assumes "set l \<inter> {0, 10, 13} = {}" and "length l < 99"
  shows "getcmd 100 (feed (l @ 10 # r)) = Some (l @ [10] @ 0 # replicate (98 - length l) 0, feed r)"
  using assms gets_line[of l 0 100 r] by (cases l) (auto simp: getcmd_def ugets_def simp del: gets_loop.simps)

lemma getcmd_end: "getcmd 100 (feed []) = None"
  using gets_end[of 0 100] by (simp add: getcmd_def ugets_def del: gets_loop.simps)

lemma show_cmd_chars: "wf_cmd word c \<Longrightarrow> set (show_cmd c) \<inter> {0, 10, 13} = {}"
  by (induction c) (auto simp: word_def word_char_def in_str_white list_all_iff)

lemma show_cmd_no_cd: "\<not> is_cd (show_cmd c @ 10 # r)"
proof (cases c)
  case (Execcmd ws)
  then show ?thesis by (cases ws) (auto simp: is_cd_def)
qed (simp_all add: is_cd_def)

text \<open>What the shell does for the lines of some commands: run each and wait for one child.\<close>

fun session :: "(u8 list \<Rightarrow> u32 \<Rightarrow> bool) \<Rightarrow> (stream \<Rightarrow> stream \<Rightarrow> fdtab) \<Rightarrow> stream \<Rightarrow> stream \<Rightarrow> u8 list cmd list \<Rightarrow> nat \<Rightarrow> event list \<times> nat" where
  "session opens T i out [] n = ([], n)"
| "session opens T i out (c # cs) n =
     (case plumb opens T c i out n of (es, n) \<Rightarrow> case session opens T i out cs n of (es', n) \<Rightarrow> (es @ Waits (T i out) # es', n))"

definition script :: "u8 list cmd list \<Rightarrow> u8 list" where
  "script cs = concat (map (\<lambda>c. show_cmd c @ [10]) cs)"

lemma sh_loop_session:
  "\<lbrakk>list_all (wf_cmd word) cs; list_all (\<lambda>c. length (show_cmd c) < 99) cs\<rbrakk>
   \<Longrightarrow> events opens (sh_loop (feed (script cs))) (std e i out) n = session opens (std e) i out cs n"
proof (induction cs arbitrary: n)
  case Nil
  then show ?case by (subst sh_loop.simps) (simp add: script_def prompt_def getcmd_end)
next
  case (Cons c cs)
  let ?z = "replicate (98 - length (show_cmd c)) (0::u8)"
  have c: "wf_cmd word c" "length (show_cmd c) < 99" using Cons.prems by simp_all
  have g: "getcmd 100 (feed (script (c # cs))) = Some (show_cmd c @ [10] @ 0 # ?z, feed (script cs))"
    using getcmd_line[OF show_cmd_chars[OF c(1)] c(2), of "script cs"] by (simp add: script_def)
  have r: "run_line (show_cmd c @ [10] @ 0 # ?z) = runcmd c"
    by (rule run_line_shown[OF c(1)]) (simp add: in_str_white)
  have "line_step (show_cmd c @ [10] @ 0 # ?z) k = fork1 (\<lambda>pid. if pid = 0 then runcmd c else SWait k)" for k
    using show_cmd_no_cd[of c] r by (simp add: line_step_def cong: if_cong)
  then show ?case
    using Cons by (subst sh_loop.simps) (simp add: g prompt_def fork1_events runcmd_plumb[OF c(1)] split: prod.splits)
qed

lemma open_console_std: "events opens (open_console 17 k) (std e i out) n = events opens k (std e i out) n"
  by (simp add: numeral_eq_Suc std_cons new_fd_def close_fd_def)

text \<open>C11: A whole session: started with its three descriptors on an input that holds the printed lines of well-formed commands, the
  shell runs every command once and in order, starting each program with exactly the input and output that the structure
  of its command gives it and no other descriptor than the error output, and waits for one child after each line.\<close>

theorem shell_session:
  assumes "list_all (wf_cmd word) cs" and "list_all (\<lambda>c. length (show_cmd c) < 99) cs"
  shows "events opens (sh_main (feed (script cs))) (std e i out) n = session opens (std e) i out cs n"
  using sh_loop_session[OF assms] by (simp add: sh_main_def open_console_std)

theorem shell_session_witness:
  "events (\<lambda>f m. True) (sh_main (feed (script [demo_cmd]))) (std (Given 2) (Given 0) (Given 1)) 0 =
    ([Started [chars ''ls''] (std (Given 2) (Given 0) (WriteEnd 0)),
      Started [chars ''wc'', chars ''-l''] (std (Given 2) (ReadEnd 0) (Named (chars ''f'') O_WRCREATE_sh)),
      Waits (std (Given 2) (Given 0) (Given 1)), Waits (std (Given 2) (Given 0) (Given 1)),
      Waits (std (Given 2) (Given 0) (Given 1))], 1)"
proof -
  have "list_all (wf_cmd word) [demo_cmd]" "list_all (\<lambda>c. length (show_cmd c) < 99) [demo_cmd]" by code_simp+
  then show ?thesis by (subst shell_session) (simp_all add: demo_cmd_def)
qed

end
