(* ===== verification/Threads.thy ===== *)
theory Threads
  imports Prelude
begin

text \<open>
  What the thread programs share: a mutex of the thread library protects their variables, and a thread has it between two places of
  its code.  \<open>guarded\<close> says that the threads that are between such places are exactly the holder of the mutex.  The locale is the
  contract of a program whose steps take the free mutex, give back their own, or leave it alone; mutual exclusion follows.  The lemmas
  on \<open>count_list\<close> count the threads at a place when one of them moves.
\<close>

definition guarded :: "('t \<Rightarrow> 's \<Rightarrow> bool) \<Rightarrow> ('s \<Rightarrow> 't option) \<Rightarrow> 's \<Rightarrow> bool" where
  "guarded inside lock s = (\<forall>t. inside t s \<longleftrightarrow> lock s = Some t)"

definition takes :: "('t \<Rightarrow> 's \<Rightarrow> bool) \<Rightarrow> ('s \<Rightarrow> 't option) \<Rightarrow> 't \<Rightarrow> 's \<Rightarrow> 's \<Rightarrow> bool" where
  "takes inside lock t s s' = (lock s = None \<and> lock s' = Some t \<and> (\<forall>u. inside u s' = (u = t \<or> inside u s)))"

definition gives :: "('t \<Rightarrow> 's \<Rightarrow> bool) \<Rightarrow> ('s \<Rightarrow> 't option) \<Rightarrow> 't \<Rightarrow> 's \<Rightarrow> 's \<Rightarrow> bool" where
  "gives inside lock t s s' = (inside t s \<and> lock s' = None \<and> (\<forall>u. inside u s' = (u \<noteq> t \<and> inside u s)))"

definition keeps :: "('t \<Rightarrow> 's \<Rightarrow> bool) \<Rightarrow> ('s \<Rightarrow> 't option) \<Rightarrow> 's \<Rightarrow> 's \<Rightarrow> bool" where
  "keeps inside lock s s' = (lock s' = lock s \<and> (\<forall>u. inside u s' = inside u s))"

locale mutex_protocol =
  fixes inside :: "'t \<Rightarrow> 's \<Rightarrow> bool" and lock :: "'s \<Rightarrow> 't option" and step :: "'t \<Rightarrow> 's \<Rightarrow> 's \<Rightarrow> bool"
  assumes step_kind: "step t s s' \<Longrightarrow> takes inside lock t s s' \<or> gives inside lock t s s' \<or> keeps inside lock s s'"
begin

lemma guarded_step: "guarded inside lock s \<Longrightarrow> step t s s' \<Longrightarrow> guarded inside lock s'"
  using step_kind[of t s s'] by (auto simp: guarded_def takes_def gives_def keeps_def)

lemma exclusive: "guarded inside lock s \<Longrightarrow> inside t s \<Longrightarrow> inside u s \<Longrightarrow> u = t"
  by (simp add: guarded_def)

lemma free: "guarded inside lock s \<Longrightarrow> lock s = None \<Longrightarrow> \<not> inside t s"
  by (simp add: guarded_def)

lemma holder: "guarded inside lock s \<Longrightarrow> inside t s \<Longrightarrow> lock s = Some t"
  by (simp add: guarded_def)

end

lemma count_list_update:
  "i < length xs \<Longrightarrow> count_list (xs[i := y]) p + (if xs ! i = p then 1 else 0) = count_list xs p + (if y = p then 1 else 0)"
proof (induction xs arbitrary: i)
  case (Cons a xs)
  then show ?case
  proof (cases i)
    case (Suc j)
    then show ?thesis using Cons.IH[of j] Cons.prems by (cases "a = p") simp_all
  qed simp
qed simp

lemma count_list_unique:
  assumes "i < length xs" and "\<And>j. j < length xs \<Longrightarrow> xs ! j = p \<Longrightarrow> j = i"
  shows "count_list xs p = (if xs ! i = p then 1 else 0)"
proof (cases "xs ! i = p")
  case True
  have "p \<notin> set (take i xs)"
  proof
    assume "p \<in> set (take i xs)"
    then obtain k where "k < i" "xs ! k = p" using assms(1) by (auto simp: in_set_conv_nth)
    then show False using assms(1) assms(2)[of k] by simp
  qed
  moreover have "p \<notin> set (drop (Suc i) xs)"
  proof
    assume "p \<in> set (drop (Suc i) xs)"
    then obtain k where k: "k < length xs - Suc i" "xs ! Suc (i + k) = p" using assms(1) by (auto simp: in_set_conv_nth)
    then have "Suc (i + k) < length xs" by simp
    then show False using assms(2)[of "Suc (i + k)"] k(2) by simp
  qed
  moreover have "count_list xs p = count_list (take i xs @ xs ! i # drop (Suc i) xs) p"
    using id_take_nth_drop[OF assms(1)] by simp
  ultimately show ?thesis using True by (simp add: count_list_0_iff)
next
  case False
  then have "p \<notin> set xs" using assms by (auto simp: in_set_conv_nth)
  then show ?thesis using False by (simp add: count_list_0_iff)
qed

end
