(* ===== verification/Masterworker.thy ===== *)
theory Masterworker
  imports Threads "HOL-Library.Multiset"
begin

text \<open>
  The bounded buffer of \<^verbatim>\<open>master-worker.c\<close>: masters produce numbered items, workers consume them, under one mutex and two
  condition variables of the thread library.  A thread is where it is in its loop, and a step takes it from one access of the
  mutex or of the shared variables to the next.  A thread that waits on a condition has given up the mutex; once woken it
  takes it again and looks at its condition again, as after the start of its loop, so both are the same place.  The library is
  modelled as POSIX documents it: a mutex has one holder, a broadcast wakes all that wait, and a waiting thread may also wake up
  by itself.
\<close>

subsection \<open>State\<close>

text \<open>Before the mutex; at the loop conditions with the mutex; waiting; after the access and before the broadcast; leaving; gone.\<close>

datatype mpc = MLock | MCheck | MWait | MMade | MLeave | MDone
datatype wpc = WLock | WCheck | WWait | WTook | WLeave | WDone

datatype thread = Master nat | Worker nat

record mw =
  item_to_produce :: int
  curr_buf_size :: int
  total_items :: int
  max_buf_size :: int
  buffer :: "int list"
  mwlock :: "thread option"
  masters :: "mpc list"
  workers :: "wpc list"
  produced :: "(int \<times> nat) list"
  consumed :: "(int \<times> nat) list"

definition set_master :: "nat \<Rightarrow> mpc \<Rightarrow> mw \<Rightarrow> mw" where
  "set_master i p s = s\<lparr>masters := (masters s)[i := p]\<rparr>"

definition set_worker :: "nat \<Rightarrow> wpc \<Rightarrow> mw \<Rightarrow> mw" where
  "set_worker i p s = s\<lparr>workers := (workers s)[i := p]\<rparr>"

text \<open>\<open>pthread_cond_broadcast\<close> on \<^verbatim>\<open>cond_p\<close> and on \<^verbatim>\<open>cond_c\<close>.\<close>

definition wake_masters :: "mw \<Rightarrow> mw" where
  "wake_masters s = s\<lparr>masters := map (\<lambda>p. if p = MWait then MLock else p) (masters s)\<rparr>"

definition wake_workers :: "mw \<Rightarrow> mw" where
  "wake_workers s = s\<lparr>workers := map (\<lambda>p. if p = WWait then WLock else p) (workers s)\<rparr>"

subsection \<open>The loops\<close>

text \<open>One step of a thread, or nothing when it cannot go on.\<close>

definition generate_requests_loop :: "nat \<Rightarrow> mw \<Rightarrow> mw option" where
  "generate_requests_loop i s =
     (case masters s ! i of
        MLock \<Rightarrow> if mwlock s = None then Some (set_master i MCheck (s\<lparr>mwlock := Some (Master i)\<rparr>)) else None
      | MCheck \<Rightarrow>
          if curr_buf_size s \<ge> max_buf_size s then Some (set_master i MWait (s\<lparr>mwlock := None\<rparr>))
          else if item_to_produce s \<ge> total_items s then Some (set_master i MLeave s)
          else Some (set_master i MMade
                 (s\<lparr>buffer := (buffer s)[nat (curr_buf_size s) := item_to_produce s],
                    curr_buf_size := curr_buf_size s + 1,
                    produced := produced s @ [(item_to_produce s, i)],
                    item_to_produce := item_to_produce s + 1\<rparr>))
      | MMade \<Rightarrow> Some (set_master i MLock ((wake_workers s)\<lparr>mwlock := None\<rparr>))
      | MLeave \<Rightarrow> Some (set_master i MDone ((wake_masters s)\<lparr>mwlock := None\<rparr>))
      | MWait \<Rightarrow> None
      | MDone \<Rightarrow> None)"

definition consume_requests_loop :: "nat \<Rightarrow> mw \<Rightarrow> mw option" where
  "consume_requests_loop i s =
     (case workers s ! i of
        WLock \<Rightarrow> if mwlock s = None then Some (set_worker i WCheck (s\<lparr>mwlock := Some (Worker i)\<rparr>)) else None
      | WCheck \<Rightarrow>
          if curr_buf_size s = 0 then
            if item_to_produce s \<ge> total_items s then Some (set_worker i WLeave s)
            else Some (set_worker i WWait (s\<lparr>mwlock := None\<rparr>))
          else Some (set_worker i WTook
                 (s\<lparr>curr_buf_size := curr_buf_size s - 1,
                    consumed := consumed s @ [(buffer s ! nat (curr_buf_size s - 1), i)]\<rparr>))
      | WTook \<Rightarrow> Some (set_worker i WLock ((wake_masters s)\<lparr>mwlock := None\<rparr>))
      | WLeave \<Rightarrow> Some (set_worker i WDone ((wake_workers s)\<lparr>mwlock := None\<rparr>))
      | WWait \<Rightarrow> None
      | WDone \<Rightarrow> None)"

fun thread_step :: "thread \<Rightarrow> mw \<Rightarrow> mw option" where
  "thread_step (Master i) s = (if i < length (masters s) then generate_requests_loop i s else None)"
| "thread_step (Worker i) s = (if i < length (workers s) then consume_requests_loop i s else None)"

text \<open>A waiting thread that wakes up by itself.\<close>

fun mw_spurious :: "thread \<Rightarrow> mw \<Rightarrow> mw option" where
  "mw_spurious (Master i) s = (if i < length (masters s) \<and> masters s ! i = MWait then Some (set_master i MLock s) else None)"
| "mw_spurious (Worker i) s = (if i < length (workers s) \<and> workers s ! i = WWait then Some (set_worker i WLock s) else None)"

text \<open>The state \<open>main\<close> starts the threads in; \<open>mem\<close> is what \<open>malloc\<close> gives for the buffer.\<close>

definition mw_init :: "int \<Rightarrow> int \<Rightarrow> int list \<Rightarrow> nat \<Rightarrow> nat \<Rightarrow> mw" where
  "mw_init items sz mem nworkers nmasters =
     \<lparr>item_to_produce = 0, curr_buf_size = 0, total_items = items, max_buf_size = sz, buffer = mem, mwlock = None,
      masters = replicate nmasters MLock, workers = replicate nworkers WLock, produced = [], consumed = []\<rparr>"

inductive mw_reach :: "mw \<Rightarrow> mw \<Rightarrow> bool" for s0 where
  start: "mw_reach s0 s0"
| step: "mw_reach s0 s \<Longrightarrow> thread_step t s = Some s' \<Longrightarrow> mw_reach s0 s'"
| wakeup: "mw_reach s0 s \<Longrightarrow> mw_spurious t s = Some s' \<Longrightarrow> mw_reach s0 s'"

subsection \<open>Invariants\<close>

text \<open>The places of a loop where its thread has the mutex.\<close>

definition m_in :: "mpc \<Rightarrow> bool" where
  "m_in p = (p = MCheck \<or> p = MMade \<or> p = MLeave)"

definition w_in :: "wpc \<Rightarrow> bool" where
  "w_in p = (p = WCheck \<or> p = WTook \<or> p = WLeave)"

fun inside :: "thread \<Rightarrow> mw \<Rightarrow> bool" where
  "inside (Master i) s = (i < length (masters s) \<and> m_in (masters s ! i))"
| "inside (Worker i) s = (i < length (workers s) \<and> w_in (workers s ! i))"

abbreviation inv_lock :: "mw \<Rightarrow> bool" where
  "inv_lock s \<equiv> guarded inside mwlock s"

definition inv_items :: "mw \<Rightarrow> bool" where
  "inv_items s =
     (0 \<le> curr_buf_size s \<and> curr_buf_size s \<le> max_buf_size s \<and> length (buffer s) = nat (max_buf_size s) \<and>
      0 \<le> item_to_produce s \<and> item_to_produce s \<le> max 0 (total_items s) \<and>
      map fst (produced s) = [0..item_to_produce s - 1] \<and>
      mset (map fst (consumed s)) + mset (take (nat (curr_buf_size s)) (buffer s)) = mset [0..item_to_produce s - 1])"

text \<open>A thread only waits while its condition holds, or while a thread that changed it still has to broadcast.\<close>

definition waits_m :: "mw \<Rightarrow> bool" where
  "waits_m s = (MWait \<in> set (masters s) \<longrightarrow>
     curr_buf_size s \<ge> max_buf_size s \<or> (\<exists>i < length (workers s). mwlock s = Some (Worker i) \<and> workers s ! i = WTook))"

definition waits_w :: "mw \<Rightarrow> bool" where
  "waits_w s = (WWait \<in> set (workers s) \<longrightarrow>
     curr_buf_size s = 0 \<and> item_to_produce s < total_items s \<or>
     (\<exists>i < length (masters s). mwlock s = Some (Master i) \<and> masters s ! i = MMade))"

definition left_m :: "mw \<Rightarrow> bool" where
  "left_m s = (MLeave \<in> set (masters s) \<or> MDone \<in> set (masters s) \<longrightarrow> item_to_produce s \<ge> total_items s)"

definition left_w :: "mw \<Rightarrow> bool" where
  "left_w s = (WLeave \<in> set (workers s) \<or> WDone \<in> set (workers s) \<longrightarrow> item_to_produce s \<ge> total_items s \<and> curr_buf_size s = 0)"

lemma inside_frame [simp]:
  "inside t (s\<lparr>mwlock := l\<rparr>) = inside t s" "inside t (s\<lparr>curr_buf_size := c\<rparr>) = inside t s" "inside t (s\<lparr>buffer := b\<rparr>) = inside t s"
  "inside t (s\<lparr>produced := p\<rparr>) = inside t s" "inside t (s\<lparr>consumed := p\<rparr>) = inside t s" "inside t (s\<lparr>item_to_produce := n\<rparr>) = inside t s"
  by (cases t; simp)+

lemma woken_in [simp]: "m_in (if p = MWait then MLock else p) = m_in p" "w_in (if q = WWait then WLock else q) = w_in q"
  by (simp_all add: m_in_def w_in_def)

lemma inside_wake [simp]: "inside t (wake_masters s) = inside t s" "inside t (wake_workers s) = inside t s"
  by (cases t; simp add: wake_masters_def wake_workers_def cong: conj_cong)+

lemma inside_set [simp]:
  "i < length (masters s) \<Longrightarrow> inside t (set_master i p s) = (if t = Master i then m_in p else inside t s)"
  "i < length (workers s) \<Longrightarrow> inside t (set_worker i q s) = (if t = Worker i then w_in q else inside t s)"
  by (cases t; simp add: set_master_def set_worker_def nth_list_update)+

lemma set_simps [simp]:
  "mwlock (set_master i p s) = mwlock s" "mwlock (set_worker i q s) = mwlock s"
  "mwlock (wake_masters s) = mwlock s" "mwlock (wake_workers s) = mwlock s"
  "length (masters (wake_masters s)) = length (masters s)" "length (workers (wake_workers s)) = length (workers s)"
  "length (masters (wake_workers s)) = length (masters s)" "length (workers (wake_masters s)) = length (workers s)"
  by (simp_all add: set_master_def set_worker_def wake_masters_def wake_workers_def)

lemma m_in_simps [simp]: "m_in MCheck" "m_in MMade" "m_in MLeave" "\<not> m_in MLock" "\<not> m_in MWait" "\<not> m_in MDone"
  by (simp_all add: m_in_def)

lemma w_in_simps [simp]: "w_in WCheck" "w_in WTook" "w_in WLeave" "\<not> w_in WLock" "\<not> w_in WWait" "\<not> w_in WDone"
  by (simp_all add: w_in_def)

text \<open>A step takes the free mutex, keeps the mutex, or gives it back.\<close>

lemma step_lock:
  assumes "thread_step t s = Some s'"
  shows "takes inside mwlock t s s' \<or> gives inside mwlock t s s' \<or> keeps inside mwlock s s'"
proof (cases t)
  case (Master i)
  then have i: "i < length (masters s)" and g: "generate_requests_loop i s = Some s'" using assms by (auto split: if_splits)
  then have t: "inside (Master i) s = m_in (masters s ! i)" by simp
  show ?thesis
    using i g unfolding Master generate_requests_loop_def takes_def gives_def keeps_def
    by (cases "masters s ! i"; clarsimp simp: t simp del: inside.simps split: if_splits; (auto simp: t simp del: inside.simps)?)
next
  case (Worker i)
  then have i: "i < length (workers s)" and g: "consume_requests_loop i s = Some s'" using assms by (auto split: if_splits)
  then have t: "inside (Worker i) s = w_in (workers s ! i)" by simp
  show ?thesis
    using i g unfolding Worker consume_requests_loop_def takes_def gives_def keeps_def
    by (cases "workers s ! i"; clarsimp simp: t simp del: inside.simps split: if_splits; (auto simp: t simp del: inside.simps)?)
qed

lemma spurious_lock:
  assumes "mw_spurious t s = Some s'"
  shows "keeps inside mwlock s s'"
proof -
  have "\<not> inside t s" using assms by (cases t) (auto split: if_splits)
  moreover have "inside u s' = (u \<noteq> t \<and> inside u s)" for u
    using assms by (cases t) (auto simp del: inside.simps split: if_splits)
  moreover have "mwlock s' = mwlock s" using assms by (cases t) (auto split: if_splits)
  ultimately show ?thesis by (auto simp: keeps_def)
qed

interpretation mwp: mutex_protocol inside mwlock "\<lambda>t s s'. thread_step t s = Some s' \<or> mw_spurious t s = Some s'"
  by unfold_locales (use step_lock spurious_lock in blast)

lemma inv_lock_step: "inv_lock s \<Longrightarrow> thread_step t s = Some s' \<Longrightarrow> inv_lock s'"
  using mwp.guarded_step by blast

lemma inv_lock_spurious: "inv_lock s \<Longrightarrow> mw_spurious t s = Some s' \<Longrightarrow> inv_lock s'"
  using mwp.guarded_step by blast

lemma inv_items_frame [simp]:
  "inv_items (set_master i p s) = inv_items s" "inv_items (set_worker i q s) = inv_items s" "inv_items (s\<lparr>mwlock := l\<rparr>) = inv_items s"
  "inv_items (wake_masters s) = inv_items s" "inv_items (wake_workers s) = inv_items s"
  by (simp_all add: inv_items_def set_master_def set_worker_def wake_masters_def wake_workers_def)

lemma take_push: "\<lbrakk>0 \<le> c; nat c < length b\<rbrakk> \<Longrightarrow> take (nat (c + 1)) (b[nat c := x]) = take (nat c) b @ [x]"
  by (simp add: nat_add_distrib take_Suc_conv_app_nth)

lemma take_pop: "\<lbrakk>0 < c; nat c \<le> length b\<rbrakk> \<Longrightarrow> take (nat c) b = take (nat (c - 1)) b @ [b ! nat (c - 1)]"
  using take_Suc_conv_app_nth[of "nat (c - 1)" b] by (simp add: nat_diff_distrib' Suc_diff_le flip: Suc_nat_eq_nat_zadd1)

lemma inv_items_produce:
  assumes "inv_items s" and "curr_buf_size s < max_buf_size s" and "item_to_produce s < total_items s"
  shows "inv_items (s\<lparr>buffer := (buffer s)[nat (curr_buf_size s) := item_to_produce s], curr_buf_size := curr_buf_size s + 1,
      produced := produced s @ [(item_to_produce s, i)], item_to_produce := item_to_produce s + 1\<rparr>)"
proof -
  have "[0..item_to_produce s] = [0..item_to_produce s - 1] @ [item_to_produce s]"
    using assms(1) upto_rec2[of 0 "item_to_produce s"] by (simp add: inv_items_def)
  then show ?thesis using assms take_push[of "curr_buf_size s" "buffer s" "item_to_produce s"] by (auto simp: inv_items_def)
qed

lemma inv_items_consume:
  assumes "inv_items s" and "curr_buf_size s \<noteq> 0"
  shows "inv_items (s\<lparr>curr_buf_size := curr_buf_size s - 1, consumed := consumed s @ [(buffer s ! nat (curr_buf_size s - 1), i)]\<rparr>)"
  using assms take_pop[of "curr_buf_size s" "buffer s"] by (auto simp: inv_items_def)

lemma inv_items_step: "inv_items s \<Longrightarrow> thread_step t s = Some s' \<Longrightarrow> inv_items s'"
  by (cases t)
    (auto simp: generate_requests_loop_def consume_requests_loop_def inv_items_produce inv_items_consume
      split: if_splits mpc.splits wpc.splits)

lemma inv_items_spurious: "inv_items s \<Longrightarrow> mw_spurious t s = Some s' \<Longrightarrow> inv_items s'"
  by (cases t) (auto split: if_splits)

lemma waits_update:
  "p \<noteq> x \<Longrightarrow> x \<in> set (xs[i := p]) \<Longrightarrow> x \<in> set xs"
  using set_update_subset_insert[of xs i p] by auto

lemma masters_simps [simp]:
  "masters (set_master i p s) = (masters s)[i := p]" "masters (set_worker i q s) = masters s"
  "workers (set_worker i q s) = (workers s)[i := q]" "workers (set_master i p s) = workers s"
  "workers (wake_masters s) = workers s" "masters (wake_workers s) = masters s"
  "curr_buf_size (set_master i p s) = curr_buf_size s" "curr_buf_size (set_worker i q s) = curr_buf_size s"
  "curr_buf_size (wake_masters s) = curr_buf_size s" "curr_buf_size (wake_workers s) = curr_buf_size s"
  "item_to_produce (set_master i p s) = item_to_produce s" "item_to_produce (set_worker i q s) = item_to_produce s"
  "item_to_produce (wake_masters s) = item_to_produce s" "item_to_produce (wake_workers s) = item_to_produce s"
  "total_items (set_master i p s) = total_items s" "total_items (set_worker i q s) = total_items s"
  "total_items (wake_masters s) = total_items s" "total_items (wake_workers s) = total_items s"
  "max_buf_size (set_master i p s) = max_buf_size s" "max_buf_size (set_worker i q s) = max_buf_size s"
  "max_buf_size (wake_masters s) = max_buf_size s" "max_buf_size (wake_workers s) = max_buf_size s"
  by (simp_all add: set_master_def set_worker_def wake_masters_def wake_workers_def)

lemma wake_none [simp]: "MWait \<notin> set (masters (wake_masters s))" "WWait \<notin> set (workers (wake_workers s))"
  by (auto simp: wake_masters_def wake_workers_def split: if_splits)

lemma wake_leaving [simp]:
  "p \<noteq> MLock \<Longrightarrow> p \<noteq> MWait \<Longrightarrow> p \<in> set (masters (wake_masters s)) \<longleftrightarrow> p \<in> set (masters s)"
  "q \<noteq> WLock \<Longrightarrow> q \<noteq> WWait \<Longrightarrow> q \<in> set (workers (wake_workers s)) \<longleftrightarrow> q \<in> set (workers s)"
  by (auto simp: wake_masters_def wake_workers_def image_iff split: if_splits)

lemma has_lock:
  "inv_lock s \<Longrightarrow> i < length (masters s) \<Longrightarrow> m_in (masters s ! i) \<Longrightarrow> mwlock s = Some (Master i)"
  "inv_lock s \<Longrightarrow> i < length (workers s) \<Longrightarrow> w_in (workers s ! i) \<Longrightarrow> mwlock s = Some (Worker i)"
  by (rule mwp.holder; simp)+

lemma step_cases:
  assumes "thread_step t s = Some s'"
  obtains (master) i where "t = Master i" "i < length (masters s)" "generate_requests_loop i s = Some s'"
    | (worker) i where "t = Worker i" "i < length (workers s)" "consume_requests_loop i s = Some s'"
  using assms by (cases t) (auto split: if_splits)

lemma waits_m_step:
  assumes "inv_lock s" "waits_m s" "thread_step t s = Some s'"
  shows "waits_m s'"
  using assms(3)
proof (cases rule: step_cases)
  case (master i)
  then show ?thesis
    using has_lock(1)[OF assms(1) master(2)] assms(2)
    by (cases "masters s ! i") (auto simp: waits_m_def generate_requests_loop_def dest!: waits_update[rotated] split: if_splits)
next
  case (worker i)
  then show ?thesis
    using has_lock(2)[OF assms(1) worker(2)] assms(2)
    by (cases "workers s ! i") (auto simp: waits_m_def consume_requests_loop_def split: if_splits)
qed

lemma waits_w_step:
  assumes "inv_lock s" "waits_w s" "thread_step t s = Some s'"
  shows "waits_w s'"
  using assms(3)
proof (cases rule: step_cases)
  case (master i)
  then show ?thesis
    using has_lock(1)[OF assms(1) master(2)] assms(2)
    by (cases "masters s ! i") (auto simp: waits_w_def generate_requests_loop_def split: if_splits)
next
  case (worker i)
  then show ?thesis
    using has_lock(2)[OF assms(1) worker(2)] assms(2)
    by (cases "workers s ! i") (auto simp: waits_w_def consume_requests_loop_def dest!: waits_update[rotated] split: if_splits)
qed

lemma left_m_step:
  assumes "left_m s" "thread_step t s = Some s'"
  shows "left_m s'"
  using assms(2)
proof (cases rule: step_cases)
  case (master i)
  then show ?thesis
    using assms(1) nth_mem[OF master(2)]
    by (cases "masters s ! i") (auto simp: left_m_def generate_requests_loop_def dest!: waits_update[rotated] split: if_splits)
next
  case (worker i)
  then show ?thesis
    using assms(1) by (cases "workers s ! i") (auto simp: left_m_def consume_requests_loop_def split: if_splits)
qed

lemma left_w_step:
  assumes "left_w s" "thread_step t s = Some s'"
  shows "left_w s'"
  using assms(2)
proof (cases rule: step_cases)
  case (master i)
  then show ?thesis
    using assms(1) by (cases "masters s ! i") (auto simp: left_w_def generate_requests_loop_def split: if_splits)
next
  case (worker i)
  then show ?thesis
    using assms(1) nth_mem[OF worker(2)]
    by (cases "workers s ! i") (auto simp: left_w_def consume_requests_loop_def dest!: waits_update[rotated] split: if_splits)
qed

lemma spurious_keeps:
  assumes "mw_spurious t s = Some s'"
  shows "waits_m s \<Longrightarrow> waits_m s'" "waits_w s \<Longrightarrow> waits_w s'" "left_m s \<Longrightarrow> left_m s'" "left_w s \<Longrightarrow> left_w s'"
  using assms
  by (cases t; force simp: waits_m_def waits_w_def left_m_def left_w_def nth_list_update dest!: waits_update[rotated] split: if_splits)+

subsection \<open>Correctness\<close>

definition mw_inv :: "mw \<Rightarrow> bool" where
  "mw_inv s = (inv_lock s \<and> inv_items s \<and> waits_m s \<and> waits_w s \<and> left_m s \<and> left_w s)"

lemma mw_inv_init:
  assumes "0 \<le> sz" and "length mem = nat sz"
  shows "mw_inv (mw_init items sz mem nw nm)"
proof -
  have "\<not> inside t (mw_init items sz mem nw nm)" for t by (cases t) (auto simp: mw_init_def m_in_def w_in_def)
  then show ?thesis using assms
    by (auto simp: mw_inv_def guarded_def inv_items_def waits_m_def waits_w_def left_m_def left_w_def mw_init_def)
qed

lemma mw_inv_step: "mw_inv s \<Longrightarrow> thread_step t s = Some s' \<Longrightarrow> mw_inv s'"
  unfolding mw_inv_def using inv_lock_step inv_items_step waits_m_step waits_w_step left_m_step left_w_step by blast

lemma mw_inv_spurious: "mw_inv s \<Longrightarrow> mw_spurious t s = Some s' \<Longrightarrow> mw_inv s'"
  unfolding mw_inv_def using inv_lock_spurious inv_items_spurious spurious_keeps by blast

lemma mw_reach_inv: "mw_reach s0 s \<Longrightarrow> mw_inv s0 \<Longrightarrow> mw_inv s"
  by (induction rule: mw_reach.induct) (auto intro: mw_inv_step mw_inv_spurious)

definition same_sizes :: "mw \<Rightarrow> mw \<Rightarrow> bool" where
  "same_sizes s s' = (total_items s' = total_items s \<and> max_buf_size s' = max_buf_size s \<and>
     length (masters s') = length (masters s) \<and> length (workers s') = length (workers s))"

lemma same_sizes_step: "thread_step t s = Some s' \<or> mw_spurious t s = Some s' \<Longrightarrow> same_sizes s s'"
  by (cases t) (auto simp: same_sizes_def generate_requests_loop_def consume_requests_loop_def split: if_splits mpc.splits wpc.splits)

lemma mw_reach_sizes: "mw_reach s0 s \<Longrightarrow> same_sizes s0 s"
proof (induction rule: mw_reach.induct)
  case start
  then show ?case by (simp add: same_sizes_def)
qed (fastforce simp: same_sizes_def dest: same_sizes_step[OF disjI1] same_sizes_step[OF disjI2])+

text \<open>C24: Whatever the interleaving and however threads wake up: the masters produce the numbers from 0 in order, the buffer is never
  read or written out of its bounds, and every number produced so far has been consumed once or is once in the buffer.\<close>

theorem mw_exactly_once:
  assumes "mw_reach (mw_init items sz mem nw nm) s" and "0 \<le> sz" and "length mem = nat sz"
  shows "0 \<le> curr_buf_size s \<and> curr_buf_size s \<le> sz \<and> length (buffer s) = nat sz \<and>
    map fst (produced s) = [0..item_to_produce s - 1] \<and> item_to_produce s \<le> max 0 items \<and>
    mset (map fst (consumed s)) + mset (take (nat (curr_buf_size s)) (buffer s)) = mset (map fst (produced s))"
proof -
  have "mw_inv s" using mw_reach_inv[OF assms(1)] mw_inv_init[OF assms(2,3)] by blast
  moreover have "max_buf_size s = sz" "total_items s = items"
    using mw_reach_sizes[OF assms(1)] by (simp_all add: same_sizes_def mw_init_def)
  ultimately show ?thesis by (simp add: mw_inv_def inv_items_def)
qed

definition all_done :: "mw \<Rightarrow> bool" where
  "all_done s = (list_all ((=) MDone) (masters s) \<and> list_all ((=) WDone) (workers s))"

lemma stuck_master:
  assumes "thread_step (Master i) s = None" and "i < length (masters s)" and "mwlock s = None"
  shows "masters s ! i = MWait \<or> masters s ! i = MDone"
  using assms by (cases "masters s ! i") (auto simp: generate_requests_loop_def split: if_splits)

lemma stuck_worker:
  assumes "thread_step (Worker i) s = None" and "i < length (workers s)" and "mwlock s = None"
  shows "workers s ! i = WWait \<or> workers s ! i = WDone"
  using assms by (cases "workers s ! i") (auto simp: consume_requests_loop_def split: if_splits)

lemma holder_goes_on:
  assumes "inside t s" shows "thread_step t s \<noteq> None"
  using assms
  by (cases t) (auto simp: m_in_def w_in_def generate_requests_loop_def consume_requests_loop_def split: mpc.splits wpc.splits)

lemma mw_stuck_done:
  assumes inv: "mw_inv s" and stuck: "\<And>t. thread_step t s = None"
    and pos: "0 < max_buf_size s" "masters s \<noteq> []" "workers s \<noteq> []"
  shows "all_done s \<and> curr_buf_size s = 0 \<and> item_to_produce s \<ge> total_items s"
proof -
  have free: "mwlock s = None"
  proof (rule ccontr)
    assume "mwlock s \<noteq> None"
    then obtain t where "inside t s" using inv unfolding mw_inv_def guarded_def by blast
    then show False using holder_goes_on stuck by blast
  qed
  have m: "masters s ! i \<in> {MWait, MDone}" if "i < length (masters s)" for i using stuck_master[OF stuck that free] by auto
  have w: "workers s ! i \<in> {WWait, WDone}" if "i < length (workers s)" for i using stuck_worker[OF stuck that free] by auto
  have I: "MWait \<in> set (masters s) \<Longrightarrow> curr_buf_size s > 0" "WWait \<in> set (workers s) \<Longrightarrow> curr_buf_size s = 0 \<and> item_to_produce s < total_items s"
    "MDone \<in> set (masters s) \<Longrightarrow> item_to_produce s \<ge> total_items s" "WDone \<in> set (workers s) \<Longrightarrow> item_to_produce s \<ge> total_items s \<and> curr_buf_size s = 0"
    using inv pos(1) free by (auto simp: mw_inv_def waits_m_def waits_w_def left_m_def left_w_def)
  have "hd (masters s) \<in> set (masters s)" "hd (workers s) \<in> set (workers s)" using pos by simp_all
  moreover have "set (masters s) \<subseteq> {MWait, MDone}" "set (workers s) \<subseteq> {WWait, WDone}"
    using m w by (metis in_set_conv_nth subsetI)+
  ultimately have d: "MWait \<notin> set (masters s)" "WWait \<notin> set (workers s)" "MDone \<in> set (masters s)" "WDone \<in> set (workers s)"
    using I by (auto dest!: subsetD)
  moreover from this have "set (masters s) \<subseteq> {MDone}" "set (workers s) \<subseteq> {WDone}"
    using \<open>set (masters s) \<subseteq> {MWait, MDone}\<close> \<open>set (workers s) \<subseteq> {WWait, WDone}\<close> by auto
  ultimately show ?thesis using I(3,4) by (auto simp: all_done_def list_all_iff)
qed

text \<open>C23: No deadlock: with a buffer for at least one item, at least one master and one worker, the threads can only stop going on
  when all of them have returned, and then every number from 0 below \<^verbatim>\<open>total_items\<close> has been consumed exactly once.\<close>

theorem mw_completes:
  assumes "mw_reach (mw_init items sz mem nw nm) s" and "0 < sz" and "length mem = nat sz" and "0 < nw" and "0 < nm"
    and "\<And>t. thread_step t s = None"
  shows "all_done s \<and> mset (map fst (consumed s)) = mset [0..items - 1]"
proof -
  have inv: "mw_inv s" using mw_reach_inv[OF assms(1)] mw_inv_init[of sz mem items nw nm] assms by simp
  have sz: "max_buf_size s = sz" "total_items s = items" "masters s \<noteq> []" "workers s \<noteq> []"
    using mw_reach_sizes[OF assms(1)] assms(4,5) by (auto simp: same_sizes_def mw_init_def)
  have d: "all_done s" "curr_buf_size s = 0" "item_to_produce s \<ge> items"
    using mw_stuck_done[OF inv assms(6)] assms(2) sz by auto
  have "item_to_produce s = max 0 items" "mset (map fst (consumed s)) = mset [0..item_to_produce s - 1]"
    using inv d sz by (auto simp: mw_inv_def inv_items_def)
  then show ?thesis using d by (auto simp: max_def split: if_splits)
qed

subsection \<open>Termination\<close>

text \<open>Work that is left: two for each item to produce and to consume, one for a broadcast that is due, and for each thread that has
  not gone.  A broadcast lowers it, and between broadcasts every step takes its thread further.\<close>

definition m_work :: "mpc \<Rightarrow> nat" where
  "m_work p = (case p of MMade \<Rightarrow> 3 | MLeave \<Rightarrow> 1 | MDone \<Rightarrow> 0 | _ \<Rightarrow> 2)"

definition w_work :: "wpc \<Rightarrow> nat" where
  "w_work p = (case p of WTook \<Rightarrow> 3 | WLeave \<Rightarrow> 1 | WDone \<Rightarrow> 0 | _ \<Rightarrow> 2)"

definition m_rank :: "mpc \<Rightarrow> nat" where
  "m_rank p = (case p of MLock \<Rightarrow> 2 | MCheck \<Rightarrow> 1 | _ \<Rightarrow> 0)"

definition w_rank :: "wpc \<Rightarrow> nat" where
  "w_rank p = (case p of WLock \<Rightarrow> 2 | WCheck \<Rightarrow> 1 | _ \<Rightarrow> 0)"

definition work :: "mw \<Rightarrow> nat" where
  "work s = 2 * nat (total_items s - item_to_produce s) + 2 * nat (total_items s - int (length (consumed s)))
     + sum_list (map m_work (masters s)) + sum_list (map w_work (workers s))"

definition rank :: "mw \<Rightarrow> nat" where
  "rank s = sum_list (map m_rank (masters s)) + sum_list (map w_rank (workers s))"

definition threads :: "mw \<Rightarrow> nat" where
  "threads s = length (masters s) + length (workers s)"

definition effort :: "mw \<Rightarrow> nat" where
  "effort s = work s * (2 * threads s + 1) + rank s"

lemma sum_list_update':
  "i < length xs \<Longrightarrow> sum_list (map f (xs[i := p])) + f (xs ! i) = sum_list (map f xs) + (f p :: nat)"
  by (induction xs arbitrary: i) (auto split: nat.splits)

lemma wake_work [simp]:
  "sum_list (map m_work (masters (wake_masters s))) = sum_list (map m_work (masters s))"
  "sum_list (map w_work (workers (wake_workers s))) = sum_list (map w_work (workers s))"
proof -
  have "m_work (if p = MWait then MLock else p) = m_work p" "w_work (if q = WWait then WLock else q) = w_work q" for p q
    by (auto simp: m_work_def w_work_def)
  then show "sum_list (map m_work (masters (wake_masters s))) = sum_list (map m_work (masters s))"
    "sum_list (map w_work (workers (wake_workers s))) = sum_list (map w_work (workers s))"
    by (simp_all add: wake_masters_def wake_workers_def comp_def)
qed

lemma rank_bound: "rank s \<le> 2 * threads s"
proof -
  have "m_rank p \<le> 2" "w_rank q \<le> 2" for p q by (cases p; simp add: m_rank_def) (cases q; simp add: w_rank_def)
  then have "sum_list (map m_rank ms) \<le> length ms * 2" "sum_list (map w_rank ws) \<le> length ws * 2" for ms ws
    using sum_list_mono[of ms m_rank "\<lambda>_. 2"] sum_list_mono[of ws w_rank "\<lambda>_. 2"] by (simp_all add: sum_list_triv)
  from this(1)[of "masters s"] this(2)[of "workers s"] show ?thesis by (simp add: rank_def threads_def add_mono)
qed

lemma work_set:
  "i < length (masters s) \<Longrightarrow> work (set_master i p s) + m_work (masters s ! i) = work s + m_work p"
  "j < length (workers s) \<Longrightarrow> work (set_worker j q s) + w_work (workers s ! j) = work s + w_work q"
  using sum_list_update'[of i "masters s" m_work p] sum_list_update'[of j "workers s" w_work q]
  by (simp_all add: work_def set_master_def set_worker_def)

lemma rank_set:
  "i < length (masters s) \<Longrightarrow> rank (set_master i p s) + m_rank (masters s ! i) = rank s + m_rank p"
  "j < length (workers s) \<Longrightarrow> rank (set_worker j q s) + w_rank (workers s ! j) = rank s + w_rank q"
  using sum_list_update'[of i "masters s" m_rank p] sum_list_update'[of j "workers s" w_rank q]
  by (simp_all add: rank_def set_master_def set_worker_def)

lemma work_frame [simp]:
  "work (s\<lparr>mwlock := l\<rparr>) = work s" "work (wake_masters s) = work s" "work (wake_workers s) = work s" "rank (s\<lparr>mwlock := l\<rparr>) = rank s"
  using wake_work[of s] by (simp_all add: work_def rank_def wake_masters_def wake_workers_def)

lemma consumed_less: "inv_items s \<Longrightarrow> curr_buf_size s \<noteq> 0 \<Longrightarrow> int (length (consumed s)) < total_items s"
proof -
  assume i: "inv_items s" and c: "curr_buf_size s \<noteq> 0"
  then have "length (map fst (consumed s)) + length (take (nat (curr_buf_size s)) (buffer s)) = length [0..item_to_produce s - 1]"
    by (metis inv_items_def size_mset size_union)
  then show ?thesis using i c by (auto simp: inv_items_def)
qed

text \<open>Each step lowers the work, or keeps it and lowers the rank.\<close>

lemma master_effort:
  assumes "i < length (masters s)" and "generate_requests_loop i s = Some s'"
  shows "work s' < work s \<or> work s' = work s \<and> rank s' < rank s"
proof (cases "masters s ! i")
  case MCheck
  show ?thesis
  proof (cases "curr_buf_size s < max_buf_size s \<and> item_to_produce s < total_items s")
    case True
    let ?b = "s\<lparr>buffer := (buffer s)[nat (curr_buf_size s) := item_to_produce s], curr_buf_size := curr_buf_size s + 1,
      produced := produced s @ [(item_to_produce s, i)], item_to_produce := item_to_produce s + 1\<rparr>"
    have "nat (total_items s - item_to_produce s) = Suc (nat (total_items s - (item_to_produce s + 1)))" using True by arith
    then have "work ?b + 2 = work s" by (simp add: work_def)
    then show ?thesis
      using assms True MCheck work_set(1)[of i ?b MMade] by (auto simp: generate_requests_loop_def m_work_def)
  next
    case False
    then show ?thesis
      using assms MCheck work_set(1)[of i "s\<lparr>mwlock := None\<rparr>" MWait] rank_set(1)[of i "s\<lparr>mwlock := None\<rparr>" MWait]
        work_set(1)[of i s MLeave]
      by (auto simp: generate_requests_loop_def m_work_def m_rank_def split: if_splits)
  qed
next
  case MLock
  then show ?thesis
    using assms work_set(1)[of i "s\<lparr>mwlock := Some (Master i)\<rparr>" MCheck] rank_set(1)[of i "s\<lparr>mwlock := Some (Master i)\<rparr>" MCheck]
    by (auto simp: generate_requests_loop_def m_work_def m_rank_def split: if_splits)
next
  case MMade
  then show ?thesis
    using assms work_set(1)[of i "(wake_workers s)\<lparr>mwlock := None\<rparr>" MLock] by (auto simp: generate_requests_loop_def m_work_def)
next
  case MLeave
  moreover have "m_work (masters (wake_masters s) ! i) = 1" using assms(1) MLeave by (simp add: wake_masters_def m_work_def)
  ultimately show ?thesis
    using assms work_set(1)[of i "(wake_masters s)\<lparr>mwlock := None\<rparr>" MDone] by (auto simp: generate_requests_loop_def m_work_def)
qed (use assms in \<open>simp_all add: generate_requests_loop_def\<close>)

lemma worker_effort:
  assumes "inv_items s" and "i < length (workers s)" and "consume_requests_loop i s = Some s'"
  shows "work s' < work s \<or> work s' = work s \<and> rank s' < rank s"
proof (cases "workers s ! i")
  case WCheck
  show ?thesis
  proof (cases "curr_buf_size s = 0")
    case False
    let ?b = "s\<lparr>curr_buf_size := curr_buf_size s - 1, consumed := consumed s @ [(buffer s ! nat (curr_buf_size s - 1), i)]\<rparr>"
    have "nat (total_items s - int (length (consumed s))) = Suc (nat (total_items s - (int (length (consumed s)) + 1)))"
      using consumed_less[OF assms(1) False] by arith
    then have "work ?b + 2 = work s" by (simp add: work_def add.commute)
    then show ?thesis
      using assms False WCheck work_set(2)[of i ?b WTook] by (auto simp: consume_requests_loop_def w_work_def)
  next
    case True
    then show ?thesis
      using assms WCheck work_set(2)[of i "s\<lparr>mwlock := None\<rparr>" WWait] rank_set(2)[of i "s\<lparr>mwlock := None\<rparr>" WWait] work_set(2)[of i s WLeave]
      by (auto simp: consume_requests_loop_def w_work_def w_rank_def split: if_splits)
  qed
next
  case WLock
  then show ?thesis
    using assms work_set(2)[of i "s\<lparr>mwlock := Some (Worker i)\<rparr>" WCheck] rank_set(2)[of i "s\<lparr>mwlock := Some (Worker i)\<rparr>" WCheck]
    by (auto simp: consume_requests_loop_def w_work_def w_rank_def split: if_splits)
next
  case WTook
  then show ?thesis
    using assms work_set(2)[of i "(wake_masters s)\<lparr>mwlock := None\<rparr>" WLock] by (auto simp: consume_requests_loop_def w_work_def)
next
  case WLeave
  moreover have "w_work (workers (wake_workers s) ! i) = 1" using assms(2) WLeave by (simp add: wake_workers_def w_work_def)
  ultimately show ?thesis
    using assms work_set(2)[of i "(wake_workers s)\<lparr>mwlock := None\<rparr>" WDone] by (auto simp: consume_requests_loop_def w_work_def)
qed (use assms in \<open>simp_all add: consume_requests_loop_def\<close>)

lemma effort_step:
  assumes "inv_items s" and "thread_step t s = Some s'"
  shows "effort s' < effort s"
proof -
  have l: "work s' < work s \<or> work s' = work s \<and> rank s' < rank s"
    using assms(2) by (cases rule: step_cases) (auto dest: master_effort worker_effort[OF assms(1)])
  have t: "threads s' = threads s" using same_sizes_step[of t s s'] assms(2) by (simp add: same_sizes_def threads_def)
  show ?thesis
  proof (cases "work s' < work s")
    case True
    then have "(work s' + 1) * (2 * threads s + 1) \<le> work s * (2 * threads s + 1)" by (intro mult_le_mono1) simp
    then show ?thesis using rank_bound[of s'] by (simp add: effort_def t)
  next
    case False
    then show ?thesis using l by (simp add: effort_def t)
  qed
qed

text \<open>A run without threads that wake up by themselves.\<close>

fun mw_run :: "thread list \<Rightarrow> mw \<Rightarrow> mw option" where
  "mw_run [] s = Some s"
| "mw_run (t # ts) s = (case thread_step t s of None \<Rightarrow> None | Some s' \<Rightarrow> mw_run ts s')"

lemma run_bounded: "mw_run ts s = Some s' \<Longrightarrow> mw_inv s \<Longrightarrow> length ts + effort s' \<le> effort s"
proof (induction ts arbitrary: s)
  case (Cons t ts)
  then obtain s1 where s1: "thread_step t s = Some s1" "mw_run ts s1 = Some s'" by (auto split: option.splits)
  then show ?case using Cons.IH[OF s1(2) mw_inv_step[OF Cons.prems(2) s1(1)]] effort_step[OF _ s1(1)] Cons.prems(2) by (simp add: mw_inv_def)
qed simp

lemma run_reach: "mw_run ts s = Some s' \<Longrightarrow> mw_reach s0 s \<Longrightarrow> mw_reach s0 s'"
  by (induction ts arbitrary: s) (auto split: option.splits intro: mw_reach.step)

text \<open>C25: The program ends: as long as no thread wakes up by itself, every run, however it is scheduled, makes at most a number of steps
  that is known in advance.\<close>

theorem mw_terminates:
  assumes "mw_run ts (mw_init items sz mem nw nm) = Some s" and "0 \<le> sz" and "length mem = nat sz"
  shows "length ts \<le> (4 * nat items + 2 * (nw + nm)) * (2 * (nw + nm) + 1) + 2 * (nw + nm)"
proof -
  let ?i = "mw_init items sz mem nw nm"
  have "length ts \<le> effort ?i" using run_bounded[OF assms(1) mw_inv_init[OF assms(2,3)]] by simp
  moreover have "work ?i = 4 * nat items + 2 * (nw + nm)"
    by (simp add: work_def mw_init_def sum_list_replicate m_work_def w_work_def)
  moreover have "threads ?i = nw + nm" by (simp add: threads_def mw_init_def)
  ultimately show ?thesis using rank_bound[of ?i] by (simp add: effort_def)
qed

subsection \<open>One item\<close>

text \<open>One master, one worker, a buffer for one item and one item, run to the end.\<close>

definition demo_schedule :: "thread list" where
  "demo_schedule = [Master 0, Master 0, Master 0, Worker 0, Worker 0, Worker 0, Master 0, Master 0, Master 0, Worker 0, Worker 0, Worker 0]"

definition demo_end :: mw where
  "demo_end = \<lparr>item_to_produce = 1, curr_buf_size = 0, total_items = 1, max_buf_size = 1, buffer = [0], mwlock = None,
     masters = [MDone], workers = [WDone], produced = [(0, 0)], consumed = [(0, 0)]\<rparr>"

lemma demo_runs: "mw_run demo_schedule (mw_init 1 1 [7] 1 1) = Some demo_end"
  by (simp add: demo_schedule_def demo_end_def mw_init_def generate_requests_loop_def consume_requests_loop_def
      set_master_def set_worker_def wake_masters_def wake_workers_def)

lemma demo_reached: "mw_reach (mw_init 1 1 [7] 1 1) demo_end"
  by (rule run_reach[OF demo_runs mw_reach.start])

lemma demo_stuck: "thread_step t demo_end = None"
  by (cases t) (simp_all add: demo_end_def generate_requests_loop_def consume_requests_loop_def)

theorem mw_exactly_once_witness:
  "0 \<le> curr_buf_size demo_end \<and> curr_buf_size demo_end \<le> 1 \<and> length (buffer demo_end) = nat 1 \<and>
    map fst (produced demo_end) = [0..item_to_produce demo_end - 1] \<and> item_to_produce demo_end \<le> max 0 1 \<and>
    mset (map fst (consumed demo_end)) + mset (take (nat (curr_buf_size demo_end)) (buffer demo_end)) = mset (map fst (produced demo_end))"
  by (rule mw_exactly_once[OF demo_reached]) simp_all

theorem mw_completes_witness:
  "all_done demo_end \<and> mset (map fst (consumed demo_end)) = mset [0..1 - 1]"
  by (rule mw_completes[OF demo_reached]) (simp_all add: demo_stuck)

theorem mw_terminates_witness:
  "length demo_schedule \<le> (4 * nat 1 + 2 * (1 + 1)) * (2 * (1 + 1) + 1) + 2 * (1 + 1)"
  by (rule mw_terminates[OF demo_runs]) simp_all

end
