(* ===== verification/Zemaphore.thy ===== *)
theory Zemaphore
  imports Threads
begin

text \<open>
  The semaphore of \<^verbatim>\<open>zemaphore.c\<close>, made of a counter, a mutex and a condition variable of the thread library.  Any number of
  threads call \<open>zem_down\<close> and \<open>zem_up\<close> in any order; a step takes a thread from one access of the mutex or the counter to the next.
  The code waits without a loop, so it relies on a waiting thread not to wake up by itself, which POSIX does not promise: such
  wake-ups are the steps \<open>spurious_wakeup\<close>, and the theorems are about runs without them.
\<close>

text \<open>Where a thread is: outside; in \<open>zem_down\<close> with the mutex before the decrement and before the test; waiting; signalled, but
  without the mutex yet; with the mutex before the unlock; in \<open>zem_up\<close> with the mutex before the increment, before the signal
  and before the unlock.\<close>

datatype zpc = ZOut | DownIn | DownTest | DownWait | DownWoken | DownEnd | UpIn | UpSignal | UpEnd

text \<open>\<open>downs\<close> and \<open>ups\<close> count the calls that changed the counter, \<open>passed\<close> the calls of \<open>zem_down\<close> that returned.\<close>

record zem =
  zvalue :: int
  zlock :: "nat option"
  zthreads :: "zpc list"
  downs :: nat
  ups :: nat
  passed :: nat

definition zem_init :: "int \<Rightarrow> nat \<Rightarrow> zem" where
  "zem_init v n = \<lparr>zvalue = v, zlock = None, zthreads = replicate n ZOut, downs = 0, ups = 0, passed = 0\<rparr>"

definition zset :: "nat \<Rightarrow> zpc \<Rightarrow> zem \<Rightarrow> zem" where
  "zset i p s = s\<lparr>zthreads := (zthreads s)[i := p]\<rparr>"

text \<open>The steps of a call of \<open>zem_down\<close> by thread \<open>i\<close>, one for each place.\<close>

definition zem_down :: "nat \<Rightarrow> zem \<Rightarrow> zem option" where
  "zem_down i s =
     (case zthreads s ! i of
        ZOut \<Rightarrow> if zlock s = None then Some (zset i DownIn (s\<lparr>zlock := Some i\<rparr>)) else None
      | DownIn \<Rightarrow> Some (zset i DownTest (s\<lparr>zvalue := zvalue s - 1, downs := downs s + 1\<rparr>))
      | DownTest \<Rightarrow> if zvalue s < 0 then Some (zset i DownWait (s\<lparr>zlock := None\<rparr>)) else Some (zset i DownEnd s)
      | DownWoken \<Rightarrow> if zlock s = None then Some (zset i DownEnd (s\<lparr>zlock := Some i\<rparr>)) else None
      | DownEnd \<Rightarrow> Some (zset i ZOut (s\<lparr>zlock := None, passed := passed s + 1\<rparr>))
      | _ \<Rightarrow> None)"

text \<open>The steps of a call of \<open>zem_up\<close>; \<open>pthread_cond_signal\<close> wakes thread \<open>j\<close>, which has to be waiting, or nobody when none waits.\<close>

definition zem_up :: "nat \<Rightarrow> nat \<Rightarrow> zem \<Rightarrow> zem option" where
  "zem_up j i s =
     (case zthreads s ! i of
        ZOut \<Rightarrow> if zlock s = None then Some (zset i UpIn (s\<lparr>zlock := Some i\<rparr>)) else None
      | UpIn \<Rightarrow> Some (zset i UpSignal (s\<lparr>zvalue := zvalue s + 1, ups := ups s + 1\<rparr>))
      | UpSignal \<Rightarrow>
          if DownWait \<notin> set (zthreads s) then Some (zset i UpEnd s)
          else if j < length (zthreads s) \<and> zthreads s ! j = DownWait then Some (zset i UpEnd (zset j DownWoken s))
          else None
      | UpEnd \<Rightarrow> Some (zset i ZOut (s\<lparr>zlock := None\<rparr>))
      | _ \<Rightarrow> None)"

definition spurious_wakeup :: "nat \<Rightarrow> zem \<Rightarrow> zem option" where
  "spurious_wakeup i s =
     (if i < length (zthreads s) \<and> zthreads s ! i = DownWait then Some (zset i DownWoken s) else None)"

inductive zem_reach :: "zem \<Rightarrow> zem \<Rightarrow> bool" for s0 where
  start: "zem_reach s0 s0"
| down: "\<lbrakk>zem_reach s0 s; i < length (zthreads s); zem_down i s = Some s'\<rbrakk> \<Longrightarrow> zem_reach s0 s'"
| up: "\<lbrakk>zem_reach s0 s; i < length (zthreads s); zem_up j i s = Some s'\<rbrakk> \<Longrightarrow> zem_reach s0 s'"

subsection \<open>Invariant\<close>

definition at_pc :: "zpc \<Rightarrow> zem \<Rightarrow> int" where
  "at_pc p s = int (count_list (zthreads s) p)"

definition has_mutex :: "zpc \<Rightarrow> bool" where
  "has_mutex p = (p \<in> {DownIn, DownTest, DownEnd, UpIn, UpSignal, UpEnd})"

definition zinside :: "nat \<Rightarrow> zem \<Rightarrow> bool" where
  "zinside i s = (i < length (zthreads s) \<and> has_mutex (zthreads s ! i))"

abbreviation zem_mutex :: "zem \<Rightarrow> bool" where
  "zem_mutex s \<equiv> guarded zinside zlock s"

text \<open>The counter as the tests and signals that are due will have seen it.\<close>

definition settled :: "zem \<Rightarrow> int" where
  "settled s = zvalue s + at_pc DownTest s - at_pc UpSignal s"

definition zem_inv :: "int \<Rightarrow> zem \<Rightarrow> bool" where
  "zem_inv v s =
     (zem_mutex s \<and> zvalue s = v + int (ups s) - int (downs s) \<and> at_pc DownWait s = max 0 (- settled s) \<and>
      int (passed s) + at_pc DownTest s + at_pc DownWait s + at_pc DownWoken s + at_pc DownEnd s = int (downs s))"

lemma zset_simps [simp]:
  "zvalue (zset i p s) = zvalue s" "zlock (zset i p s) = zlock s" "downs (zset i p s) = downs s" "ups (zset i p s) = ups s"
  "passed (zset i p s) = passed s" "zthreads (zset i p s) = (zthreads s)[i := p]"
  by (simp_all add: zset_def)

lemma at_pc_zset: "i < length (zthreads s) \<Longrightarrow>
    at_pc p (zset i q s) = at_pc p s - (if zthreads s ! i = p then 1 else 0) + (if q = p then 1 else 0)"
  using count_list_update[of i "zthreads s" q p] by (simp add: at_pc_def zset_def split: if_splits)

lemma at_pc_frame [simp]:
  "at_pc p (s\<lparr>zvalue := v\<rparr>) = at_pc p s" "at_pc p (s\<lparr>zlock := l\<rparr>) = at_pc p s" "at_pc p (s\<lparr>downs := d\<rparr>) = at_pc p s"
  "at_pc p (s\<lparr>ups := d\<rparr>) = at_pc p s" "at_pc p (s\<lparr>passed := d\<rparr>) = at_pc p s"
  by (simp_all add: at_pc_def)

lemma at_pc_pos: "0 \<le> at_pc p s" "p \<in> set (zthreads s) \<longleftrightarrow> at_pc p s \<noteq> 0"
  by (simp_all add: at_pc_def count_list_0_iff)

lemma zinside_frame [simp]:
  "zinside i (s\<lparr>zvalue := v\<rparr>) = zinside i s" "zinside i (s\<lparr>zlock := l\<rparr>) = zinside i s" "zinside i (s\<lparr>downs := d\<rparr>) = zinside i s"
  "zinside i (s\<lparr>ups := d\<rparr>) = zinside i s" "zinside i (s\<lparr>passed := d\<rparr>) = zinside i s"
  by (simp_all add: zinside_def)

lemma zinside_zset [simp]: "i < length (zthreads s) \<Longrightarrow> zinside k (zset i p s) = (if k = i then has_mutex p else zinside k s)"
  by (simp add: zinside_def nth_list_update)

lemma has_mutex_simps [simp]:
  "has_mutex DownIn" "has_mutex DownTest" "has_mutex DownEnd" "has_mutex UpIn" "has_mutex UpSignal" "has_mutex UpEnd"
  "\<not> has_mutex ZOut" "\<not> has_mutex DownWait" "\<not> has_mutex DownWoken"
  by (simp_all add: has_mutex_def)

lemma down_lock:
  assumes "i < length (zthreads s)" and "zem_down i s = Some s'"
  shows "takes zinside zlock i s s' \<or> gives zinside zlock i s s' \<or> keeps zinside zlock s s'"
proof -
  have t: "zinside i s = has_mutex (zthreads s ! i)" using assms(1) by (simp add: zinside_def)
  show ?thesis
    using assms unfolding zem_down_def takes_def gives_def keeps_def
    by (cases "zthreads s ! i"; clarsimp simp: t split: if_splits; (auto simp: t)?)
qed

lemma up_lock:
  assumes "i < length (zthreads s)" and "zem_up j i s = Some s'"
  shows "takes zinside zlock i s s' \<or> gives zinside zlock i s s' \<or> keeps zinside zlock s s'"
proof -
  have t: "zinside k s = has_mutex (zthreads s ! k)" if "k < length (zthreads s)" for k using that by (simp add: zinside_def)
  show ?thesis
    using assms unfolding zem_up_def takes_def gives_def keeps_def
    by (cases "zthreads s ! i"; clarsimp simp: t split: if_splits; (auto simp: t)?)
qed

interpretation zmp: mutex_protocol zinside zlock
  "\<lambda>i s s'. i < length (zthreads s) \<and> (zem_down i s = Some s' \<or> (\<exists>j. zem_up j i s = Some s'))"
  by unfold_locales (use down_lock up_lock in blast)

lemma mutex_alone:
  assumes "zem_mutex s" "i < length (zthreads s)" "has_mutex (zthreads s ! i)" "has_mutex p"
  shows "at_pc p s = (if zthreads s ! i = p then 1 else 0)"
proof -
  have "j = i" if "j < length (zthreads s)" "zthreads s ! j = p" for j
    using zmp.exclusive[OF assms(1), of i j] assms that by (simp add: zinside_def)
  then show ?thesis using count_list_unique[OF assms(2), of p] by (auto simp: at_pc_def)
qed

lemma mutex_none:
  assumes "zem_mutex s" "zlock s = None" "has_mutex p" shows "at_pc p s = 0"
proof -
  have "p \<notin> set (zthreads s)" using zmp.free[OF assms(1,2)] assms(3) by (auto simp: in_set_conv_nth zinside_def)
  then show ?thesis by (simp add: at_pc_def count_list_0_iff)
qed

lemma zem_inv_init:
  assumes "0 \<le> v" shows "zem_inv v (zem_init v n)"
proof -
  have "\<not> zinside i (zem_init v n)" for i by (simp add: zinside_def zem_init_def)
  then show ?thesis using assms by (simp add: zem_inv_def guarded_def settled_def zem_init_def at_pc_def count_list_0_iff)
qed

lemma zem_inv_down:
  assumes "zem_inv v s" "i < length (zthreads s)" "zem_down i s = Some s'"
  shows "zem_inv v s'"
proof -
  have m: "zem_mutex s" "zem_mutex s'" using assms zmp.guarded_step[of s i s'] by (auto simp: zem_inv_def)
  have t: "has_mutex (zthreads s ! i) \<Longrightarrow> at_pc DownTest s = (if zthreads s ! i = DownTest then 1 else 0) \<and>
      at_pc UpSignal s = (if zthreads s ! i = UpSignal then 1 else 0)"
    using mutex_alone[OF m(1) assms(2)] by simp
  have f: "zlock s = None \<Longrightarrow> at_pc DownTest s = 0 \<and> at_pc UpSignal s = 0" using mutex_none[OF m(1)] by simp
  show ?thesis
    using assms m(2) t f
    by (cases "zthreads s ! i") (auto simp: zem_inv_def settled_def zem_down_def at_pc_zset split: if_splits)
qed

lemma zem_inv_up:
  assumes "zem_inv v s" "i < length (zthreads s)" "zem_up j i s = Some s'"
  shows "zem_inv v s'"
proof -
  have m: "zem_mutex s" "zem_mutex s'" using assms zmp.guarded_step[of s i s'] by (auto simp: zem_inv_def)
  have t: "has_mutex (zthreads s ! i) \<Longrightarrow> at_pc DownTest s = (if zthreads s ! i = DownTest then 1 else 0) \<and>
      at_pc UpSignal s = (if zthreads s ! i = UpSignal then 1 else 0)"
    using mutex_alone[OF m(1) assms(2)] by simp
  have f: "zlock s = None \<Longrightarrow> at_pc DownTest s = 0 \<and> at_pc UpSignal s = 0" using mutex_none[OF m(1)] by simp
  show ?thesis
    using assms m(2) t f
    by (cases "zthreads s ! i") (auto simp: zem_inv_def settled_def zem_up_def at_pc_zset at_pc_pos nth_list_update split: if_splits)
qed

lemma zem_reach_inv: "zem_reach s0 s \<Longrightarrow> zem_inv v s0 \<Longrightarrow> zem_inv v s"
  by (induction rule: zem_reach.induct) (auto intro: zem_inv_down zem_inv_up)


text \<open>One thread passes, a second one waits, the first one raises the counter and wakes it, and it passes.\<close>

datatype zact = Down nat | Up nat nat | Spur nat

fun zact_step :: "zact \<Rightarrow> zem \<Rightarrow> zem option" where
  "zact_step (Down i) s = (if i < length (zthreads s) then zem_down i s else None)"
| "zact_step (Up j i) s = (if i < length (zthreads s) then zem_up j i s else None)"
| "zact_step (Spur i) s = spurious_wakeup i s"

fun zem_run :: "zact list \<Rightarrow> zem \<Rightarrow> zem option" where
  "zem_run [] s = Some s"
| "zem_run (a # as) s = (case zact_step a s of None \<Rightarrow> None | Some s' \<Rightarrow> zem_run as s')"

definition no_spurious :: "zact list \<Rightarrow> bool" where
  "no_spurious as = list_all (\<lambda>a. case a of Spur i \<Rightarrow> False | _ \<Rightarrow> True) as"

lemma zem_run_reach: "\<lbrakk>zem_run as s = Some s'; no_spurious as; zem_reach s0 s\<rbrakk> \<Longrightarrow> zem_reach s0 s'"
proof (induction as arbitrary: s)
  case (Cons a as)
  then show ?case
    by (cases a) (auto simp: no_spurious_def split: option.splits if_splits intro: zem_reach.down zem_reach.up)
qed simp

definition zem_demo :: "zact list" where
  "zem_demo = [Down 0, Down 0, Down 0, Down 0, Down 1, Down 1, Down 1, Up 1 0, Up 1 0, Up 1 0, Up 1 0, Down 1, Down 1]"

definition zem_demo_end :: zem where
  "zem_demo_end = \<lparr>zvalue = 0, zlock = None, zthreads = [ZOut, ZOut], downs = 2, ups = 1, passed = 2\<rparr>"

lemma zem_demo_runs: "zem_run zem_demo (zem_init 1 2) = Some zem_demo_end"
  by (simp add: zem_demo_def zem_demo_end_def zem_init_def zem_down_def zem_up_def zset_def numeral_2_eq_2)


text \<open>With a wake-up of its own a thread gets past a semaphore that nobody raised: \<open>zem_down\<close> tests the counter once instead of in
  a loop.\<close>

lemma spurious_passes:
  "\<exists>s. zem_run [Down 0, Down 0, Down 0, Spur 0, Down 0, Down 0] (zem_init 0 1) = Some s \<and> passed s = 1 \<and> ups s = 0"
  by (simp add: zem_init_def zem_down_def zset_def spurious_wakeup_def)

end
